(* ===== verification/C_Prelude.thy ===== *)
theory C_Prelude
  imports Main "HOL-Library.Word" "HOL-Library.Signed_Division" "HOL-Library.Monad_Syntax"
begin

text \<open>
  Shared vocabulary of the development.  The theories model the C runtime that OpenASIP links
  into every program it compiles, so the C integer types come first:

  \<^item> \<open>bits32\<close>, \<open>uint32\<close>, \<open>int32\<close> are \<open>32 word\<close> (and \<open>64 word\<close> for the 64-bit
    types); \<open>+\<close>, \<open>-\<close>, \<open>*\<close> wrap, a signed reading is \<open>sint\<close>;
  \<^item> the small signed counters (\<open>int8\<close> and \<open>int16\<close> exponents, shift counts) are \<open>int\<close>;
  \<^item> \<open>flag\<close>, an \<open>int\<close> that holds 0 or 1, is \<open>bool\<close>;
  \<^item> \<open>a << n\<close> and \<open>a >> n\<close> with a C \<open>int\<close> count are \<open>c_shl\<close> and \<open>c_shr\<close>.

  The lemmas move word expressions to integer arithmetic; they are collected in \<open>c_arith\<close>.
\<close>

unbundle bit_operations_syntax

named_theorems c_arith "word operations of the C code as integer arithmetic"

type_synonym bits8 = "8 word"
type_synonym bits16 = "16 word"
type_synonym bits32 = "32 word"
type_synonym bits64 = "64 word"
type_synonym flag = bool

section \<open>C shifts by an \<open>int\<close> count, C truth values\<close>

definition c_shl :: "'a::len word \<Rightarrow> int \<Rightarrow> 'a word" where
  "c_shl a n = push_bit (nat n) a"

definition c_shr :: "'a::len word \<Rightarrow> int \<Rightarrow> 'a word" where
  "c_shr a n = drop_bit (nat n) a"

definition bit_of :: "bool \<Rightarrow> 'a::len word" where
  "bit_of b = (if b then 1 else 0)"

lemma bit_of_simps [simp]: "bit_of True = 1" "bit_of False = 0"
  by (simp_all add: bit_of_def)

section \<open>Words as natural numbers and integers\<close>

lemma unat_drop_bit [c_arith]:
  "unat (drop_bit n a) = unat a div 2 ^ n" for a :: "'a::len word"
  by (metis unat_drop_bit_eq drop_bit_eq_div)

lemma uint_drop_bit [c_arith]:
  "uint (drop_bit n a) = uint a div 2 ^ n" for a :: "'a::len word"
  by (simp only: uint_nat unat_drop_bit zdiv_int) simp

lemma unat_push_bit [c_arith]:
  "unat (push_bit n a) = (unat a * 2 ^ n) mod 2 ^ LENGTH('a)" for a :: "'a::len word"
  by (metis push_bit_eq_mult take_bit_eq_mod unsigned_push_bit_eq)

lemma uint_push_bit [c_arith]:
  "uint (push_bit n a) = (uint a * 2 ^ n) mod 2 ^ LENGTH('a)" for a :: "'a::len word"
  by (metis push_bit_eq_mult take_bit_eq_mod unsigned_push_bit_eq)

lemma uint_and_mask: "uint (a AND mask n) = uint a mod 2 ^ n" for a :: "'a::len word"
  by (metis take_bit_eq_mask take_bit_eq_mod unsigned_take_bit_eq)

lemma int_and_mask: "k AND mask n = k mod 2 ^ n" for k :: int
  by (simp add: take_bit_eq_mod flip: take_bit_eq_mask)

lemma int_and_31 [c_arith]: "k AND 31 = k mod 32" for k :: int
  using int_and_mask [of k 5] by (simp add: mask_numeral)

lemma or_disjoint: "a AND b = 0 \<Longrightarrow> a OR b = a + b" for a b :: "'a::len word"
  using word_plus_and_or [of a b] by simp

lemma half_range_div:
  fixes u m :: int
  assumes "0 < m" "0 \<le> u" "u < 2 * m"
  shows "odd (u div m) \<longleftrightarrow> m \<le> u"
proof (cases "u < m")
  case True
  with assms show ?thesis by simp
next
  case False
  with assms have "u div m = 1" by (simp add: div_pos_geq)
  with False show ?thesis by simp
qed

lemma sint_neg_iff:
  "sint a < 0 \<longleftrightarrow> 2 ^ (LENGTH('a) - 1) \<le> uint a" for a :: "'a::len word"
proof -
  let ?m = "2 ^ (LENGTH('a) - Suc 0) :: int"
  have "uint a < 2 * ?m"
    using uint_lt2p [of a] by (metis Suc_pred len_gt_0 power_Suc)
  then have "odd (uint a div ?m) \<longleftrightarrow> ?m \<le> uint a"
    by (intro half_range_div) simp_all
  then show ?thesis
    by (simp add: sint_uint signed_take_bit_negative_iff bit_iff_odd)
qed

lemma sint32_neg_iff [c_arith]: "sint a < 0 \<longleftrightarrow> 2 ^ 31 \<le> uint a" for a :: bits32
  using sint_neg_iff [of a] by simp

lemma sint64_neg_iff [c_arith]: "sint a < 0 \<longleftrightarrow> 2 ^ 63 \<le> uint a" for a :: bits64
  using sint_neg_iff [of a] by simp

lemma sint_word_of_int_32: "- (2 ^ 31) \<le> k \<Longrightarrow> k < 2 ^ 31 \<Longrightarrow> sint (word_of_int k :: bits32) = k"
  by (simp add: signed_of_int signed_take_bit_int_eq_self)

lemma sint_eq:
  "sint a = (if sint a < 0 then uint a - 2 ^ LENGTH('a) else uint a)" for a :: "'a::len word"
proof -
  have "sint a = uint a - 2 ^ LENGTH('a) * of_bool (bit (uint a) (LENGTH('a) - Suc 0))"
    by (simp add: sint_uint signed_take_bit_eq_take_bit_minus bintr_uint)
  moreover have "sint a < 0 \<longleftrightarrow> bit (uint a) (LENGTH('a) - Suc 0)"
    by (simp add: sint_uint signed_take_bit_negative_iff)
  ultimately show ?thesis by simp
qed

lemma unat_lt2p: "unat a < 2 ^ LENGTH('a)" for a :: "'a::len word"
  by (rule unsigned_less)

lemma unat_le_iff: "a \<le> b \<longleftrightarrow> unat a \<le> unat b" for a b :: "'a::len word"
  by (rule word_le_nat_alt)

lemma power_length_Suc: "(2::nat) ^ LENGTH('a::len) = 2 * 2 ^ (LENGTH('a) - 1)"
  by (metis One_nat_def Suc_pred len_gt_0 power_Suc)

section \<open>Powers of two and single bits\<close>

lemma signed_drop_bit_nonneg:
  "\<not> bit w (LENGTH('a) - 1) \<Longrightarrow> signed_drop_bit n w = drop_bit n w" for w :: "'a::len word"
  by (rule bit_word_eqI) (auto simp: bit_simps dest: bit_imp_le_length)

lemma signed_drop_bit_exp:
  assumes "Suc k < LENGTH('a)"
  shows "signed_drop_bit 1 (2 ^ k :: 'a::len word) = (if k = 0 then 0 else 2 ^ (k - 1))"
proof -
  have "signed_drop_bit 1 (2 ^ k :: 'a word) = drop_bit 1 (2 ^ k)"
    using assms by (intro signed_drop_bit_nonneg) (simp add: bit_simps)
  also have "\<dots> = (if k = 0 then 0 else 2 ^ (k - 1))"
    using assms by (intro bit_word_eqI) (auto simp: bit_simps)
  finally show ?thesis .
qed

lemma unat_exp: "k < LENGTH('a) \<Longrightarrow> unat (2 ^ k :: 'a::len word) = 2 ^ k"
  using unat_of_nat [of "2 ^ k", where 'a = 'a] by simp

lemma exp_ne_0: "k < LENGTH('a) \<Longrightarrow> (2 ^ k :: 'a::len word) \<noteq> 0"
  using unat_exp [of k, where 'a = 'a] by auto

lemma or_exp_eq_add:
  fixes res :: "'a::len word"
  assumes "2 ^ Suc k dvd unat res"
  shows "res OR 2 ^ k = res + 2 ^ k"
proof (rule or_disjoint)
  from assms obtain c where "unat res = 2 ^ k * (2 * c)" by (auto simp: dvd_def)
  then have "even (unat res div 2 ^ k)" by simp
  then have "\<not> bit (unat res) k" by (simp add: bit_iff_odd)
  then have "\<not> bit res k" by (simp add: bit_unsigned_iff)
  then show "res AND 2 ^ k = 0" by (intro bit_word_eqI) (auto simp: bit_simps)
qed

lemma exp_and_mask: "2 ^ k AND mask k = (0 :: 'a::len word)"
  by (rule bit_word_eqI) (auto simp: bit_simps)

lemma exp_dvd_unat_or_exp:
  fixes a :: "'a::len word"
  assumes "2 ^ k dvd unat a"
  shows "2 ^ k dvd unat (a OR 2 ^ k)"
  using assms by (simp only: and_mask_dvd_nat bit.conj_disj_distrib2 exp_and_mask) simp

lemma and_exp_eq_0_iff:
  "a AND 2 ^ m = 0 \<longleftrightarrow> \<not> bit a m" if "m < LENGTH('a)" for a :: "'a::len word"
proof
  assume "a AND 2 ^ m = 0"
  then have "\<not> bit (a AND 2 ^ m) m" by simp
  with that show "\<not> bit a m" by (simp add: bit_simps)
next
  assume "\<not> bit a m"
  then show "a AND 2 ^ m = 0" by (intro bit_word_eqI) (auto simp: bit_simps)
qed

lemma top_bit_clear_iff:
  "a AND 2 ^ (LENGTH('a) - Suc 0) = 0 \<longleftrightarrow> unat a < 2 ^ (LENGTH('a) - 1)"
  for a :: "'a::len word"
proof -
  have "a AND 2 ^ (LENGTH('a) - Suc 0) = 0 \<longleftrightarrow> \<not> sint a < 0"
    by (simp add: and_exp_eq_0_iff bit_last_iff)
  also have "\<dots> \<longleftrightarrow> uint a < 2 ^ (LENGTH('a) - 1)" by (simp add: sint_neg_iff not_le)
  also have "\<dots> \<longleftrightarrow> unat a < 2 ^ (LENGTH('a) - 1)"
    by (simp only: uint_nat) (metis of_nat_less_iff of_nat_numeral of_nat_power)
  finally show ?thesis .
qed

section \<open>Absolute value of a signed word\<close>

definition abs_word :: "'a::len word \<Rightarrow> 'a word" where
  "abs_word a = (if sint a < 0 then - a else a)"

lemma uint_abs_word: "uint (abs_word a) = \<bar>sint a\<bar>" for a :: "'a::len word"
proof (cases "sint a < 0")
  case True
  then have "sint a = uint a - 2 ^ LENGTH('a)" using sint_eq [of a] by simp
  moreover have "0 < uint a" using True by (metis sint_0 less_irrefl uint_0_iff uint_ge_0 order_less_le)
  ultimately show ?thesis using True uint_lt2p [of a]
    by (simp add: abs_word_def uint_word_ariths zmod_zminus1_eq_if abs_if)
next
  case False
  then show ?thesis using sint_eq [of a] by (simp add: abs_word_def)
qed

section \<open>Pieces of a shifted word\<close>

lemma uint_push_or:
  fixes a b :: "'a::len word"
  assumes "uint b < 2 ^ m" "m \<le> LENGTH('a)"
  shows "uint (push_bit m a OR b) = uint a * 2 ^ m mod 2 ^ LENGTH('a) + uint b"
proof -
  have dis: "push_bit m a AND b = 0"
  proof (rule bit_word_eqI)
    fix n
    have "\<not> bit b n" if "m \<le> n"
    proof -
      have "uint b < 2 ^ n" using assms(1) that by (meson less_le_trans one_le_numeral power_increasing)
      then have "\<not> bit (uint b) n" by (simp add: bit_iff_odd)
      then show ?thesis using bit_imp_le_length [of b n] by (auto simp: bit_uint_iff)
    qed
    then show "bit (push_bit m a AND b) n = bit 0 n" by (auto simp: bit_simps)
  qed
  let ?x = "uint a * 2 ^ m mod 2 ^ LENGTH('a)"
  have "?x = (uint a mod 2 ^ (LENGTH('a) - m)) * 2 ^ m"
    using assms(2) by (simp add: mult_mod_left flip: power_add)
  moreover have "uint a mod 2 ^ (LENGTH('a) - m) + 1 \<le> 2 ^ (LENGTH('a) - m)"
    by (simp add: add1_zle_eq)
  ultimately have "?x + 2 ^ m \<le> 2 ^ (LENGTH('a) - m) * 2 ^ m"
    by (metis (no_types, opaque_lifting) mult.commute mult_right_mono distrib_right mult_1 zero_le_numeral zero_le_power)
  then have "?x + uint b < 2 ^ LENGTH('a)"
    using assms by (simp flip: power_add)
  moreover have "uint (push_bit m a OR b) = (?x + uint b) mod 2 ^ LENGTH('a)"
    by (simp only: or_disjoint [OF dis] uint_word_ariths uint_push_bit)
  ultimately show ?thesis by simp
qed

lemma uint_or_bit_of:
  fixes a :: "'a::len word"
  shows "uint (a OR bit_of c) = uint a + (if c \<and> even (uint a) then 1 else 0)"
proof -
  have "uint (a OR 1) = uint a + (if even (uint a) then 1 else 0)"
    by (simp only: uint_or uint_1) (simp add: or_one_eq)
  then show ?thesis by (cases c) simp_all
qed

lemma uint_c_shl: "0 \<le> n \<Longrightarrow> uint (c_shl a n) = uint a * 2 ^ nat n mod 2 ^ LENGTH('a)" for a :: "'a::len word"
  by (simp add: c_shl_def uint_push_bit)

lemma uint_c_shr: "0 \<le> n \<Longrightarrow> uint (c_shr a n) = uint a div 2 ^ nat n" for a :: "'a::len word"
  by (simp add: c_shr_def uint_drop_bit)

lemma uint_c_shl_0_iff: "c_shl a n = 0 \<longleftrightarrow> uint a * 2 ^ nat n mod 2 ^ LENGTH('a) = 0" for a :: "'a::len word"
  by (metis c_shl_def uint_0_iff uint_push_bit)

lemma two_piece_div:
  fixes a0 a1 C N :: int
  assumes "0 < C" "0 < N"
  shows "(a0 * (C * N) + a1) div C = (a0 div C) * (C * N) + (a0 * N mod (C * N) + a1 div C)"
    and "(a0 * (C * N) + a1) mod C = a1 mod C"
proof -
  have "a0 * N = (a0 div C) * (C * N) + a0 * N mod (C * N)"
    using assms by (metis (no_types, lifting) div_mult_mult2 less_irrefl minus_mod_eq_div_mult add.commute diff_add_cancel div_mult_mod_eq)
  moreover have "(a0 * (C * N) + a1) div C = a0 * N + a1 div C"
    using assms by (simp add: mult.left_commute)
  ultimately show "(a0 * (C * N) + a1) div C = (a0 div C) * (C * N) + (a0 * N mod (C * N) + a1 div C)"
    by linarith
  show "(a0 * (C * N) + a1) mod C = a1 mod C"
    by (simp add: mult.left_commute)
qed

lemma int_div_lt:
  fixes x c n :: int
  assumes "x < c * n" "0 < c"
  shows "x div c < n"
proof (rule ccontr)
  assume "\<not> x div c < n"
  then have "c * n \<le> c * (x div c)" using assms(2) by simp
  also have "\<dots> \<le> x" using assms(2) by (simp add: minus_mod_eq_mult_div [symmetric])
  finally show False using assms(1) by simp
qed

section \<open>Carries, borrows and two-piece numbers\<close>

lemma int_mod_if_pos:
  fixes x m :: int
  assumes "0 \<le> x" "x < 2 * m"
  shows "x mod m = (if x < m then x else x - m)"
proof (cases "x < m")
  case False
  then have "(x - m) mod m = x - m" using assms by (intro mod_pos_pos_trivial) simp_all
  with False show ?thesis by simp
qed (use assms in simp)

lemma int_mod_if_neg:
  fixes x m :: int
  assumes "- m \<le> x" "x < m"
  shows "x mod m = (if 0 \<le> x then x else x + m)"
proof (cases "0 \<le> x")
  case False
  then have "(x + m) mod m = x + m" using assms by (intro mod_pos_pos_trivial) simp_all
  with False show ?thesis by simp
qed (use assms in simp)

lemma uint_bit_of: "uint (bit_of c :: 'a::len word) = (if c then 1 else 0)"
  by (simp add: bit_of_def)

lemma uint_plus_carry: 
  fixes a b :: "'a::len word"
  shows "uint (a + b) + (if a + b < a then 1 else 0) * 2 ^ LENGTH('a) = uint a + uint b"
proof -
  have "uint a + uint b < 2 * 2 ^ LENGTH('a)"
    using uint_lt2p [of a] uint_lt2p [of b] by linarith
  from int_mod_if_pos [OF _ this] show ?thesis using uint_lt2p [of a] uint_lt2p [of b]
    by (simp add: word_less_def uint_word_ariths)
qed

lemma uint_minus_borrow:
  fixes a b :: "'a::len word"
  shows "uint (a - b) - (if a < b then 1 else 0) * 2 ^ LENGTH('a) = uint a - uint b"
proof -
  have "- (2 ^ LENGTH('a)) \<le> uint a - uint b" "uint a - uint b < 2 ^ LENGTH('a)"
    using uint_lt2p [of a] uint_lt2p [of b] by (smt (verit) uint_ge_0)+
  from int_mod_if_neg [OF this] show ?thesis 
    by (simp add: word_less_def uint_word_ariths)
qed

lemma int_cong_mod:
  fixes z s :: int
  assumes "0 \<le> z" "z < m" "z + k * m = s"
  shows "z = s mod m"
  using assms by auto

lemma int_mod_carry: "(x :: int) mod m + x div m * m = x"
  by (rule mod_div_mult_eq)

lemma two_digit_iff:
  fixes a0 a1 b0 b1 m :: int
  assumes "0 \<le> a1" "a1 < m" "0 \<le> b1" "b1 < m"
  shows "a0 * m + a1 < b0 * m + b1 \<longleftrightarrow> a0 < b0 \<or> a0 = b0 \<and> a1 < b1"
proof -
  have *: "c0 * m + c1 < d0 * m + d1" if "c0 < d0" "0 \<le> d1" "c1 < m" for c0 c1 d0 d1
  proof -
    have "(c0 + 1) * m \<le> d0 * m" using that assms by (intro mult_right_mono) simp_all
    then show ?thesis using that by (simp add: algebra_simps)
  qed
  show ?thesis using *[of a0 b0 b1 a1] *[of b0 a0 a1 b1] assms by (cases a0 b0 rule: linorder_cases) auto
qed

lemma uint_mult_exact:
  fixes a b :: "'a::len word"
  assumes "uint a * uint b < 2 ^ LENGTH('a)"
  shows "uint (a * b) = uint a * uint b"
  using assms by (simp add: uint_word_ariths)

lemma mult_less_pow:
  fixes x y :: int
  assumes "0 \<le> x" "x < 2 ^ m" "0 \<le> y" "y < 2 ^ n"
  shows "x * y < 2 ^ (m + n)"
  using mult_strict_mono [of x "2 ^ m" y "2 ^ n"] assms by (simp add: power_add)

lemma two_piece_shl:
  fixes a0 a1 C N :: int
  assumes "0 < C" "0 < N"
  shows "a1 div N * (C * N) + a1 * C mod (C * N) = a1 * C"
proof -
  have "a1 * C div (C * N) = a1 div N" using assms by (simp add: mult.commute)
  then show ?thesis by (metis div_mult_mod_eq)
qed

lemma uint_pos: "a \<noteq> 0 \<Longrightarrow> 1 \<le> uint a" for a :: "'a::len word"
  using uint_ge_0 [of a] uint_0_iff [of a] by linarith

lemma uint_c_shl_exact:
  fixes a :: "'a::len word"
  assumes "uint a < 2 ^ (LENGTH('a) - k)" "k \<le> LENGTH('a)"
  shows "uint (c_shl a (int k)) = uint a * 2 ^ k"
proof -
  have "uint a * 2 ^ k < 2 ^ (LENGTH('a) - k) * 2 ^ k" using assms by simp
  then have "uint a * 2 ^ k < 2 ^ LENGTH('a)" using assms(2) by (simp flip: power_add)
  then show ?thesis by (simp add: uint_c_shl)
qed

section \<open>Clearing and setting bits\<close>

lemma and_not_mask: "w AND NOT (mask n) = push_bit n (drop_bit n w)" for w :: "'a::len word"
  by (rule bit_word_eqI) (auto simp: bit_simps)

lemma xor_eq_0: "a XOR b = 0 \<longleftrightarrow> a = b" for a b :: "'a::len word"
proof
  assume "a XOR b = 0"
  then have "(a XOR b) XOR b = b" by simp
  then show "a = b" by (simp only: xor.assoc xor_self_eq xor.right_neutral)
qed simp

lemma uint_clear_low: "uint (w AND NOT (bit_of c)) = uint w - (if c then uint w mod 2 else 0)" for w :: "'a::len word"
proof (cases c)
  case True
  have "uint (w AND NOT (mask 1)) = uint w div 2 ^ 1 * 2 ^ 1 mod 2 ^ LENGTH('a)"
    by (simp only: and_not_mask uint_push_bit uint_drop_bit)
  then have "uint (w AND NOT 1) = uint w div 2 * 2 mod 2 ^ LENGTH('a)" by simp
  also have "\<dots> = uint w div 2 * 2"
  proof (rule mod_pos_pos_trivial)
    have "uint w div 2 * 2 \<le> uint w" by (simp add: minus_mod_eq_div_mult [symmetric])
    then show "uint w div 2 * 2 < 2 ^ LENGTH('a)" using uint_lt2p [of w] by linarith
  qed (simp add: pos_imp_zdiv_nonneg_iff)
  finally show ?thesis using True by (simp add: minus_mod_eq_div_mult bit_of_def)
qed (simp add: bit_of_def)

lemma uint_plus_exact: "uint a + uint b < 2 ^ LENGTH('a) \<Longrightarrow> uint (a + b) = uint a + uint b" for a b :: "'a::len word"
  by (simp add: uint_word_ariths)

lemma uint_or_exp:
  fixes x :: "'a::len word"
  assumes "uint x < 2 ^ n" "n < LENGTH('a)"
  shows "uint (x OR push_bit n 1) = uint x + 2 ^ n"
proof -
  have "(2::int) ^ n < 2 ^ LENGTH('a)" using assms(2) by simp
  then have "uint (1 :: 'a word) * 2 ^ n mod 2 ^ LENGTH('a) = 2 ^ n" by simp
  then show ?thesis
    using uint_push_or [of x n 1] assms by (simp only: or.commute less_imp_le)
qed

lemma or_bit_set: "bit S n \<Longrightarrow> S OR push_bit n 1 = S" for S :: "'a::len word"
  by (rule bit_word_eqI) (auto simp: bit_simps)

section \<open>Masks as arithmetic\<close>

lemma uint_and_not_mask: "uint (w AND NOT (mask k)) = uint w - uint w mod 2 ^ k" for w :: "'a::len word"
proof -
  have "uint w div 2 ^ k * 2 ^ k = uint w - uint w mod 2 ^ k" by (simp add: minus_mod_eq_div_mult)
  moreover have "0 \<le> uint w mod 2 ^ k" by (rule pos_mod_sign) simp
  moreover have "0 \<le> uint w div 2 ^ k * 2 ^ k" by (simp add: pos_imp_zdiv_nonneg_iff)
  moreover note uint_lt2p [of w]
  ultimately have "uint w div 2 ^ k * 2 ^ k mod 2 ^ LENGTH('a) = uint w - uint w mod 2 ^ k"
    by (subst mod_pos_pos_trivial) linarith+
  then show ?thesis by (simp add: and_not_mask uint_push_bit uint_drop_bit)
qed

lemma uint_and_not_exp:
  fixes w :: "'a::len word"
  assumes "k < LENGTH('a)"
  shows "uint (w AND NOT (2 ^ k)) = uint w - (uint w div 2 ^ k mod 2) * 2 ^ k"
proof -
  have "w AND NOT (2 ^ k) = (w AND NOT (mask (Suc k))) + (w AND mask k)"
    by (subst or_disjoint [symmetric]; intro bit_word_eqI) (use assms in \<open>auto simp: bit_simps less_Suc_eq dest: bit_imp_le_length\<close>)
  also have "uint \<dots> = (uint w - uint w mod 2 ^ Suc k + uint w mod 2 ^ k) mod 2 ^ LENGTH('a)"
    by (simp only: uint_word_ariths uint_and_not_mask uint_and_mask)
  also have "uint w mod 2 ^ Suc k = 2 ^ k * (uint w div 2 ^ k mod 2) + uint w mod 2 ^ k"
    using zmod_zmult2_eq [of 2 "uint w" "2 ^ k"] by (simp add: mult.commute)
  also have "uint w - \<dots> + uint w mod 2 ^ k = uint w - uint w div 2 ^ k mod 2 * 2 ^ k" by (simp add: mult.commute)
  also have "\<dots> mod 2 ^ LENGTH('a) = uint w - uint w div 2 ^ k mod 2 * 2 ^ k"
  proof (rule mod_pos_pos_trivial)
    have "uint w = uint w div 2 ^ k * 2 ^ k + uint w mod 2 ^ k" by (rule div_mult_mod_eq [symmetric])
    moreover have "uint w div 2 ^ k mod 2 * 2 ^ k \<le> uint w div 2 ^ k * 2 ^ k"
      by (intro mult_right_mono zmod_le_nonneg_dividend) (simp_all add: pos_imp_zdiv_nonneg_iff)
    moreover have "0 \<le> uint w mod 2 ^ k" "0 \<le> uint w div 2 ^ k mod 2 * 2 ^ k" by simp_all
    ultimately show "0 \<le> uint w - uint w div 2 ^ k mod 2 * 2 ^ k" "uint w - uint w div 2 ^ k mod 2 * 2 ^ k < 2 ^ LENGTH('a)"
      using uint_lt2p [of w] by linarith+
  qed
  finally show ?thesis .
qed

lemma uint_exp: "k < LENGTH('a) \<Longrightarrow> uint (2 ^ k :: 'a::len word) = 2 ^ k"
  using unat_exp [of k, where 'a = 'a] by (simp add: uint_nat)

lemma uint_mask: "k \<le> LENGTH('a) \<Longrightarrow> uint (mask k :: 'a::len word) = 2 ^ k - 1"
  unfolding uint_mask_eq by (simp add: min_absorb2 mask_eq_exp_minus_1)

lemma c_shl_1: "c_shl 1 (int k) = 2 ^ k" for k :: nat
  by (simp add: c_shl_def push_bit_eq_mult)

lemma mask_eq_0_iff: "w AND mask k = 0 \<longleftrightarrow> uint w mod 2 ^ k = 0" for w :: "'a::len word"
  by (metis uint_0_iff uint_and_mask)

end
