(* ===== verification/Int_Emulation.thy ===== *)
theory Int_Emulation
  imports C_Prelude
begin

text \<open>
  The integer emulation routines of \<open>newlib/libc/sys/tce/standard_emulation.c\<close>: shift-and-subtract
  division and remainder, shift-and-add multiplication and bit-by-bit shifts, which the compiler
  calls when the target machine has no such operation.  The 32-bit routines (\<open>__udivsi3\<close> and its
  kin) and the 64-bit ones (\<open>__udivdi3\<close>, compiled for \<open>__TCE64__\<close>) have the same text at two
  widths; the loops are written once for \<open>'a word\<close> and the routines are their instances.

  The counter \<open>bit\<close> of the divider is a signed \<open>int32\<close>, and \<open>bit >>= 1\<close> is an arithmetic
  shift: a counter that has reached the sign bit never becomes 0.  The second loop is therefore a
  \<open>partial_function (option)\<close>, whose value \<open>None\<close> is a loop that does not return.
\<close>

section \<open>The divider\<close>

text \<open>First loop of \<open>divmodsi4\<close>: align the divisor with the dividend.\<close>

function divmod_align :: "'a::len word \<Rightarrow> 'a word \<Rightarrow> 'a word \<Rightarrow> 'a word \<times> 'a word" where
  "divmod_align num den cbit =
     (if den < num \<and> cbit \<noteq> 0 \<and> den AND push_bit (LENGTH('a) - 1) 1 = 0
      then divmod_align num (push_bit 1 den) (push_bit 1 cbit)
      else (den, cbit))"
  by pat_completeness auto

lemma push_bit_support_shrinks:
  fixes b :: "'a::len word"
  assumes "b \<noteq> 0"
  shows "card {n. push_bit n (push_bit 1 b) \<noteq> 0} < card {n. push_bit n b \<noteq> 0}"
proof (rule psubset_card_mono)
  let ?S = "\<lambda>c :: 'a word. {n. push_bit n c \<noteq> 0}"
  show fin: "finite (?S b)"
    by (rule finite_subset [of _ "{..<LENGTH('a)}"])
      (use push_bit_word_beyond not_le_imp_less in blast, simp)
  have shift: "n \<in> ?S (push_bit 1 b) \<longleftrightarrow> Suc n \<in> ?S b" for n
    by (simp add: push_bit_push_bit)
  have down: "n \<in> ?S b" if "Suc n \<in> ?S b" for n
    using that by (metis (mono_tags, lifting) mem_Collect_eq plus_1_eq_Suc push_bit_of_0 push_bit_push_bit)
  have sub: "?S (push_bit 1 b) \<subseteq> ?S b"
    using down shift by blast
  have "?S b \<noteq> {}" using assms by (auto intro: exI [of _ 0])
  with fin have "Max (?S b) \<in> ?S b" by (rule Max_in)
  moreover from fin have "Suc (Max (?S b)) \<notin> ?S b"
    using Max_ge Suc_n_not_le_n by blast
  ultimately have "Max (?S b) \<in> ?S b" "Max (?S b) \<notin> ?S (push_bit 1 b)"
    using shift by blast+
  with sub show "?S (push_bit 1 b) \<subset> ?S b" by blast
qed

termination divmod_align
  by (relation "measure (\<lambda>(num, den, b). card {n. push_bit n b \<noteq> 0})")
    (use push_bit_support_shrinks in auto)

declare divmod_align.simps [simp del]

text \<open>Second loop: subtract the shifted divisor wherever it fits.\<close>

partial_function (option) divmod_subtract ::
  "'a::len word \<Rightarrow> 'a word \<Rightarrow> 'a word \<Rightarrow> 'a word \<Rightarrow> ('a word \<times> 'a word) option" where
  "divmod_subtract num den res cbit =
     (if cbit \<noteq> 0
      then divmod_subtract (if den \<le> num then num - den else num) (drop_bit 1 den)
             (if den \<le> num then res OR cbit else res) (signed_drop_bit 1 cbit)
      else Some (num, res))"

declare divmod_subtract.simps [code]

definition divmod_loop :: "'a::len word \<Rightarrow> 'a word \<Rightarrow> 'a word \<Rightarrow> 'a word option" where
  "divmod_loop modwanted num den =
     (let (den', cbit) = divmod_align num den 1
      in do { (num', res) \<leftarrow> divmod_subtract num den' 0 cbit;
              Some (if modwanted \<noteq> 0 then num' else res) })"

definition divmodsi4 :: "bits32 \<Rightarrow> bits32 \<Rightarrow> bits32 \<Rightarrow> bits32 option" where
  "divmodsi4 modwanted num den = divmod_loop modwanted num den"

definition divmoddi4 :: "bits64 \<Rightarrow> bits64 \<Rightarrow> bits64 \<Rightarrow> bits64 option" where
  "divmoddi4 modwanted num den = divmod_loop modwanted num den"

text \<open>\<open>__udivdi3\<close> repeats the two loops instead of calling \<open>divmoddi4\<close>.\<close>

definition udivdi3 :: "bits64 \<Rightarrow> bits64 \<Rightarrow> bits64 option" where
  "udivdi3 num den =
     (let (den', cbit) = divmod_align num den 1
      in do { (num', res) \<leftarrow> divmod_subtract num den' 0 cbit; Some res })"

section \<open>Signed and unsigned division entry points\<close>

text \<open>The macros \<open>divnorm\<close> and \<open>exitdiv\<close>; the third component is \<open>sign\<close>.\<close>

definition divnorm :: "'a::len word \<Rightarrow> 'a word \<Rightarrow> 'a word \<times> 'a word \<times> 'a word" where
  "divnorm num den =
     (let (num, sign) = (if sint num < 0 then (- num, 1) else (num, 0));
          (den, sign) = (if sint den < 0 then (- den, 1 - sign) else (den, sign))
      in (num, den, sign))"

definition exitdiv :: "'a::len word \<Rightarrow> 'a word \<Rightarrow> 'a word" where
  "exitdiv sign res = (if sign \<noteq> 0 then - res else res)"

definition modsi3 :: "bits32 \<Rightarrow> bits32 \<Rightarrow> bits32 option" where
  "modsi3 numerator denominator =
     (let (numerator, sign) = (if sint numerator < 0 then (- numerator, 1) else (numerator, 0 :: bits32));
          denominator = (if sint denominator < 0 then - denominator else denominator)
      in do { modul \<leftarrow> divmodsi4 1 numerator denominator;
              Some (if sign \<noteq> 0 then - modul else modul) })"

definition divsi3 :: "bits32 \<Rightarrow> bits32 \<Rightarrow> bits32 option" where
  "divsi3 numerator denominator =
     (let (numerator, denominator, sign) = divnorm numerator denominator
      in do { dividend \<leftarrow> divmodsi4 0 numerator denominator; Some (exitdiv sign dividend) })"

definition umodsi3 :: "bits32 \<Rightarrow> bits32 \<Rightarrow> bits32 option" where
  "umodsi3 numerator denominator = divmodsi4 1 numerator denominator"

definition udivsi3 :: "bits32 \<Rightarrow> bits32 \<Rightarrow> bits32 option" where
  "udivsi3 numerator denominator = divmodsi4 0 numerator denominator"

definition moddi3 :: "bits64 \<Rightarrow> bits64 \<Rightarrow> bits64 option" where
  "moddi3 numerator denominator =
     (let (numerator, sign) = (if sint numerator < 0 then (- numerator, 1) else (numerator, 0 :: bits64));
          denominator = (if sint denominator < 0 then - denominator else denominator)
      in do { modul \<leftarrow> divmoddi4 1 numerator denominator;
              Some (if sign \<noteq> 0 then - modul else modul) })"

definition umoddi3 :: "bits64 \<Rightarrow> bits64 \<Rightarrow> bits64 option" where
  "umoddi3 numerator denominator = divmoddi4 1 numerator denominator"

definition divdi3 :: "bits64 \<Rightarrow> bits64 \<Rightarrow> bits64 option" where
  "divdi3 numerator denominator =
     (let (numerator, denominator, sign) = divnorm numerator denominator
      in do { dividend \<leftarrow> divmoddi4 0 numerator denominator; Some (exitdiv sign dividend) })"

section \<open>Multiplication and shifts\<close>

function mul_loop :: "'a::len word \<Rightarrow> 'a word \<Rightarrow> 'a word \<Rightarrow> 'a word" where
  "mul_loop a b res =
     (if a \<noteq> 0
      then mul_loop (drop_bit 1 a) (push_bit 1 b) (if a AND 1 \<noteq> 0 then res + b else res)
      else res)"
  by pat_completeness auto

lemma unat_drop_bit_1_less: "a \<noteq> 0 \<Longrightarrow> unat (drop_bit 1 a) < unat a" for a :: "'a::len word"
  using unat_drop_bit [of 1 a] unat_gt_0 [of a] by simp

termination mul_loop
  by (relation "measure (\<lambda>(a, b, res). unat a)") (use unat_drop_bit_1_less in auto)

definition mulsi3 :: "bits32 \<Rightarrow> bits32 \<Rightarrow> bits32" where
  "mulsi3 a b = mul_loop a b 0"

definition muldi3 :: "bits64 \<Rightarrow> bits64 \<Rightarrow> bits64" where
  "muldi3 a b = mul_loop a b 0"

text \<open>The three shift loops; \<open>step\<close> is the one-bit shift of the loop body.\<close>

function shift_loop :: "('a::len word \<Rightarrow> 'a word) \<Rightarrow> 'a word \<Rightarrow> 'a word \<Rightarrow> 'a word" where
  "shift_loop step val shifter =
     (if shifter \<noteq> 0 then shift_loop step (step val) (shifter - 1) else val)"
  by pat_completeness auto
termination shift_loop
  by (relation "measure (\<lambda>(step, val, shifter). unat shifter)") (auto simp: measure_unat)

declare mul_loop.simps [simp del] shift_loop.simps [simp del]

definition ashrsi3 :: "bits32 \<Rightarrow> bits32 \<Rightarrow> bits32" where
  "ashrsi3 val shifter =
     (if 31 < shifter then (if sint val < 0 then - 1 else 0)
      else shift_loop (signed_drop_bit 1) val shifter)"

definition lshrsi3 :: "bits32 \<Rightarrow> bits32 \<Rightarrow> bits32" where
  "lshrsi3 val shifter =
     (if 31 < shifter then 0 else shift_loop (drop_bit 1) val shifter)"

definition ashlsi3 :: "bits32 \<Rightarrow> bits32 \<Rightarrow> bits32" where
  "ashlsi3 val shifter =
     (if 31 < shifter then 0 else shift_loop (push_bit 1) val shifter)"

definition ashrdi3 :: "bits64 \<Rightarrow> bits64 \<Rightarrow> bits64" where
  "ashrdi3 val shifter =
     (if 63 < shifter then (if sint val < 0 then - 1 else 0)
      else shift_loop (signed_drop_bit 1) val shifter)"

definition lshrdi3 :: "bits64 \<Rightarrow> bits64 \<Rightarrow> bits64" where
  "lshrdi3 val shifter =
     (if 63 < shifter then 0 else shift_loop (drop_bit 1) val shifter)"

definition ashldi3 :: "bits64 \<Rightarrow> bits64 \<Rightarrow> bits64" where
  "ashldi3 val shifter =
     (if 63 < shifter then 0 else shift_loop (push_bit 1) val shifter)"

section \<open>The divider is correct where it returns, and where it returns\<close>

lemma divmod_step:
  fixes n d m :: nat
  assumes "0 < d" "n < 2 * (d * m)"
  defines "n' \<equiv> if d * m \<le> n then n - d * m else n"
  shows "n' < d * m" "n' mod d = n mod d" "n div d = n' div d + (if d * m \<le> n then m else 0)"
proof -
  show "n' < d * m" using assms by auto
  have "n = n' + d * (if d * m \<le> n then m else 0)" by (simp add: n'_def)
  then show "n' mod d = n mod d" "n div d = n' div d + (if d * m \<le> n then m else 0)"
    using \<open>0 < d\<close> by (metis mod_mult_self2, metis add.commute div_mult_self2 less_numeral_extra(3))
qed

lemma divmod_subtract_correct:
  fixes num den res :: "'a::len word"
  assumes "0 < d" "Suc k < LENGTH('a)" "unat den = d * 2 ^ k" "unat num < d * 2 ^ Suc k"
    "2 ^ Suc k dvd unat res"
  shows "divmod_subtract num den res (2 ^ k) =
    Some (of_nat (unat num mod d), res + of_nat (unat num div d))"
  using assms
proof (induction k arbitrary: num den res)
  case (0 num den res)
  define num' where "num' = (if den \<le> num then num - den else num)"
  define res' where "res' = (if den \<le> num then res OR 2 ^ 0 else res)"
  have step: "unat num' = (if d * 1 \<le> unat num then unat num - d * 1 else unat num)"
    using 0 by (auto simp: num'_def unat_sub unat_le_iff)
  have "unat num' < d" "unat num' mod d = unat num mod d"
    "unat num div d = unat num' div d + (if d * 1 \<le> unat num then 1 else 0)"
    using divmod_step [of d "unat num" 1, folded step] 0 by simp_all
  moreover have "res' = res + of_nat (if d * 1 \<le> unat num then 1 else 0)"
    using 0 or_exp_eq_add [of 0 res] by (auto simp: res'_def unat_le_iff)
  ultimately have n': "unat num' = unat num mod d" and "res' = res + of_nat (unat num div d)"
    by simp_all
  then have "num' = of_nat (unat num mod d)" "res' = res + of_nat (unat num div d)"
    by (simp_all flip: n')
  moreover have "divmod_subtract num den res (2 ^ 0) = Some (num', res')"
    using signed_drop_bit_exp [of 0, where 'a = 'a] 0(2)
    by (subst divmod_subtract.simps, subst divmod_subtract.simps) (simp add: num'_def res'_def)
  ultimately show ?case by simp
next
  case (Suc k num den res)
  let ?m = "2 ^ Suc k :: nat"
  define num' where "num' = (if den \<le> num then num - den else num)"
  define res' where "res' = (if den \<le> num then res OR 2 ^ Suc k else res)"
  have step: "unat num' = (if d * ?m \<le> unat num then unat num - d * ?m else unat num)"
    using Suc.prems by (auto simp: num'_def unat_sub unat_le_iff)
  have n': "unat num' < d * ?m" "unat num' mod d = unat num mod d"
    "unat num div d = unat num' div d + (if d * ?m \<le> unat num then ?m else 0)"
    using divmod_step [of d "unat num" ?m, folded step] Suc.prems by simp_all
  have r': "res' = res + of_nat (if d * ?m \<le> unat num then ?m else 0)"
    using Suc.prems or_exp_eq_add [of "Suc k" res] by (auto simp: res'_def unat_le_iff)
  have "divmod_subtract num den res (2 ^ Suc k) = divmod_subtract num' (drop_bit 1 den) res' (2 ^ k)"
    using signed_drop_bit_exp [of "Suc k", where 'a = 'a] exp_ne_0 [of "Suc k", where 'a = 'a]
      Suc.prems(2)
    by (subst divmod_subtract.simps) (simp add: num'_def res'_def)
  also have "\<dots> = Some (of_nat (unat num' mod d), res' + of_nat (unat num' div d))"
  proof (rule Suc.IH)
    show "unat (drop_bit 1 den) = d * 2 ^ k"
      using Suc.prems(3) by (simp add: unat_drop_bit)
    have "2 ^ Suc k dvd unat res"
      using Suc.prems(5) by (rule dvd_trans [OF le_imp_power_dvd, rotated]) simp
    then show "2 ^ Suc k dvd unat res'"
      using exp_dvd_unat_or_exp [of "Suc k" res] by (simp add: res'_def)
  qed (use Suc.prems n' in simp_all)
  also have "\<dots> = Some (of_nat (unat num mod d), res + of_nat (unat num div d))"
    by (simp add: n' r' algebra_simps)
  finally show ?case .
qed

lemma divmod_align_spec:
  fixes num den b :: "'a::len word"
  assumes "0 < d" "unat den = d * 2 ^ j" "b = 2 ^ j" "j < LENGTH('a)"
  shows "\<exists>k den'. divmod_align num den b = (den', 2 ^ k) \<and> j \<le> k \<and> k < LENGTH('a)
    \<and> unat den' = d * 2 ^ k \<and> (unat num \<le> unat den' \<or> 2 ^ (LENGTH('a) - 1) \<le> unat den')
    \<and> (j < k \<longrightarrow> d * 2 ^ (k - 1) < unat num)"
  using assms
proof (induction num den b arbitrary: j rule: divmod_align.induct)
  case (1 num den b)
  show ?case
  proof (cases "den < num \<and> unat den < 2 ^ (LENGTH('a) - 1)")
    case True
    with "1.prems" have b: "b \<noteq> 0" and small: "d * 2 ^ Suc j < 2 ^ LENGTH('a)"
      using unat_exp [of j, where 'a = 'a] power_length_Suc [where 'a = 'a] by auto
    then have "(2::nat) ^ Suc j < 2 ^ LENGTH('a)"
      using "1.prems"(1) by (metis le_less_trans mult_le_mono1 nat_mult_1 Suc_leI One_nat_def)
    then have j: "Suc j < LENGTH('a)" by (rule power_less_imp_less_exp [rotated]) simp
    have unf: "divmod_align num den b = divmod_align num (push_bit 1 den) (push_bit 1 b)"
      using True b by (subst divmod_align.simps) (simp add: top_bit_clear_iff)
    have "unat (push_bit 1 den) = d * 2 ^ Suc j"
      by (metis "1.prems"(2) mod_less mult.assoc mult.commute power_Suc power_one_right small
          unat_push_bit)
    moreover have "push_bit 1 b = 2 ^ Suc j" using "1.prems"(3) by (simp add: mult.commute)
    ultimately obtain k den' where k: "divmod_align num (push_bit 1 den) (push_bit 1 b) = (den', 2 ^ k)"
      "Suc j \<le> k" "k < LENGTH('a)" "unat den' = d * 2 ^ k"
      "unat num \<le> unat den' \<or> 2 ^ (LENGTH('a) - 1) \<le> unat den'"
      "Suc j < k \<longrightarrow> d * 2 ^ (k - 1) < unat num"
      using "1.IH" [of "Suc j"] True b j "1.prems"(1) by (auto simp: top_bit_clear_iff)
    have "d * 2 ^ (k - 1) < unat num"
      using k(2,6) True "1.prems"(2) by (cases "k = Suc j") (auto simp: word_less_nat_alt)
    with k unf show ?thesis by (intro exI [of _ k] exI [of _ den']) auto
  next
    case False
    then have "divmod_align num den b = (den, b)"
      by (subst divmod_align.simps) (auto simp: top_bit_clear_iff)
    with False "1.prems" show ?thesis
      by (intro exI [of _ j] exI [of _ den]) (auto simp: not_less unat_le_iff)
  qed
qed

lemma divmod_subtract_negative:
  assumes "sint cbit < 0"
  shows "divmod_subtract num den res cbit = None"
proof (rule ccontr)
  assume "divmod_subtract num den res cbit \<noteq> None"
  then obtain r where ret: "divmod_subtract num den res cbit = Some r" by blast
  have "\<not> sint cbit < 0"
  proof (rule divmod_subtract.raw_induct [where P = "\<lambda>num den res cbit r. \<not> sint cbit < 0", OF _ ret])
    fix f :: "'a word \<Rightarrow> 'a word \<Rightarrow> 'a word \<Rightarrow> 'a word \<Rightarrow> ('a word \<times> 'a word) option"
    fix num den res b :: "'a word" and r
    assume IH: "\<And>num den res b r. f num den res b = Some r \<Longrightarrow> \<not> sint b < 0"
      and eq: "(if b \<noteq> 0 then f (if den \<le> num then num - den else num) (drop_bit 1 den)
            (if den \<le> num then res OR b else res) (signed_drop_bit 1 b)
          else Some (num, res)) = Some r"
    show "\<not> sint b < 0"
    proof
      assume neg: "sint b < 0"
      with eq have "\<not> sint (signed_drop_bit 1 b) < 0" by (auto split: if_splits dest: IH)
      with neg show False by (simp add: sint_signed_drop_bit_eq)
    qed
  qed
  with assms show False by simp
qed

lemma divmod_align_den1:
  fixes num b :: "'a::len word"
  assumes "2 ^ (LENGTH('a) - 2) < unat num" "b = 2 ^ j" "j < LENGTH('a)" "2 \<le> LENGTH('a)"
  shows "divmod_align num b b = (2 ^ (LENGTH('a) - 1), 2 ^ (LENGTH('a) - 1))"
proof -
  obtain k den' where k: "divmod_align num b b = (den', 2 ^ k)" "j \<le> k" "k < LENGTH('a)"
      "unat den' = 2 ^ k" "unat num \<le> unat den' \<or> 2 ^ (LENGTH('a) - 1) \<le> unat den'"
    using divmod_align_spec [of 1 b j b num] assms by (auto simp: unat_exp)
  have "2 ^ (LENGTH('a) - 2) < (2::nat) ^ (LENGTH('a) - 1)" using assms(4) by simp
  with k(5) assms(1) have "2 ^ (LENGTH('a) - 2) < unat den'" by linarith
  then have "2 ^ (LENGTH('a) - 2) < (2::nat) ^ k" using k(4) by simp
  then have "LENGTH('a) - 2 < k" by (rule power_less_imp_less_exp [rotated]) simp
  with k(3) assms(4) have "k = LENGTH('a) - 1" by linarith
  moreover from this k(4) have "den' = 2 ^ (LENGTH('a) - 1)"
    by (metis k(3) unat_exp word_unat_eq_iff)
  ultimately show ?thesis using k(1) by simp
qed

lemma divmod_loop_correct:
  fixes num den :: "'a::len word"
  assumes "den \<noteq> 0" "den = 1 \<longrightarrow> unat num \<le> 2 ^ (LENGTH('a) - 2)" "2 \<le> LENGTH('a)"
  shows "divmod_loop mw num den = Some (if mw \<noteq> 0 then num mod den else num div den)"
proof -
  let ?d = "unat den"
  have d: "0 < ?d" using assms(1) by (simp add: unat_gt_0)
  obtain k den' where k: "divmod_align num den 1 = (den', 2 ^ k)" "k < LENGTH('a)"
      "unat den' = ?d * 2 ^ k" "unat num \<le> unat den' \<or> 2 ^ (LENGTH('a) - 1) \<le> unat den'"
      "0 < k \<longrightarrow> ?d * 2 ^ (k - 1) < unat num"
    using divmod_align_spec [of ?d den 0 1 num, OF d _ _ len_gt_0]
    by (metis mult_1_right power_0)
  have sk: "Suc k < LENGTH('a)"
  proof (cases "?d = 1")
    case True
    then have "den = 1" by (metis unat_1 word_unat_eq_iff)
    with assms(2) have "unat num \<le> 2 ^ (LENGTH('a) - 2)" by simp
    with k(5) True have "0 < k \<longrightarrow> (2::nat) ^ (k - 1) < 2 ^ (LENGTH('a) - 2)"
      by (metis less_le_trans mult_1)
    then have "0 < k \<longrightarrow> k - 1 < LENGTH('a) - 2"
      using power_less_imp_less_exp [of "2::nat" "k - 1"] by simp
    with assms(3) show ?thesis by linarith
  next
    case False
    with d have "2 * 2 ^ k \<le> ?d * 2 ^ k" by (intro mult_le_mono1) simp
    also have "\<dots> < 2 ^ LENGTH('a)" using k(3) unat_lt2p [of den'] by simp
    finally show ?thesis by (metis power_Suc power_less_imp_less_exp one_less_numeral_iff semiring_norm(76))
  qed
  have "0 < unat den'" using k(3) d by simp
  with k(4) have "unat num < 2 * unat den'"
    using unat_lt2p [of num] power_length_Suc [where 'a = 'a] by linarith
  then have "unat num < ?d * 2 ^ Suc k" using k(3) by simp
  with d sk k(3) have "divmod_subtract num den' 0 (2 ^ k) =
      Some (of_nat (unat num mod ?d), 0 + of_nat (unat num div ?d))"
    by (intro divmod_subtract_correct) auto
  then show ?thesis
    by (simp add: divmod_loop_def k(1) word_arith_nat_div word_arith_nat_mod)
qed

lemma divmod_loop_diverges:
  fixes num :: "'a::len word"
  assumes "2 ^ (LENGTH('a) - 2) < unat num" "2 \<le> LENGTH('a)"
  shows "divmod_loop mw num 1 = None"
proof -
  let ?top = "2 ^ (LENGTH('a) - 1) :: 'a word"
  have "divmod_align num 1 1 = (?top, ?top)"
    using divmod_align_den1 [of num 1 0] assms by simp
  moreover have "sint ?top < 0"
    by (simp add: bit_simps flip: bit_last_iff)
  ultimately show ?thesis
    by (simp add: divmod_loop_def divmod_subtract_negative)
qed

lemma divmod_align_zero:
  fixes num :: "'a::len word"
  shows "0 < num \<Longrightarrow> divmod_align num 0 cbit = (0, 0)"
proof (induction num "0 :: 'a word" cbit rule: divmod_align.induct)
  case (1 num cbit)
  then show ?case
    by (cases "cbit = 0") (subst divmod_align.simps, simp)+
qed

lemma divmod_loop_by_zero:
  fixes num :: "'a::len word"
  assumes "2 \<le> LENGTH('a)"
  shows "divmod_loop mw num 0 =
    Some (if mw \<noteq> 0 then num else if num = 0 then 1 else 0)"
proof (cases "num = 0")
  case True
  have "signed_drop_bit 1 1 = (0 :: 'a word)"
    using signed_drop_bit_exp [of 0, where 'a = 'a] assms by simp
  with True show ?thesis
    by (simp add: divmod_loop_def divmod_align.simps [of 0 0] divmod_subtract.simps)
next
  case False
  then show ?thesis
    by (simp add: divmod_loop_def divmod_align_zero word_gt_0 divmod_subtract.simps)
qed

section \<open>Signed division on top of an unsigned divider\<close>

text \<open>
  \<open>__divsi3\<close>, \<open>__modsi3\<close> and their 64-bit twins rely on the unsigned divider only through its
  contract on the operands it handles; the signed results follow once for both widths.
\<close>

locale unsigned_divider =
  fixes divmod :: "'a::len word \<Rightarrow> 'a word \<Rightarrow> 'a word \<Rightarrow> 'a word option"
    and returns :: "'a word \<Rightarrow> 'a word \<Rightarrow> bool"
  assumes quotient: "returns num den \<Longrightarrow> divmod 0 num den = Some (num div den)"
    and remainder: "returns num den \<Longrightarrow> divmod 1 num den = Some (num mod den)"
begin

lemma signed_quotient:
  assumes "returns (abs_word n) (abs_word d)"
  shows "(let (num, den, sign) = divnorm n d
      in do { q \<leftarrow> divmod 0 num den; Some (exitdiv sign q) }) = Some (word_of_int (sint n sdiv sint d))"
proof -
  have norm: "divnorm n d = (abs_word n, abs_word d, bit_of ((sint n < 0) \<noteq> (sint d < 0)))"
    by (simp add: divnorm_def abs_word_def)
  have q: "abs_word n div abs_word d = word_of_int (\<bar>sint n\<bar> div \<bar>sint d\<bar>)"
    by (simp add: word_div_def uint_abs_word)
  show ?thesis
    by (simp add: norm quotient [OF assms] q exitdiv_def bit_of_def signed_divide_int_def sgn_if
        flip: of_int_minus)
qed

lemma signed_remainder:
  assumes "returns (abs_word n) (abs_word d)"
  shows "do { m \<leftarrow> divmod 1 (abs_word n) (abs_word d); Some (if sint n < 0 then - m else m) } =
    Some (word_of_int (sint n smod sint d))"
proof -
  have m: "abs_word n mod abs_word d = word_of_int (\<bar>sint n\<bar> mod \<bar>sint d\<bar>)"
    by (simp add: word_mod_def uint_abs_word)
  show ?thesis
    by (simp add: remainder [OF assms] m signed_modulo_int_def sgn_if flip: of_int_minus)
qed

end

text \<open>
  The operands on which the shift-and-subtract loops return the quotient: every nonzero divisor,
  except that a division by one needs a dividend of at most \<open>2 ^ (w - 2)\<close>.
\<close>

definition divisible :: "'a::len word \<Rightarrow> 'a word \<Rightarrow> bool" where
  "divisible num den \<longleftrightarrow> den \<noteq> 0 \<and> (den = 1 \<longrightarrow> unat num \<le> 2 ^ (LENGTH('a) - 2))"

interpretation si: unsigned_divider divmodsi4 divisible
  by unfold_locales (simp_all add: divmodsi4_def divisible_def divmod_loop_correct)

interpretation di: unsigned_divider divmoddi4 divisible
  by unfold_locales (simp_all add: divmoddi4_def divisible_def divmod_loop_correct)

section \<open>Multiplication and shift loops\<close>

lemma word_split_lsb: "a = push_bit 1 (drop_bit 1 a) + (if a AND 1 \<noteq> 0 then 1 else 0)"
  for a :: "'a::len word"
proof -
  have "a = push_bit 1 (drop_bit 1 a) + take_bit 1 a"
    by (rule bits_ident [symmetric])
  also have "take_bit 1 a = (if a AND 1 \<noteq> 0 then 1 else 0)"
    by (simp add: and_one_eq take_bit_Suc)
  finally show ?thesis .
qed

lemma mul_loop_eq: "mul_loop a b res = res + a * b"
proof (induction a b res rule: mul_loop.induct)
  case (1 a b res)
  show ?case
  proof (cases "a = 0")
    case True
    then show ?thesis by (subst mul_loop.simps) simp
  next
    case False
    let ?r = "if a AND 1 \<noteq> 0 then res + b else res"
    have "mul_loop a b res = ?r + drop_bit 1 a * push_bit 1 b"
      using False "1.IH" by (subst mul_loop.simps) simp
    also have "\<dots> = res + (push_bit 1 (drop_bit 1 a) + (if a AND 1 \<noteq> 0 then 1 else 0)) * b"
      by (simp add: algebra_simps)
    also have "\<dots> = res + a * b" by (simp only: word_split_lsb [symmetric])
    finally show ?thesis .
  qed
qed

lemma shift_loop_eq: "shift_loop step val shifter = (step ^^ unat shifter) val"
proof (induction step val shifter rule: shift_loop.induct)
  case (1 step val shifter)
  show ?case
  proof (cases "shifter = 0")
    case True
    then show ?thesis by (subst shift_loop.simps) simp
  next
    case False
    then have "unat shifter = Suc (unat (shifter - 1))"
      by (simp add: unat_minus_one unat_gt_0)
    with False "1.IH" show ?thesis
      by (subst shift_loop.simps) (simp add: funpow_swap1)
  qed
qed

lemma drop_bit_funpow: "(drop_bit (Suc 0) ^^ n) a = drop_bit n a" for a :: "'a::len word"
  by (induction n) (simp_all add: drop_bit_drop_bit)

lemma push_bit_funpow: "(push_bit (Suc 0) ^^ n) a = push_bit n a" for a :: "'a::len word"
  by (induction n) (simp_all add: push_bit_double)

lemma signed_drop_bit_funpow: "(signed_drop_bit (Suc 0) ^^ n) a = signed_drop_bit n a"
  for a :: "'a::len word"
  by (induction n) (simp_all add: signed_drop_bit_signed_drop_bit)

lemmas shift_loop_simps = shift_loop_eq drop_bit_funpow push_bit_funpow signed_drop_bit_funpow

lemma shift_emulation_gen:
  fixes val :: "'a::len word"
  shows "sint (signed_drop_bit n val) = sint val div 2 ^ n"
    and "uint (drop_bit n val) = uint val div 2 ^ n"
    and "uint (push_bit n val) = uint val * 2 ^ n mod 2 ^ LENGTH('a)"
  by (simp add: sint_signed_drop_bit_eq drop_bit_eq_div, rule uint_drop_bit, rule uint_push_bit)

lemma sint_div_beyond:
  fixes val :: "'a::len word"
  assumes "LENGTH('a) \<le> n"
  shows "sint val div 2 ^ n = (if sint val < 0 then - 1 else 0)"
proof -
  have "(2::int) ^ (LENGTH('a) - 1) \<le> 2 ^ n" using assms by simp
  then have "- (2 ^ n) \<le> sint val" "sint val < 2 ^ n"
    using sint_ge [of val] sint_lt [of val] by linarith+
  then show ?thesis
    using int_div_pos_eq [of "sint val" "2 ^ n" "- 1" "sint val + 2 ^ n"] by simp
qed

lemma uint_shift_beyond:
  fixes val :: "'a::len word"
  assumes "LENGTH('a) \<le> n"
  shows "uint val div 2 ^ n = 0" "uint val * 2 ^ n mod 2 ^ LENGTH('a) = 0"
proof -
  have "(2::int) ^ LENGTH('a) \<le> 2 ^ n" using assms by simp
  with uint_lt2p [of val] have "uint val < 2 ^ n" by (rule less_le_trans)
  then show "uint val div 2 ^ n = 0" by simp
  have "(2::int) ^ LENGTH('a) dvd 2 ^ n" using assms by (rule le_imp_power_dvd)
  then show "uint val * 2 ^ n mod 2 ^ LENGTH('a) = 0" by simp
qed

section \<open>Properties\<close>

text \<open>
  C19. \<open>divmodsi4\<close> returns, with the exact quotient (or the remainder when \<open>modwanted\<close> is set),
  for every nonzero divisor, a division by one being limited to dividends up to \<open>2 ^ 30\<close>.
\<close>

theorem divmodsi4_correct:
  assumes "den \<noteq> 0" and "den = 1 \<longrightarrow> num \<le> 0x40000000"
  shows "divmodsi4 modwanted num den = Some (if modwanted \<noteq> 0 then num mod den else num div den)"
  using assms by (simp add: divmodsi4_def divmod_loop_correct unat_le_iff)

theorem divmodsi4_correct_witness:
  "divmodsi4 0 1000003 17 = Some 58823 \<and> divmodsi4 1 1000003 17 = Some 12"
  using divmodsi4_correct [of 17 1000003 0] divmodsi4_correct [of 17 1000003 1] by simp

text \<open>
  C21. A division by one of a dividend above \<open>2 ^ 30\<close> never returns: the signed counter reaches the
  sign bit, and shifting it right arithmetically never clears it.
\<close>

theorem udivsi3_by_one_diverges:
  assumes "0x40000000 < num"
  shows "udivsi3 num 1 = None \<and> umodsi3 num 1 = None"
  using assms
  by (simp add: udivsi3_def umodsi3_def divmodsi4_def divmod_loop_diverges word_less_nat_alt)

theorem udivsi3_by_one_diverges_witness:
  "udivsi3 0x80000000 1 = None \<and> umodsi3 0x80000000 1 = None"
  using udivsi3_by_one_diverges [of "0x80000000"] by simp

text \<open>
  C20. The signed routines of both widths, \<open>__divsi3\<close>, \<open>__modsi3\<close>, \<open>__divdi3\<close> and \<open>__moddi3\<close>, compute C's
  truncating quotient and remainder of the signed operands for every nonzero divisor, when the divisor is
  1 or -1 only for dividends of magnitude at most \<open>2 ^ 30\<close> (\<open>2 ^ 62\<close> in 64 bits): these are the magnitudes on
  which the unsigned divider returns (\<open>divisible\<close>); beyond, it does not return.  There \<open>__udivdi3\<close> computes the
  unsigned quotient.
\<close>

theorem signed_division_correct:
  fixes n d :: bits32 and N D :: bits64
  assumes "divisible (abs_word n) (abs_word d)" "divisible (abs_word N) (abs_word D)"
  shows "divsi3 n d = Some (word_of_int (sint n sdiv sint d)) \<and> modsi3 n d = Some (word_of_int (sint n smod sint d)) \<and>
    divdi3 N D = Some (word_of_int (sint N sdiv sint D)) \<and> moddi3 N D = Some (word_of_int (sint N smod sint D)) \<and>
    udivdi3 (abs_word N) (abs_word D) = Some (abs_word N div abs_word D)"
proof (intro conjI)
  show "divsi3 n d = Some (word_of_int (sint n sdiv sint d))"
    using si.signed_quotient [OF assms(1)] by (simp add: divsi3_def)
  show "modsi3 n d = Some (word_of_int (sint n smod sint d))"
    using si.signed_remainder [OF assms(1)]
    by (cases "sint n < 0") (simp_all add: modsi3_def abs_word_def)
  show "divdi3 N D = Some (word_of_int (sint N sdiv sint D))"
    using di.signed_quotient [OF assms(2)] by (simp add: divdi3_def)
  show "moddi3 N D = Some (word_of_int (sint N smod sint D))"
    using di.signed_remainder [OF assms(2)]
    by (cases "sint N < 0") (simp_all add: moddi3_def abs_word_def)
  show "udivdi3 (abs_word N) (abs_word D) = Some (abs_word N div abs_word D)"
    using di.quotient [OF assms(2)] by (simp add: udivdi3_def divmoddi4_def divmod_loop_def)
qed

theorem signed_division_correct_witness:
  "divsi3 (- 7) 2 = Some (- 3) \<and> modsi3 (- 7) 2 = Some (- 1) \<and> divdi3 100 (- 7) = Some (- 14) \<and>
   moddi3 100 (- 7) = Some 2 \<and> udivdi3 100 7 = Some 14"
proof -
  have "divisible (abs_word (- 7)) (abs_word (2 :: bits32))" "divisible (abs_word 100) (abs_word (- 7 :: bits64))"
    by (simp_all add: divisible_def abs_word_def)
  from signed_division_correct [OF this] show ?thesis
    by (simp add: signed_divide_int_def signed_modulo_int_def abs_word_def)
qed

text \<open>
  Dividing by zero returns: the remainder is the dividend, the quotient is 0, except that 0
  divided by 0 gives 1.
\<close>

theorem divmodsi4_by_zero:
  "divmodsi4 modwanted num 0 =
    Some (if modwanted \<noteq> 0 then num else if num = 0 then 1 else 0)"
  by (simp add: divmodsi4_def divmod_loop_by_zero)

text \<open>
  C29. \<open>__mulsi3\<close> and \<open>__muldi3\<close> multiply modulo \<open>2 ^ 32\<close> and \<open>2 ^ 64\<close>, and the shift routines compute the
  arithmetic right shift, the logical right shift and the left shift by any unsigned amount, amounts
  of the word size and above included.
\<close>

theorem mul_shift_emulation:
  "mulsi3 a b = a * b \<and> muldi3 c d = c * d
    \<and> sint (ashrsi3 v s) = sint v div 2 ^ unat s \<and> uint (lshrsi3 v s) = uint v div 2 ^ unat s
    \<and> uint (ashlsi3 v s) = uint v * 2 ^ unat s mod 2 ^ 32
    \<and> sint (ashrdi3 x t) = sint x div 2 ^ unat t \<and> uint (lshrdi3 x t) = uint x div 2 ^ unat t
    \<and> uint (ashldi3 x t) = uint x * 2 ^ unat t mod 2 ^ 64"
proof -
  have "31 < s \<longleftrightarrow> LENGTH(32) \<le> unat s" "63 < t \<longleftrightarrow> LENGTH(64) \<le> unat t"
    by (simp_all add: word_less_nat_alt, arith+)
  then show ?thesis
    using sint_div_beyond [of "unat s" v] sint_div_beyond [of "unat t" x]
      uint_shift_beyond [of "unat s" v] uint_shift_beyond [of "unat t" x]
      shift_emulation_gen [of "unat s" v] shift_emulation_gen [of "unat t" x]
    by (simp add: mulsi3_def muldi3_def mul_loop_eq ashrsi3_def lshrsi3_def ashlsi3_def ashrdi3_def lshrdi3_def ashldi3_def
        shift_loop_simps)
qed

end
