(* ===== verification/Multi_Word.thy ===== *)
theory Multi_Word
  imports C_Prelude
begin

text \<open>
  The multi-word primitives at the top of \<open>newlib/libc/sys/tce/float_emulation.c\<close>: 64-, 96- and
  128-bit shifts, additions, subtractions and products on 32-bit pieces, the quotient and square
  root estimates, the leading-zero count and the 64-bit comparisons.  A routine that stores its
  results through \<open>z0Ptr\<close>, \<open>z1Ptr\<close>, ... returns them as a tuple, most significant piece first.
  Shift counts are C \<open>int16\<close> values, modelled as \<open>int\<close>.

  \<open>val64\<close>, \<open>val96\<close>, \<open>val128\<close> read a tuple of pieces as one integer; every routine is shown to
  compute the integer operation its comment promises.
\<close>

section \<open>Shifts\<close>

definition shift32RightJamming :: "bits32 \<Rightarrow> int \<Rightarrow> bits32" where
  "shift32RightJamming a count =
     (if count = 0 then a
      else if count < 32 then c_shr a count OR bit_of (c_shl a ((- count) AND 31) \<noteq> 0)
      else bit_of (a \<noteq> 0))"

definition shift64Right :: "bits32 \<Rightarrow> bits32 \<Rightarrow> int \<Rightarrow> bits32 \<times> bits32" where
  "shift64Right a0 a1 count =
     (let negCount = (- count) AND 31
      in if count = 0 then (a0, a1)
         else if count < 32 then (c_shr a0 count, c_shl a0 negCount OR c_shr a1 count)
         else (0, if count < 64 then c_shr a0 (count AND 31) else 0))"

definition shift64RightJamming :: "bits32 \<Rightarrow> bits32 \<Rightarrow> int \<Rightarrow> bits32 \<times> bits32" where
  "shift64RightJamming a0 a1 count =
     (let negCount = (- count) AND 31
      in if count = 0 then (a0, a1)
         else if count < 32 then
           (c_shr a0 count,
            c_shl a0 negCount OR c_shr a1 count OR bit_of (c_shl a1 negCount \<noteq> 0))
         else if count = 32 then (0, a0 OR bit_of (a1 \<noteq> 0))
         else if count < 64 then
           (0, c_shr a0 (count AND 31) OR bit_of (c_shl a0 negCount OR a1 \<noteq> 0))
         else (0, bit_of (a0 OR a1 \<noteq> 0)))"

definition shift64ExtraRightJamming ::
  "bits32 \<Rightarrow> bits32 \<Rightarrow> bits32 \<Rightarrow> int \<Rightarrow> bits32 \<times> bits32 \<times> bits32" where
  "shift64ExtraRightJamming a0 a1 a2 count =
     (let negCount = (- count) AND 31
      in if count = 0 then (a0, a1, a2)
         else if count < 32 then
           (c_shr a0 count, c_shl a0 negCount OR c_shr a1 count,
            c_shl a1 negCount OR bit_of (a2 \<noteq> 0))
         else if count = 32 then (0, a0, a1 OR bit_of (a2 \<noteq> 0))
         else
           (let a2 = a2 OR a1
            in if count < 64 then
                 (0, c_shr a0 (count AND 31), c_shl a0 negCount OR bit_of (a2 \<noteq> 0))
               else
                 (0, 0, (if count = 64 then a0 else bit_of (a0 \<noteq> 0)) OR bit_of (a2 \<noteq> 0))))"

definition shortShift64Left :: "bits32 \<Rightarrow> bits32 \<Rightarrow> int \<Rightarrow> bits32 \<times> bits32" where
  "shortShift64Left a0 a1 count =
     (if count = 0 then a0 else c_shl a0 count OR c_shr a1 ((- count) AND 31),
      c_shl a1 count)"

definition shortShift96Left ::
  "bits32 \<Rightarrow> bits32 \<Rightarrow> bits32 \<Rightarrow> int \<Rightarrow> bits32 \<times> bits32 \<times> bits32" where
  "shortShift96Left a0 a1 a2 count =
     (let z2 = c_shl a2 count; z1 = c_shl a1 count; z0 = c_shl a0 count
      in if 0 < count
         then let negCount = (- count) AND 31
              in (z0 OR c_shr a1 negCount, z1 OR c_shr a2 negCount, z2)
         else (z0, z1, z2))"

section \<open>Addition, subtraction, multiplication\<close>

definition add64 :: "bits32 \<Rightarrow> bits32 \<Rightarrow> bits32 \<Rightarrow> bits32 \<Rightarrow> bits32 \<times> bits32" where
  "add64 a0 a1 b0 b1 = (let z1 = a1 + b1 in (a0 + b0 + bit_of (z1 < a1), z1))"

definition add96 ::
  "bits32 \<Rightarrow> bits32 \<Rightarrow> bits32 \<Rightarrow> bits32 \<Rightarrow> bits32 \<Rightarrow> bits32 \<Rightarrow> bits32 \<times> bits32 \<times> bits32" where
  "add96 a0 a1 a2 b0 b1 b2 =
     (let z2 = a2 + b2; carry1 = bit_of (z2 < a2);
          z1 = a1 + b1; carry0 = bit_of (z1 < a1);
          z0 = a0 + b0;
          z1 = z1 + carry1;
          z0 = z0 + bit_of (z1 < carry1);
          z0 = z0 + carry0
      in (z0, z1, z2))"

definition sub64 :: "bits32 \<Rightarrow> bits32 \<Rightarrow> bits32 \<Rightarrow> bits32 \<Rightarrow> bits32 \<times> bits32" where
  "sub64 a0 a1 b0 b1 = (a0 - b0 - bit_of (a1 < b1), a1 - b1)"

definition sub96 ::
  "bits32 \<Rightarrow> bits32 \<Rightarrow> bits32 \<Rightarrow> bits32 \<Rightarrow> bits32 \<Rightarrow> bits32 \<Rightarrow> bits32 \<times> bits32 \<times> bits32" where
  "sub96 a0 a1 a2 b0 b1 b2 =
     (let z2 = a2 - b2; borrow1 = bit_of (a2 < b2);
          z1 = a1 - b1; borrow0 = bit_of (a1 < b1);
          z0 = a0 - b0;
          z0 = z0 - bit_of (z1 < borrow1);
          z1 = z1 - borrow1;
          z0 = z0 - borrow0
      in (z0, z1, z2))"

definition mul32To64 :: "bits32 \<Rightarrow> bits32 \<Rightarrow> bits32 \<times> bits32" where
  "mul32To64 a b =
     (let aLow = ucast a :: bits16; aHigh = ucast (c_shr a 16) :: bits16;
          bLow = ucast b :: bits16; bHigh = ucast (c_shr b 16) :: bits16;
          z1 = ucast aLow * ucast bLow :: bits32;
          zMiddleA = ucast aLow * ucast bHigh :: bits32;
          zMiddleB = ucast aHigh * ucast bLow :: bits32;
          z0 = ucast aHigh * ucast bHigh :: bits32;
          zMiddleA = zMiddleA + zMiddleB;
          z0 = z0 + (c_shl (bit_of (zMiddleA < zMiddleB)) 16 + c_shr zMiddleA 16);
          zMiddleA = c_shl zMiddleA 16;
          z1 = z1 + zMiddleA;
          z0 = z0 + bit_of (z1 < zMiddleA)
      in (z0, z1))"

definition mul64By32To96 :: "bits32 \<Rightarrow> bits32 \<Rightarrow> bits32 \<Rightarrow> bits32 \<times> bits32 \<times> bits32" where
  "mul64By32To96 a0 a1 b =
     (let (z1, z2) = mul32To64 a1 b;
          (z0, more1) = mul32To64 a0 b;
          (z0, z1) = add64 z0 more1 0 z1
      in (z0, z1, z2))"

definition mul64To128 ::
  "bits32 \<Rightarrow> bits32 \<Rightarrow> bits32 \<Rightarrow> bits32 \<Rightarrow> bits32 \<times> bits32 \<times> bits32 \<times> bits32" where
  "mul64To128 a0 a1 b0 b1 =
     (let (z2, z3) = mul32To64 a1 b1;
          (z1, more2) = mul32To64 a1 b0;
          (z1, z2) = add64 z1 more2 0 z2;
          (z0, more1) = mul32To64 a0 b0;
          (z0, z1) = add64 z0 more1 0 z1;
          (more1, more2) = mul32To64 a0 b1;
          (more1, z2) = add64 more1 more2 0 z2;
          (z0, z1) = add64 z0 z1 0 more1
      in (z0, z1, z2, z3))"

section \<open>Estimates\<close>

text \<open>
  The correction loop of \<open>estimateDiv64To32\<close>; \<open>b1 = b << 16\<close> is assigned in its body.
  \<open>None\<close> would be a loop that does not return.
\<close>

partial_function (option) estimateDiv64To32_loop ::
  "bits32 \<Rightarrow> bits32 \<Rightarrow> bits32 \<Rightarrow> bits32 \<Rightarrow> bits32 \<Rightarrow> (bits32 \<times> bits32 \<times> bits32) option" where
  "estimateDiv64To32_loop b b0 z rem0 rem1 =
     (if sint rem0 < 0
      then estimateDiv64To32_loop b b0 (z - 0x10000)
             (fst (add64 rem0 rem1 b0 (c_shl b 16))) (snd (add64 rem0 rem1 b0 (c_shl b 16)))
      else Some (z, rem0, rem1))"

declare estimateDiv64To32_loop.simps [code]

definition estimateDiv64To32 :: "bits32 \<Rightarrow> bits32 \<Rightarrow> bits32 \<Rightarrow> bits32 option" where
  "estimateDiv64To32 a0 a1 b =
     (if b \<le> a0 then Some 0xFFFFFFFF
      else
        (let b0 = c_shr b 16;
             z = (if c_shl b0 16 \<le> a0 then 0xFFFF0000 else c_shl (a0 div b0) 16);
             (term0, term1) = mul32To64 b z;
             (rem0, rem1) = sub64 a0 a1 term0 term1
         in do {
           (z, rem0, rem1) \<leftarrow> estimateDiv64To32_loop b b0 z rem0 rem1;
           let rem0 = c_shl rem0 16 OR c_shr rem1 16;
           Some (z OR (if c_shl b0 16 \<le> rem0 then 0xFFFF else rem0 div b0)) }))"

definition sqrtOddAdjustments :: "bits16 list" where
  "sqrtOddAdjustments = [
     0x0004, 0x0022, 0x005D, 0x00B1, 0x011D, 0x019F, 0x0236, 0x02E0,
     0x039C, 0x0468, 0x0545, 0x0631, 0x072B, 0x0832, 0x0946, 0x0A67]"

definition sqrtEvenAdjustments :: "bits16 list" where
  "sqrtEvenAdjustments = [
     0x0A2D, 0x08AF, 0x075A, 0x0629, 0x051A, 0x0429, 0x0356, 0x029E,
     0x0200, 0x0179, 0x0109, 0x00AF, 0x0068, 0x0034, 0x0012, 0x0002]"

definition estimateSqrt32 :: "int \<Rightarrow> bits32 \<Rightarrow> bits32 option" where
  "estimateSqrt32 aExp a =
     (let index = unat (c_shr a 27 AND 15)
      in if aExp AND 1 \<noteq> 0
         then
           let z = 0x4000 + c_shr a 17 - ucast (sqrtOddAdjustments ! index);
               z = c_shl (a div z) 14 + c_shl z 15;
               a = c_shr a 1
           in do { q \<leftarrow> estimateDiv64To32 a 0 z; Some (c_shr q 1 + c_shr z 1) }
         else
           let z = 0x8000 + c_shr a 17 - ucast (sqrtEvenAdjustments ! index);
               z = a div z + z;
               z = (if 0x20000 \<le> z then 0xFFFF8000 else c_shl z 15)
           in if z \<le> a then Some (signed_drop_bit 1 a)
              else do { q \<leftarrow> estimateDiv64To32 a 0 z; Some (c_shr q 1 + c_shr z 1) })"

text \<open>The table of leading zeros of a byte, which the source writes out in full.\<close>

definition countLeadingZerosHigh :: "int list" where
  "countLeadingZerosHigh = [
     8, 7, 6, 6, 5, 5, 5, 5, 4, 4, 4, 4, 4, 4, 4, 4,
     3, 3, 3, 3, 3, 3, 3, 3, 3, 3, 3, 3, 3, 3, 3, 3,
     2, 2, 2, 2, 2, 2, 2, 2, 2, 2, 2, 2, 2, 2, 2, 2,
     2, 2, 2, 2, 2, 2, 2, 2, 2, 2, 2, 2, 2, 2, 2, 2,
     1, 1, 1, 1, 1, 1, 1, 1, 1, 1, 1, 1, 1, 1, 1, 1,
     1, 1, 1, 1, 1, 1, 1, 1, 1, 1, 1, 1, 1, 1, 1, 1,
     1, 1, 1, 1, 1, 1, 1, 1, 1, 1, 1, 1, 1, 1, 1, 1,
     1, 1, 1, 1, 1, 1, 1, 1, 1, 1, 1, 1, 1, 1, 1, 1,
     0, 0, 0, 0, 0, 0, 0, 0, 0, 0, 0, 0, 0, 0, 0, 0,
     0, 0, 0, 0, 0, 0, 0, 0, 0, 0, 0, 0, 0, 0, 0, 0,
     0, 0, 0, 0, 0, 0, 0, 0, 0, 0, 0, 0, 0, 0, 0, 0,
     0, 0, 0, 0, 0, 0, 0, 0, 0, 0, 0, 0, 0, 0, 0, 0,
     0, 0, 0, 0, 0, 0, 0, 0, 0, 0, 0, 0, 0, 0, 0, 0,
     0, 0, 0, 0, 0, 0, 0, 0, 0, 0, 0, 0, 0, 0, 0, 0,
     0, 0, 0, 0, 0, 0, 0, 0, 0, 0, 0, 0, 0, 0, 0, 0,
     0, 0, 0, 0, 0, 0, 0, 0, 0, 0, 0, 0, 0, 0, 0, 0]"

definition countLeadingZeros32 :: "bits32 \<Rightarrow> int" where
  "countLeadingZeros32 a =
     (let shiftCount = 0;
          (shiftCount, a) = (if a < 0x10000 then (shiftCount + 16, c_shl a 16) else (shiftCount, a));
          (shiftCount, a) = (if a < 0x1000000 then (shiftCount + 8, c_shl a 8) else (shiftCount, a))
      in shiftCount + countLeadingZerosHigh ! unat (c_shr a 24))"

definition countLeadingZeros64 :: "bits64 \<Rightarrow> int" where
  "countLeadingZeros64 a =
     (let shiftCount = 0;
          (shiftCount, a) =
            (if a < 0x100000000 then (shiftCount + 32, c_shl a 32) else (shiftCount, a));
          (shiftCount, a) =
            (if a < 0x1000000000000 then (shiftCount + 16, c_shl a 16) else (shiftCount, a));
          (shiftCount, a) =
            (if a < 0x100000000000000 then (shiftCount + 8, c_shl a 8) else (shiftCount, a))
      in shiftCount + countLeadingZerosHigh ! unat (c_shr a 56))"

section \<open>Comparisons\<close>

definition eq64 :: "bits32 \<Rightarrow> bits32 \<Rightarrow> bits32 \<Rightarrow> bits32 \<Rightarrow> flag" where
  "eq64 a0 a1 b0 b1 \<longleftrightarrow> a0 = b0 \<and> a1 = b1"

definition le64 :: "bits32 \<Rightarrow> bits32 \<Rightarrow> bits32 \<Rightarrow> bits32 \<Rightarrow> flag" where
  "le64 a0 a1 b0 b1 \<longleftrightarrow> a0 < b0 \<or> a0 = b0 \<and> a1 \<le> b1"

definition lt64 :: "bits32 \<Rightarrow> bits32 \<Rightarrow> bits32 \<Rightarrow> bits32 \<Rightarrow> flag" where
  "lt64 a0 a1 b0 b1 \<longleftrightarrow> a0 < b0 \<or> a0 = b0 \<and> a1 < b1"

definition ne64 :: "bits32 \<Rightarrow> bits32 \<Rightarrow> bits32 \<Rightarrow> bits32 \<Rightarrow> flag" where
  "ne64 a0 a1 b0 b1 \<longleftrightarrow> a0 \<noteq> b0 \<or> a1 \<noteq> b1"

section \<open>Values of the pieces\<close>

definition val64 :: "bits32 \<times> bits32 \<Rightarrow> int" where
  "val64 = (\<lambda>(a0, a1). uint a0 * 2 ^ 32 + uint a1)"

definition val96 :: "bits32 \<times> bits32 \<times> bits32 \<Rightarrow> int" where
  "val96 = (\<lambda>(a0, a1, a2). uint a0 * 2 ^ 64 + uint a1 * 2 ^ 32 + uint a2)"

definition val128 :: "bits32 \<times> bits32 \<times> bits32 \<times> bits32 \<Rightarrow> int" where
  "val128 = (\<lambda>(a0, a1, a2, a3). uint a0 * 2 ^ 96 + uint a1 * 2 ^ 64 + uint a2 * 2 ^ 32 + uint a3)"

definition jam :: "int \<Rightarrow> nat \<Rightarrow> int" where
  "jam x n = x div 2 ^ n + (if x mod 2 ^ n \<noteq> 0 \<and> even (x div 2 ^ n) then 1 else 0)"

lemma neg_and_31:
  fixes c x :: int
  assumes "0 < c" "c < 32"
  shows "(- c) AND 31 = 32 - c"
proof -
  have "(- c) mod 32 = 32 - c" using assms by (simp add: zmod_zminus1_eq_if)
  then show ?thesis by (simp only: int_and_31)
qed

lemma neg_and_31':
  fixes c x :: int
  assumes "32 < c" "c < 64"
  shows "(- c) AND 31 = 64 - c" "c AND 31 = c - 32"
proof -
  have "(- c) mod 32 = 64 - c" using assms by presburger
  then show "(- c) AND 31 = 64 - c" by (simp only: int_and_31)
  have "c mod 32 = c - 32" using assms by presburger
  then show "c AND 31 = c - 32" by (simp only: int_and_31)
qed

lemma split_pow32:
  fixes c x :: int
  assumes "0 \<le> c" "c \<le> 32"
  shows "(2::int) ^ 32 = 2 ^ nat c * 2 ^ nat (32 - c)"
  using assms by (simp add: nat_add_distrib [symmetric] flip: power_add)

lemma mod_shift_0_iff:
  fixes c x :: int
  assumes "0 \<le> c" "c \<le> 32"
  shows "x * 2 ^ nat (32 - c) mod 2 ^ 32 = 0 \<longleftrightarrow> x mod 2 ^ nat c = 0"
  by (simp only: split_pow32 [OF assms] mult_mod_left [symmetric]) simp

lemma uint_lt_pow: "32 \<le> n \<Longrightarrow> uint (a :: bits32) < 2 ^ n"
  by (rule lt2p_lem) simp

lemma pow_ge_32: "32 \<le> c \<Longrightarrow> (2::int) ^ nat c = 2 ^ 32 * 2 ^ nat (c - 32)"
  by (metis add.commute diff_add_cancel nat_add_distrib nat_numeral power_add diff_ge_0_iff_ge
      zero_le_numeral)

lemma shift32RightJamming_jam:
  assumes "0 \<le> count"
  shows "uint (shift32RightJamming a count) = jam (uint a) (nat count)"
proof -
  consider "count = 0" | "0 < count" "count < 32" | "32 \<le> count" using assms by linarith
  then show ?thesis
  proof cases
    case 2
    then have "c_shl a ((- count) AND 31) \<noteq> 0 \<longleftrightarrow> uint a mod 2 ^ nat count \<noteq> 0"
      using mod_shift_0_iff [of count "uint a"] by (simp add: neg_and_31 uint_c_shl_0_iff)
    with 2 show ?thesis
      by (simp add: shift32RightJamming_def uint_or_bit_of uint_c_shr jam_def)
  next
    case 3
    then have "uint a < 2 ^ nat count" by (intro uint_lt_pow) simp
    with 3 show ?thesis
      by (simp add: shift32RightJamming_def jam_def bit_of_def uint_0_iff)
  qed (simp add: shift32RightJamming_def jam_def)
qed

lemma val64_shift64Right:
  assumes "0 \<le> count"
  shows "val64 (shift64Right a0 a1 count) = val64 (a0, a1) div 2 ^ nat count"
proof -
  consider "count = 0" | "0 < count" "count < 32" | "32 \<le> count" "count < 64" | "64 \<le> count"
    using assms by linarith
  then show ?thesis
  proof cases
    case 2
    let ?C = "2 ^ nat count :: int" and ?N = "2 ^ nat (32 - count) :: int"
    have CN: "2 ^ 32 = ?C * ?N" using 2 by (intro split_pow32) simp_all
    have "uint a1 div ?C < ?N"
      using uint_lt2p [of a1] by (intro int_div_lt) (simp_all flip: CN)
    then have "uint (c_shl a0 (32 - count) OR c_shr a1 count) =
        uint a0 * ?N mod 2 ^ 32 + uint a1 div ?C"
      using uint_push_or [of "c_shr a1 count" "nat (32 - count)" a0] 2
      by (simp add: c_shl_def uint_c_shr)
    with 2 show ?thesis
      using two_piece_div(1) [of ?C ?N "uint a0" "uint a1"]
      by (simp add: shift64Right_def val64_def neg_and_31 uint_c_shr flip: CN)
  next
    case 3
    let ?C = "2 ^ nat (count - 32) :: int"
    have C: "2 ^ nat count = 2 ^ 32 * ?C" by (rule pow_ge_32) (use 3 in simp)
    have "(uint a0 * 2 ^ 32 + uint a1) div (2 ^ 32 * ?C) = uint a0 div ?C"
      using uint_lt2p [of a1] by (simp add: zdiv_zmult2_eq)
    moreover have "count AND 31 = count - 32" using 3 neg_and_31' [of count] by (cases "count = 32") simp_all
    ultimately show ?thesis using 3
      by (simp add: shift64Right_def val64_def uint_c_shr C)
  next
    case 4
    have "val64 (a0, a1) < 2 ^ 64" using uint_lt2p [of a0] uint_lt2p [of a1] by (simp add: val64_def)
    also have "(2::int) ^ 64 \<le> 2 ^ nat count" using 4 by (intro power_increasing) simp_all
    finally have "val64 (a0, a1) div 2 ^ nat count = 0" by (simp add: val64_def)
    with 4 show ?thesis by (simp add: shift64Right_def) (simp add: val64_def)
  qed (simp add: shift64Right_def)
qed

lemma uint_shl_or_shr:
  assumes "0 < c" "c < 32"
  shows "uint (c_shl a0 (32 - c) OR c_shr a1 c) =
    uint a0 * 2 ^ nat (32 - c) mod 2 ^ 32 + uint (a1 :: bits32) div 2 ^ nat c"
proof -
  let ?C = "2 ^ nat c :: int" and ?N = "2 ^ nat (32 - c) :: int"
  have CN: "2 ^ 32 = ?C * ?N" using assms by (intro split_pow32) simp_all
  have "uint a1 div ?C < ?N"
    using uint_lt2p [of a1] by (intro int_div_lt) (simp_all flip: CN)
  then show ?thesis
    using uint_push_or [of "c_shr a1 c" "nat (32 - c)" a0] assms
    by (simp add: c_shl_def uint_c_shr)
qed

lemma val64_jam_aux:
  fixes a0 a1 :: bits32
  assumes "0 < c" "c < 32"
  defines "z1 \<equiv> c_shl a0 (32 - c) OR c_shr a1 c" 
  shows "uint (c_shr a0 c) * 2 ^ 32 + uint z1 = val64 (a0, a1) div 2 ^ nat c"
    "c_shl a1 (32 - c) = 0 \<longleftrightarrow> val64 (a0, a1) mod 2 ^ nat c = 0"
    "even (uint z1) \<longleftrightarrow> even (val64 (a0, a1) div 2 ^ nat c)"
proof -
  let ?C = "2 ^ nat c :: int" and ?N = "2 ^ nat (32 - c) :: int"
  have CN: "2 ^ 32 = ?C * ?N" using assms by (intro split_pow32) simp_all
  show 1: "uint (c_shr a0 c) * 2 ^ 32 + uint z1 = val64 (a0, a1) div 2 ^ nat c"
    using two_piece_div(1) [of ?C ?N "uint a0" "uint a1"] assms
    by (simp add: z1_def uint_shl_or_shr val64_def uint_c_shr flip: CN)
  show "c_shl a1 (32 - c) = 0 \<longleftrightarrow> val64 (a0, a1) mod 2 ^ nat c = 0"
    using two_piece_div(2) [of ?C ?N "uint a0" "uint a1"] mod_shift_0_iff [of c "uint a1"] assms
    by (simp add: uint_c_shl_0_iff val64_def flip: CN)
  show "even (uint z1) \<longleftrightarrow> even (val64 (a0, a1) div 2 ^ nat c)"
    by (simp flip: 1)
qed

lemma val64_shift64RightJamming:
  assumes "0 \<le> count"
  shows "val64 (shift64RightJamming a0 a1 count) = jam (val64 (a0, a1)) (nat count)"
proof -
  consider "count = 0" | "0 < count" "count < 32" | "count = 32" | "32 < count" "count < 64" | "64 \<le> count"
    using assms by linarith
  then show ?thesis
  proof cases
    case 2
    note aux = val64_jam_aux [OF 2, where ?a0.0 = a0 and ?a1.0 = a1]
    have "val64 (shift64RightJamming a0 a1 count) =
       uint (c_shr a0 count) * 2 ^ 32 + uint ((c_shl a0 (32 - count) OR c_shr a1 count) OR bit_of (c_shl a1 (32 - count) \<noteq> 0))"
      using 2 by (simp add: shift64RightJamming_def val64_def neg_and_31 Let_def or.assoc)
    also have "\<dots> = jam (val64 (a0, a1)) (nat count)"
      using aux by (simp add: uint_or_bit_of jam_def)
    finally show ?thesis .
  next
    case 3
    then show ?thesis using uint_lt2p [of a1]
      by (simp add: shift64RightJamming_def val64_def uint_or_bit_of jam_def uint_0_iff)
  next
    case 4
    let ?c = "count - 32"
    have c: "0 < ?c" "?c < 32" using 4 by simp_all
    have "val64 (a0, a1) mod 2 ^ nat count = uint a0 mod 2 ^ nat ?c * 2 ^ 32 + uint a1"
      using 4 pow_ge_32 [of count] uint_lt2p [of a1] by (simp add: val64_def zmod_zmult2_eq)
    moreover have "c_shl a0 (64 - count) = 0 \<longleftrightarrow> uint a0 mod 2 ^ nat ?c = 0"
      using mod_shift_0_iff [of ?c "uint a0"] c by (simp add: uint_c_shl_0_iff)
    ultimately have "c_shl a0 (64 - count) OR a1 = 0 \<longleftrightarrow> val64 (a0, a1) mod 2 ^ nat count = 0"
      by (simp add: or_eq_0_iff add_nonneg_eq_0_iff uint_0_iff)
    moreover have "val64 (a0, a1) div 2 ^ nat count = uint a0 div 2 ^ nat ?c"
      using 4 pow_ge_32 [of count] uint_lt2p [of a1] by (simp add: val64_def zdiv_zmult2_eq)
    ultimately show ?thesis using 4
      by (simp add: shift64RightJamming_def neg_and_31') (simp add: val64_def uint_or_bit_of jam_def uint_c_shr)
  next
    case 5
    have "val64 (a0, a1) < 2 ^ 64" using uint_lt2p [of a0] uint_lt2p [of a1] by (simp add: val64_def)
    also have "(2::int) ^ 64 \<le> 2 ^ nat count" using 5 by (intro power_increasing) simp_all
    finally have "val64 (a0, a1) div 2 ^ nat count = 0" "val64 (a0, a1) mod 2 ^ nat count = val64 (a0, a1)" by (simp_all add: val64_def)
    moreover have "a0 OR a1 = 0 \<longleftrightarrow> val64 (a0, a1) = 0"
      by (simp add: val64_def or_eq_0_iff add_nonneg_eq_0_iff uint_0_iff)
    ultimately show ?thesis using 5 by (simp add: shift64RightJamming_def jam_def) (simp add: val64_def)
  qed (simp add: shift64RightJamming_def jam_def val64_def)
qed

lemma val64_less: "val64 z < 2 ^ 64" "0 \<le> val64 z"
  using uint_lt2p [of "fst z"] uint_lt2p [of "snd z"] by (simp_all add: val64_def split_beta)

lemma val64_add64: "val64 (add64 a0 a1 b0 b1) = (val64 (a0, a1) + val64 (b0, b1)) mod 2 ^ 64"
proof (rule int_cong_mod)
  define c where "c = (if a1 + b1 < a1 then 1 else 0 :: int)"
  define q where "q = (uint a0 + uint b0 + c) div 2 ^ 32"
  have "uint (a0 + b0 + bit_of (a1 + b1 < a1)) = (uint a0 + uint b0 + c) mod 2 ^ 32"
    by (simp add: uint_word_ariths uint_bit_of mod_simps c_def)
  then have "uint (a0 + b0 + bit_of (a1 + b1 < a1)) + q * 2 ^ 32 = uint a0 + uint b0 + c"
    by (simp only: q_def int_mod_carry)
  then show "val64 (add64 a0 a1 b0 b1) + q * 2 ^ 64 = val64 (a0, a1) + val64 (b0, b1)"
    using uint_plus_carry [of a1 b1, folded c_def] by (simp add: val64_def add64_def Let_def)
qed (rule val64_less)+

lemma val64_sub64: "val64 (sub64 a0 a1 b0 b1) = (val64 (a0, a1) - val64 (b0, b1)) mod 2 ^ 64"
proof (rule int_cong_mod)
  define c where "c = (if a1 < b1 then 1 else 0 :: int)"
  define q where "q = (uint a0 - uint b0 - c) div 2 ^ 32"
  have "uint (a0 - b0 - bit_of (a1 < b1)) = (uint a0 - uint b0 - c) mod 2 ^ 32"
    by (simp add: uint_word_ariths uint_bit_of mod_simps c_def)
  then have "uint (a0 - b0 - bit_of (a1 < b1)) + q * 2 ^ 32 = uint a0 - uint b0 - c"
    by (simp only: q_def int_mod_carry)
  then show "val64 (sub64 a0 a1 b0 b1) + q * 2 ^ 64 = val64 (a0, a1) - val64 (b0, b1)"
    using uint_minus_borrow [of a1 b1, folded c_def] by (simp add: val64_def sub64_def Let_def)
qed (rule val64_less)+

lemma val64_lt64: "lt64 a0 a1 b0 b1 \<longleftrightarrow> val64 (a0, a1) < val64 (b0, b1)"
  using two_digit_iff [of "uint a1" "2 ^ 32" "uint b1" "uint a0" "uint b0"] uint_lt2p [of a1] uint_lt2p [of b1]
  by (simp add: lt64_def val64_def word_uint_eq_iff word_less_def)

lemma val64_inject: "val64 (a0, a1) = val64 (b0, b1) \<longleftrightarrow> a0 = b0 \<and> a1 = b1"
  using val64_lt64 [of a0 a1 b0 b1] val64_lt64 [of b0 b1 a0 a1] 
  by (auto simp: lt64_def)

lemma val64_le64: "le64 a0 a1 b0 b1 \<longleftrightarrow> val64 (a0, a1) \<le> val64 (b0, b1)"
  using val64_lt64 [of a0 a1 b0 b1]
  by (auto simp: le64_def lt64_def le_less val64_inject)

lemma val64_eq64: "eq64 a0 a1 b0 b1 \<longleftrightarrow> val64 (a0, a1) = val64 (b0, b1)"
  by (simp add: eq64_def val64_inject)

lemma val64_ne64: "ne64 a0 a1 b0 b1 \<longleftrightarrow> val64 (a0, a1) \<noteq> val64 (b0, b1)"
  by (simp add: ne64_def val64_inject)

lemma val96_less: "val96 z < 2 ^ 96" "0 \<le> val96 z"
  using uint_lt2p [of "fst z"] uint_lt2p [of "fst (snd z)"] uint_lt2p [of "snd (snd z)"] 
  by (simp_all add: val96_def split_beta)

lemma val128_less: "val128 z < 2 ^ 128" "0 \<le> val128 z"
  using uint_lt2p [of "fst z"] uint_lt2p [of "fst (snd z)"] uint_lt2p [of "fst (snd (snd z))"] uint_lt2p [of "snd (snd (snd z))"] 
  by (simp_all add: val128_def split_beta)

lemma val96_add96: "val96 (add96 a0 a1 a2 b0 b1 b2) = (val96 (a0, a1, a2) + val96 (b0, b1, b2)) mod 2 ^ 96"
proof (rule int_cong_mod)
  define c1 where "c1 = (if a2 + b2 < a2 then 1 else 0 :: int)"
  define c0 where "c0 = (if a1 + b1 < a1 then 1 else 0 :: int)"
  define d1 :: bits32 where "d1 = bit_of (a2 + b2 < a2)"
  define c0' where "c0' = (if a1 + b1 + d1 < d1 then 1 else 0 :: int)"
  define q where "q = (uint a0 + uint b0 + c0' + c0) div 2 ^ 32"
  have d1: "uint d1 = c1" by (simp add: d1_def c1_def uint_bit_of)
  have "uint (a0 + b0 + bit_of (a1 + b1 + d1 < d1) + bit_of (a1 + b1 < a1)) = (uint a0 + uint b0 + c0' + c0) mod 2 ^ 32"
    by (simp add: uint_word_ariths uint_bit_of mod_simps c0_def c0'_def)
  then have "uint (a0 + b0 + bit_of (a1 + b1 + d1 < d1) + bit_of (a1 + b1 < a1)) + q * 2 ^ 32 = uint a0 + uint b0 + c0' + c0"
    by (simp only: q_def int_mod_carry)
  moreover have "uint (a1 + b1 + d1) + c0' * 2 ^ 32 = uint (a1 + b1) + c1"
    using uint_plus_carry [of d1 "a1 + b1"] by (simp add: c0'_def d1 add.commute)
  ultimately show "val96 (add96 a0 a1 a2 b0 b1 b2) + q * 2 ^ 96 = val96 (a0, a1, a2) + val96 (b0, b1, b2)"
    using uint_plus_carry [of a2 b2, folded c1_def] uint_plus_carry [of a1 b1, folded c0_def]
    by (simp add: val96_def add96_def Let_def flip: d1_def)
qed (rule val96_less)+

lemma val96_sub96: "val96 (sub96 a0 a1 a2 b0 b1 b2) = (val96 (a0, a1, a2) - val96 (b0, b1, b2)) mod 2 ^ 96"
proof (rule int_cong_mod)
  define c1 where "c1 = (if a2 < b2 then 1 else 0 :: int)"
  define c0 where "c0 = (if a1 < b1 then 1 else 0 :: int)"
  define d1 :: bits32 where "d1 = bit_of (a2 < b2)"
  define c0' where "c0' = (if a1 - b1 < d1 then 1 else 0 :: int)"
  define q where "q = (uint a0 - uint b0 - c0' - c0) div 2 ^ 32"
  have d1: "uint d1 = c1" by (simp add: d1_def c1_def uint_bit_of)
  have "uint (a0 - b0 - bit_of (a1 - b1 < d1) - bit_of (a1 < b1)) = (uint a0 - uint b0 - c0' - c0) mod 2 ^ 32"
    by (simp add: uint_word_ariths uint_bit_of mod_simps c0_def c0'_def)
  then have "uint (a0 - b0 - bit_of (a1 - b1 < d1) - bit_of (a1 < b1)) + q * 2 ^ 32 = uint a0 - uint b0 - c0' - c0"
    by (simp only: q_def int_mod_carry)
  moreover have "uint (a1 - b1 - d1) - c0' * 2 ^ 32 = uint (a1 - b1) - c1"
    using uint_minus_borrow [of "a1 - b1" d1] by (simp add: c0'_def d1)
  ultimately show "val96 (sub96 a0 a1 a2 b0 b1 b2) + q * 2 ^ 96 = val96 (a0, a1, a2) - val96 (b0, b1, b2)"
    using uint_minus_borrow [of a2 b2, folded c1_def] uint_minus_borrow [of a1 b1, folded c0_def]
    by (simp add: val96_def sub96_def Let_def flip: d1_def)
qed (rule val96_less)+

lemma uint_mult_halves:
  fixes x y :: bits16
  shows "uint (ucast x * ucast y :: bits32) = uint x * uint y"
proof -
  have "uint x * uint y \<le> (2 ^ 16 - 1) * (2 ^ 16 - 1)"
    using uint_lt2p [of x] uint_lt2p [of y] by (intro mult_mono) simp_all
  moreover have "uint (ucast z :: bits32) = uint z" for z :: bits16
    using uint_lt2p [of z] by (simp add: unsigned_ucast_eq take_bit_eq_mod)
  ultimately show ?thesis by (subst uint_mult_exact) simp_all
qed

lemma val64_mul32To64: "val64 (mul32To64 a b) = uint a * uint b"
proof -
  define aL aH bL bH where "aL = (ucast a :: bits16)" and "aH = (ucast (c_shr a 16) :: bits16)"
    and "bL = (ucast b :: bits16)" and "bH = (ucast (c_shr b 16) :: bits16)"
  have split: "uint w = uint (ucast (c_shr w 16) :: bits16) * 2 ^ 16 + uint (ucast w :: bits16)" for w :: bits32
  proof -
    have "uint w div 2 ^ 16 < 2 ^ 16" using uint_lt2p [of w] by (intro int_div_lt) simp_all
    then have "uint w div 2 ^ 16 mod 2 ^ 16 = uint w div 2 ^ 16" by (intro mod_pos_pos_trivial) (simp_all add: pos_imp_zdiv_nonneg_iff)
    then show ?thesis
      by (simp add: unsigned_ucast_eq take_bit_eq_mod uint_c_shr)
  qed
  define p q r s :: bits32 where "p = ucast aL * ucast bL" and "q = ucast aL * ucast bH"
    and "r = ucast aH * ucast bL" and "s = ucast aH * ucast bH"
  have vals: "uint p = uint aL * uint bL" "uint q = uint aL * uint bH"
    "uint r = uint aH * uint bL" "uint s = uint aH * uint bH"
    by (simp_all add: p_def q_def r_def s_def uint_mult_halves)
  define m where "m = q + r"
  define c where "c = (if m < r then 1 else 0 :: int)"
  define t where "t = c_shl m 16"
  define c1 where "c1 = (if p + t < t then 1 else 0 :: int)"
  have M: "uint m + c * 2 ^ 32 = uint q + uint r"
    using uint_plus_carry [of r q] by (simp add: m_def c_def add.commute)
  have Z: "uint (p + t) + c1 * 2 ^ 32 = uint p + uint t"
    using uint_plus_carry [of t p] by (simp add: c1_def add.commute)
  define mh ml where "mh = uint m div 2 ^ 16" and "ml = uint m mod 2 ^ 16"
  have ml: "uint m = mh * 2 ^ 16 + ml" by (simp add: mh_def ml_def)
  have T: "uint t = ml * 2 ^ 16" by (simp add: t_def uint_c_shl mult_mod_left ml_def)
  define Q where "Q = (uint s + (c * 2 ^ 16 + mh) + c1)"
  define z0 where "z0 = s + (c_shl (bit_of (m < r)) 16 + c_shr m 16) + bit_of (p + t < t)"
  have "uint z0 = Q mod 2 ^ 32"
    by (simp add: z0_def Q_def uint_word_ariths uint_bit_of mod_simps c_def c1_def uint_c_shr uint_c_shl mh_def)
  moreover define k where "k = Q div 2 ^ 32"
  ultimately have "uint z0 + k * 2 ^ 32 = uint s + (c * 2 ^ 16 + mh) + c1"
    unfolding Q_def [symmetric] by (simp only: int_mod_carry)
  then have "val64 (z0, p + t) + k * 2 ^ 64 = uint s * 2 ^ 32 + (uint q + uint r) * 2 ^ 16 + uint p"
    using M Z T ml by (simp add: val64_def)
  also have "\<dots> = uint a * uint b"
    unfolding split [of a, folded aL_def aH_def] split [of b, folded bL_def bH_def]
    by (simp add: vals algebra_simps)
  finally have "val64 (z0, p + t) + k * 2 ^ 64 = uint a * uint b" .
  moreover have "mul32To64 a b = (z0, p + t)"
    unfolding mul32To64_def Let_def z0_def aL_def [symmetric] aH_def [symmetric] bL_def [symmetric] bH_def [symmetric]
      p_def [symmetric] q_def [symmetric] r_def [symmetric] s_def [symmetric] m_def [symmetric] t_def [symmetric] ..
  moreover have "uint a * uint b < 2 ^ 64"
    using mult_strict_mono [of "uint a" "2 ^ 32" "uint b" "2 ^ 32"] uint_lt2p [of a] uint_lt2p [of b] by simp
  ultimately show ?thesis
    using int_cong_mod [OF val64_less(2,1), of "mul32To64 a b" k "uint a * uint b"] by simp
qed

lemma val96_mul64By32To96: "val96 (mul64By32To96 a0 a1 b) = val64 (a0, a1) * uint b"
proof -
  obtain z1 z2 where z12: "mul32To64 a1 b = (z1, z2)" by fastforce
  obtain z0 m1 where z0: "mul32To64 a0 b = (z0, m1)" by fastforce
  obtain y0 y1 where y: "add64 z0 m1 0 z1 = (y0, y1)" by fastforce
  have b: "uint b < 2 ^ 32" "uint a0 < 2 ^ 32" using uint_lt2p [of b] uint_lt2p [of a0] by simp_all
  have v0: "val64 (z0, m1) = uint a0 * uint b" and v1: "val64 (z1, z2) = uint a1 * uint b"
    by (simp_all flip: z0 z12 add: val64_mul32To64)
  have "uint a0 * uint b \<le> (2 ^ 32 - 1) * (2 ^ 32 - 1)"
    using b by (intro mult_mono) simp_all
  then have "val64 (y0, y1) = val64 (z0, m1) + uint z1"
    unfolding y [symmetric] val64_add64 using v0 uint_lt2p [of z1] val64_less(2) [of "(z0, m1)"]
    by (subst mod_pos_pos_trivial) (simp_all add: val64_def)
  then show ?thesis using v0 v1
    by (simp add: mul64By32To96_def z12 z0 y val96_def val64_def algebra_simps)
qed

lemma val64_add64_exact:
  "val64 (a0, a1) + val64 (b0, b1) < 2 ^ 64 \<Longrightarrow> val64 (add64 a0 a1 b0 b1) = val64 (a0, a1) + val64 (b0, b1)"
  using val64_less(2) [of "(a0, a1)"] val64_less(2) [of "(b0, b1)"]
  by (simp add: val64_add64 mod_pos_pos_trivial)

lemma val64_zero_high [simp]: "val64 (0, b) = uint b" by (simp add: val64_def)

lemma uint_mult_le: "uint (a :: bits32) * uint (b :: bits32) \<le> (2 ^ 32 - 1) * (2 ^ 32 - 1)"
  using uint_lt2p [of a] uint_lt2p [of b] by (intro mult_mono) simp_all

lemma val128_mul64To128: "val128 (mul64To128 a0 a1 b0 b1) = val64 (a0, a1) * val64 (b0, b1)"
proof -
  obtain z2 z3 where e1: "mul32To64 a1 b1 = (z2, z3)" by fastforce
  obtain z1 m2 where e2: "mul32To64 a1 b0 = (z1, m2)" by fastforce
  obtain y1 y2 where e3: "add64 z1 m2 0 z2 = (y1, y2)" by fastforce
  obtain z0 m1 where e4: "mul32To64 a0 b0 = (z0, m1)" by fastforce
  obtain x0 x1 where e5: "add64 z0 m1 0 y1 = (x0, x1)" by fastforce
  obtain n1 n2 where e6: "mul32To64 a0 b1 = (n1, n2)" by fastforce
  obtain w1 w2 where e7: "add64 n1 n2 0 y2 = (w1, w2)" by fastforce
  obtain v0 v1 where e8: "add64 x0 x1 0 w1 = (v0, v1)" by fastforce
  have p: "val64 (z2, z3) = uint a1 * uint b1" "val64 (z1, m2) = uint a1 * uint b0"
    "val64 (z0, m1) = uint a0 * uint b0" "val64 (n1, n2) = uint a0 * uint b1"
    by (simp_all flip: e1 e2 e4 e6 add: val64_mul32To64)
  have bnd: "uint x < 2 ^ 32" for x :: bits32 using uint_lt2p [of x] by simp
  have s3: "val64 (y1, y2) = val64 (z1, m2) + uint z2"
    using p uint_mult_le [of a1 b0] bnd [of z2] val64_add64_exact [of z1 m2 0 z2] by (simp add: e3)
  have s5: "val64 (x0, x1) = val64 (z0, m1) + uint y1"
    using p uint_mult_le [of a0 b0] bnd [of y1] val64_add64_exact [of z0 m1 0 y1] by (simp add: e5)
  have s7: "val64 (w1, w2) = val64 (n1, n2) + uint y2"
    using p uint_mult_le [of a0 b1] bnd [of y2] val64_add64_exact [of n1 n2 0 y2] by (simp add: e7)
  have prod: "val64 (a0, a1) * val64 (b0, b1) = (val64 (x0, x1) + uint w1) * 2 ^ 64 + uint w2 * 2 ^ 32 + uint z3"
    using p s3 s5 s7 by (simp add: val64_def algebra_simps)
  have "val64 (a0, a1) * val64 (b0, b1) < 2 ^ (64 + 64)"
    by (intro mult_less_pow val64_less)
  then have "(val64 (x0, x1) + uint w1) * 2 ^ 64 < 2 ^ 64 * 2 ^ 64"
    using prod by (smt (verit, ccfv_threshold) uint_ge_0 mult_nonneg_nonneg zero_le_power power_add)
  then have "val64 (x0, x1) + val64 (0, w1) < 2 ^ 64" by simp
  then have "val64 (v0, v1) = val64 (x0, x1) + uint w1"
    using val64_add64_exact [of x0 x1 0 w1] by (simp add: e8)
  then show ?thesis unfolding prod
    by (simp add: mul64To128_def e1 e2 e3 e4 e5 e6 e7 e8) (simp add: val128_def val64_def)
qed

lemma short_shift_pieces:
  fixes x y :: bits32
  assumes "0 < c" "c < 32"
  shows "uint (c_shl x c OR c_shr y ((- c) AND 31)) = uint x * 2 ^ nat c mod 2 ^ 32 + uint y div 2 ^ nat (32 - c)"
    and "uint y div 2 ^ nat (32 - c) * 2 ^ 32 + uint (c_shl y c) = uint y * 2 ^ nat c"
proof -
  let ?C = "2 ^ nat c :: int" and ?N = "2 ^ nat (32 - c) :: int"
  have CN: "2 ^ 32 = ?C * ?N" using assms by (intro split_pow32) simp_all
  show "uint (c_shl x c OR c_shr y ((- c) AND 31)) = uint x * ?C mod 2 ^ 32 + uint y div ?N"
    using uint_shl_or_shr [of "32 - c" x y] assms by (simp add: neg_and_31)
  show "uint y div ?N * 2 ^ 32 + uint (c_shl y c) = uint y * ?C"
    using two_piece_shl [of ?C ?N "uint y"] assms by (simp add: uint_c_shl flip: CN)
qed

lemma val64_shortShift64Left:
  assumes "0 \<le> count" "count < 32"
  shows "val64 (shortShift64Left a0 a1 count) = val64 (a0, a1) * 2 ^ nat count mod 2 ^ 64"
proof (cases "count = 0")
  case True
  then show ?thesis using val64_less [of "(a0, a1)"] by (simp add: shortShift64Left_def c_shl_def)
next
  case False
  then have c: "0 < count" using assms by simp
  let ?C = "2 ^ nat count :: int"
  define r q where "r = uint a0 * ?C mod 2 ^ 32" and "q = uint a0 * ?C div 2 ^ 32"
  have "uint a0 * ?C = r + q * 2 ^ 32" by (simp only: r_def q_def int_mod_carry)
  moreover have "val64 (a0, a1) * ?C = uint a0 * ?C * 2 ^ 32 + uint a1 * ?C"
    by (simp add: val64_def algebra_simps)
  moreover have "val64 (shortShift64Left a0 a1 count) =
      (r + uint a1 div 2 ^ nat (32 - count)) * 2 ^ 32 + uint (c_shl a1 count)"
    using c by (simp add: shortShift64Left_def val64_def short_shift_pieces(1) [OF c assms(2)] r_def)
  ultimately have "val64 (shortShift64Left a0 a1 count) + q * 2 ^ 64 = val64 (a0, a1) * ?C"
    using short_shift_pieces(2) [OF c assms(2), of a1] by simp
  then show ?thesis by (intro int_cong_mod [OF val64_less(2,1)])
qed

lemma val96_shortShift96Left:
  assumes "0 \<le> count" "count < 32"
  shows "val96 (shortShift96Left a0 a1 a2 count) = val96 (a0, a1, a2) * 2 ^ nat count mod 2 ^ 96"
proof (cases "count = 0")
  case True
  then show ?thesis using val96_less [of "(a0, a1, a2)"] by (simp add: shortShift96Left_def c_shl_def)
next
  case False
  then have c: "0 < count" using assms by simp
  let ?C = "2 ^ nat count :: int"
  define r q where "r = uint a0 * ?C mod 2 ^ 32" and "q = uint a0 * ?C div 2 ^ 32"
  have "uint a0 * ?C = r + q * 2 ^ 32" by (simp only: r_def q_def int_mod_carry)
  moreover have "val96 (a0, a1, a2) * ?C = uint a0 * ?C * 2 ^ 64 + uint a1 * ?C * 2 ^ 32 + uint a2 * ?C"
    by (simp add: val96_def algebra_simps)
  moreover have "val96 (shortShift96Left a0 a1 a2 count) =
      (r + uint a1 div 2 ^ nat (32 - count)) * 2 ^ 64 +
      (uint (c_shl a1 count) + uint a2 div 2 ^ nat (32 - count)) * 2 ^ 32 + uint (c_shl a2 count)"
    using c by (simp add: shortShift96Left_def Let_def val96_def short_shift_pieces(1) [OF c assms(2)] r_def uint_c_shl)
  ultimately have "val96 (shortShift96Left a0 a1 a2 count) + q * 2 ^ 96 = val96 (a0, a1, a2) * ?C"
    using short_shift_pieces(2) [OF c assms(2), of a1] short_shift_pieces(2) [OF c assms(2), of a2] by simp
  then show ?thesis by (intro int_cong_mod [OF val96_less(2,1)])
qed

lemma countLeadingZerosHigh_upto:
  "list_all (\<lambda>b. let t = countLeadingZerosHigh ! b in 0 \<le> t \<and> t \<le> 7 \<and>
     128 \<le> b * 2 ^ nat t \<and> b * 2 ^ nat t < 256) [1..<256]"
  by code_simp

lemma countLeadingZerosHigh_byte:
  assumes "0 < b" "b < 256"
  shows "0 \<le> countLeadingZerosHigh ! b" "countLeadingZerosHigh ! b \<le> 7"
    "2 ^ 7 \<le> int b * 2 ^ nat (countLeadingZerosHigh ! b)"
    "int b * 2 ^ nat (countLeadingZerosHigh ! b) < 2 ^ 8"
proof -
  have "b \<in> set [1..<256]" using assms by simp
  then have *: "let t = countLeadingZerosHigh ! b in 0 \<le> t \<and> t \<le> 7 \<and>
     128 \<le> b * 2 ^ nat t \<and> b * 2 ^ nat t < 256"
    using countLeadingZerosHigh_upto unfolding list_all_iff by blast
  then show "0 \<le> countLeadingZerosHigh ! b" "countLeadingZerosHigh ! b \<le> 7"
    by (simp_all add: Let_def)
  have "int 128 \<le> int (b * 2 ^ nat (countLeadingZerosHigh ! b))"
    "int (b * 2 ^ nat (countLeadingZerosHigh ! b)) < int 256"
    using * by (simp_all only: Let_def of_nat_le_iff of_nat_less_iff)
  then show "2 ^ 7 \<le> int b * 2 ^ nat (countLeadingZerosHigh ! b)"
    "int b * 2 ^ nat (countLeadingZerosHigh ! b) < 2 ^ 8" by simp_all
qed

lemma clz_lookup:
  fixes a :: "'a::len word"
  assumes "2 ^ (LENGTH('a) - 8) \<le> uint a" "8 \<le> LENGTH('a)"
  defines "t \<equiv> countLeadingZerosHigh ! unat (c_shr a (int (LENGTH('a) - 8)))"
  shows "0 \<le> t \<and> t \<le> 7 \<and> 2 ^ (LENGTH('a) - 1) \<le> uint a * 2 ^ nat t \<and> uint a * 2 ^ nat t < 2 ^ LENGTH('a)"
proof -
  let ?n = "LENGTH('a) - 8"
  define x where "x = uint a div 2 ^ ?n"
  have pow: "(2::int) ^ LENGTH('a) = 2 ^ ?n * 2 ^ 8" "(2::int) ^ (LENGTH('a) - 1) = 2 ^ ?n * 2 ^ 7"
    using assms(2) by (simp_all only: power_add [symmetric]) (simp_all add: le_add_diff_inverse2)
  have lo: "x * 2 ^ ?n \<le> uint a" by (simp add: x_def minus_mod_eq_div_mult [symmetric])
  have hi: "uint a < (x + 1) * 2 ^ ?n"
    by (simp add: x_def distrib_right minus_mod_eq_div_mult [symmetric])
  have "x < 2 ^ 8" unfolding x_def by (rule int_div_lt) (simp_all only: pow(1) [symmetric] uint_lt2p zero_less_power zero_less_numeral)
  then have x1: "x < int 256" by simp
  have x2: "int 1 \<le> x" using zdiv_mono1 [OF assms(1), of "2 ^ ?n"] by (simp add: x_def)
  define w where "w = unat (c_shr a (int ?n))"
  have w: "int w = x" by (simp add: w_def uint_c_shr x_def)
  have b: "0 < w" "w < 256"
    using x2 x1 unfolding w [symmetric] of_nat_le_iff of_nat_less_iff by simp_all
  note byte = countLeadingZerosHigh_byte [OF b, unfolded w_def, folded t_def, folded w_def, unfolded w]
  have "2 ^ ?n * 2 ^ 7 \<le> x * 2 ^ ?n * 2 ^ nat t" using byte(3) by (simp add: mult.commute mult.left_commute)
  also have "\<dots> \<le> uint a * 2 ^ nat t" using lo by simp
  finally have 1: "2 ^ (LENGTH('a) - 1) \<le> uint a * 2 ^ nat t" by (simp only: pow)
  have "x * 2 ^ nat t + 2 ^ nat t \<le> 2 ^ 8"
  proof -
    have "x * 2 ^ nat t < 2 ^ (8 - nat t) * 2 ^ nat t" using byte by (simp flip: power_add)
    then have "x + 1 \<le> 2 ^ (8 - nat t)" by simp
    then have "(x + 1) * 2 ^ nat t \<le> 2 ^ (8 - nat t) * 2 ^ nat t" by (intro mult_right_mono) simp_all
    then show ?thesis using byte by (simp add: distrib_right flip: power_add)
  qed
  then have "2 ^ ?n * (x * 2 ^ nat t + 2 ^ nat t) \<le> 2 ^ ?n * 2 ^ 8"
    by (intro mult_left_mono) simp_all
  then have "(x + 1) * 2 ^ ?n * 2 ^ nat t \<le> 2 ^ ?n * 2 ^ 8"
    by (simp only: distrib_left distrib_right mult_1 mult.commute mult.left_commute)
  moreover have "uint a * 2 ^ nat t < (x + 1) * 2 ^ ?n * 2 ^ nat t" using hi by simp
  ultimately have "uint a * 2 ^ nat t < 2 ^ LENGTH('a)" by (simp only: pow)
  with 1 byte show ?thesis by simp
qed

lemma clz32_bounds:
  "if a = 0 then countLeadingZeros32 a = 32
   else 0 \<le> countLeadingZeros32 a \<and> countLeadingZeros32 a < 32 \<and>
     2 ^ 31 \<le> uint a * 2 ^ nat (countLeadingZeros32 a) \<and> uint a * 2 ^ nat (countLeadingZeros32 a) < 2 ^ 32"
proof (cases "a = 0")
  case True
  have "countLeadingZeros32 0 = 32" by code_simp
  with True show ?thesis by simp
next
  case False
  then have a: "1 \<le> uint a" by (rule uint_pos)
  define b s where "b = (if a < 0x10000 then c_shl a 16 else a)" and "s = (if a < 0x10000 then 16 else 0 :: int)"
  define c u where "c = (if b < 0x1000000 then c_shl b 8 else b)" and "u = (if b < 0x1000000 then s + 8 else s)"
  have b: "uint b = uint a * 2 ^ nat s" "2 ^ 16 \<le> uint b"
    using uint_c_shl_exact [of a 16] a by (auto simp: b_def s_def word_less_def not_less)
  have c: "uint c = uint b * 2 ^ nat (u - s)" "2 ^ 24 \<le> uint c"
    using uint_c_shl_exact [of b 8] b(2) by (auto simp: c_def u_def word_less_def not_less)
  have s: "s = 0 \<or> s = 16" "u = s \<or> u = s + 8" by (simp_all add: s_def u_def)
  define t where "t = countLeadingZerosHigh ! unat (c_shr c 24)"
  have t: "0 \<le> t" "t \<le> 7" "2 ^ 31 \<le> uint c * 2 ^ nat t" "uint c * 2 ^ nat t < 2 ^ 32"
    using clz_lookup [of c] c(2) by (simp_all add: t_def)
  have "countLeadingZeros32 a = u + t"
    by (simp add: countLeadingZeros32_def t_def c_def u_def b_def s_def)
  moreover have "uint c * 2 ^ nat t = uint a * 2 ^ nat (u + t)"
    using s t(1) by (auto simp: b c nat_add_distrib power_add)
  ultimately show ?thesis using False t s by auto
qed

lemma clz64_bounds:
  "if a = 0 then countLeadingZeros64 a = 64
   else 0 \<le> countLeadingZeros64 a \<and> countLeadingZeros64 a < 64 \<and>
     2 ^ 63 \<le> uint a * 2 ^ nat (countLeadingZeros64 a) \<and> uint a * 2 ^ nat (countLeadingZeros64 a) < 2 ^ 64"
proof (cases "a = 0")
  case True
  have "countLeadingZeros64 0 = 64" by code_simp
  with True show ?thesis by simp
next
  case False
  then have a: "1 \<le> uint a" by (rule uint_pos)
  define d r where "d = (if a < 0x100000000 then c_shl a 32 else a)" and "r = (if a < 0x100000000 then 32 else 0 :: int)"
  define b s where "b = (if d < 0x1000000000000 then c_shl d 16 else d)" and "s = (if d < 0x1000000000000 then r + 16 else r)"
  define c u where "c = (if b < 0x100000000000000 then c_shl b 8 else b)" and "u = (if b < 0x100000000000000 then s + 8 else s)"
  have d: "uint d = uint a * 2 ^ nat r" "2 ^ 32 \<le> uint d"
    using uint_c_shl_exact [of a 32] a by (auto simp: d_def r_def word_less_def not_less)
  have b: "uint b = uint d * 2 ^ nat (s - r)" "2 ^ 48 \<le> uint b"
    using uint_c_shl_exact [of d 16] d(2) by (auto simp: b_def s_def word_less_def not_less)
  have c: "uint c = uint b * 2 ^ nat (u - s)" "2 ^ 56 \<le> uint c"
    using uint_c_shl_exact [of b 8] b(2) by (auto simp: c_def u_def word_less_def not_less)
  have s: "r = 0 \<or> r = 32" "s = r \<or> s = r + 16" "u = s \<or> u = s + 8" by (simp_all add: s_def u_def r_def)
  define t where "t = countLeadingZerosHigh ! unat (c_shr c 56)"
  have t: "0 \<le> t" "t \<le> 7" "2 ^ 63 \<le> uint c * 2 ^ nat t" "uint c * 2 ^ nat t < 2 ^ 64"
    using clz_lookup [of c] c(2) by (simp_all add: t_def)
  have "countLeadingZeros64 a = u + t"
    by (simp add: countLeadingZeros64_def t_def c_def u_def b_def s_def d_def r_def)
  moreover have "uint c * 2 ^ nat t = uint a * 2 ^ nat (u + t)"
    using s t(1) by (auto simp: b c d nat_add_distrib power_add)
  ultimately show ?thesis using False t s by auto
qed

lemma sint_high_neg: "sint z0 < 0 \<longleftrightarrow> 2 ^ 63 \<le> val64 (z0, z1)"
proof -
  have "2 ^ 31 \<le> uint z0 \<longleftrightarrow> 2 ^ 63 \<le> uint z0 * 2 ^ 32 + uint z1"
    using two_digit_iff [of "uint z1" "2 ^ 32" 0 "uint z0" "2 ^ 31"] uint_lt2p [of z1]
    by (simp flip: not_less)
  then show ?thesis by (simp add: val64_def sint_neg_iff)
qed

lemma div_estimate:
  fixes R b b0 bl :: int
  assumes b: "b = b0 * 2 ^ 16 + bl" and bl: "0 \<le> bl" "bl < 2 ^ 16" and b0: "2 ^ 15 \<le> b0"
    and R: "0 \<le> R" "R < b * 2 ^ 16"
  defines "u \<equiv> R div 2 ^ 16"
  defines "est \<equiv> if b0 * 2 ^ 16 \<le> u then 2 ^ 16 - 1 else u div b0"
  shows "R div b \<le> est" "est \<le> R div b + 2" "0 \<le> est" "est < 2 ^ 16"
proof -
  have b': "0 < b" "2 ^ 31 \<le> b" using b b0 bl by simp_all
  have u0: "0 \<le> u" using R by (simp add: u_def pos_imp_zdiv_nonneg_iff)
  define q where "q = R div b"
  have q: "q < 2 ^ 16" "0 \<le> q"
    unfolding q_def using R b' by (auto intro: int_div_lt simp: pos_imp_zdiv_nonneg_iff)
  have qb: "q * b \<le> R" "R < (q + 1) * b"
    using b' by (simp_all add: q_def distrib_right minus_mod_eq_div_mult [symmetric])
  have "q * b0 * 2 ^ 16 \<le> q * b" using q bl b by (simp add: distrib_left)
  with qb have "q * b0 * 2 ^ 16 \<le> R" by simp
  then have "q * b0 \<le> u" unfolding u_def by (metis (no_types, lifting) nonzero_mult_div_cancel_right zdiv_mono1 zero_less_numeral zero_less_power power_not_zero zero_neq_numeral)
  then have lower: "q \<le> u div b0" using zdiv_mono1 [of "q * b0" u b0] b0 by simp
  show low: "R div b \<le> est" using lower q by (simp add: est_def q_def)
  show est0: "0 \<le> est" using low q by (simp add: q_def)
  show est1: "est < 2 ^ 16"
    using int_div_lt [of u b0 "2 ^ 16"] b0 by (simp add: est_def)
  have "u div b0 * b0 \<le> u" using b0 by (simp add: minus_mod_eq_div_mult [symmetric])
  then have "est * b0 \<le> u" using b0 by (auto simp: est_def)
  then have "est * b0 * 2 ^ 16 \<le> u * 2 ^ 16" by simp
  also have "\<dots> \<le> R" by (simp add: u_def minus_mod_eq_div_mult [symmetric])
  finally have "est * b \<le> R + est * bl" by (simp add: b distrib_left)
  moreover have "est * bl < 2 ^ (16 + 16)" by (rule mult_less_pow) (use est0 est1 bl in simp_all)
  ultimately have "est * b < (q + 3) * b" using qb(2) b' by (simp add: distrib_right)
  then show "est \<le> R div b + 2" using b' by (simp add: q_def)
qed

lemma estimateDiv64To32_loop_returns:
  assumes "val64 (rem0, rem1) = V mod 2 ^ 64" "- (2 ^ 62) \<le> V" "V < B" "B = uint b * 2 ^ 16" "b \<noteq> 0"
  shows "\<exists>r0 r1. estimateDiv64To32_loop b (c_shr b 16) z rem0 rem1 =
      Some (z + word_of_int (V div B) * 0x10000, r0, r1) \<and> val64 (r0, r1) = V mod B"
  using assms
proof (induction "nat (- (V div B))" arbitrary: V z rem0 rem1 rule: less_induct)
  case less
  have B: "0 < B" "B < 2 ^ 48" using less.prems uint_lt2p [of b] uint_pos [of b] by simp_all
  have neg: "sint rem0 < 0 \<longleftrightarrow> V < 0"
    unfolding sint_high_neg [of rem0 rem1] less.prems(1)
    using int_mod_if_neg [of "2 ^ 64" V] less.prems(2,3) B by auto
  show ?case
  proof (cases "V < 0")
    case False
    then have "V div B = 0" "V mod B = V" "V mod 2 ^ 64 = V" using less.prems B by simp_all
    then show ?thesis using neg False less.prems(1)
      by (subst estimateDiv64To32_loop.simps) simp
  next
    case True
    have step: "(V + B) div B = V div B + 1" "(V + B) mod B = V mod B" using B by (simp_all add: div_add_self2)
    have dec: "nat (- ((V + B) div B)) < nat (- (V div B))"
      using True B by (simp add: step) (simp add: neg_imp_zdiv_neg_iff div_neg_pos_less0)
    obtain s0 s1 where s: "add64 rem0 rem1 (c_shr b 16) (c_shl b 16) = (s0, s1)" by fastforce
    have "val64 (c_shr b 16, c_shl b 16) = B"
      using less.prems(4) two_piece_shl [of "2 ^ 16" "2 ^ 16" "uint b"] by (simp add: val64_def uint_c_shr uint_c_shl)
    then have "val64 (s0, s1) = (V + B) mod 2 ^ 64"
      using val64_add64 [of rem0 rem1 "c_shr b 16" "c_shl b 16"] less.prems(1)
      by (simp add: s mod_simps)
    moreover have "- (2 ^ 62) \<le> V + B" "V + B < B" using less.prems True B by simp_all
    ultimately obtain r0 r1 where
      "estimateDiv64To32_loop b (c_shr b 16) (z - 0x10000) s0 s1 =
        Some (z - 0x10000 + word_of_int ((V + B) div B) * 0x10000, r0, r1)" "val64 (r0, r1) = (V + B) mod B"
      using less.hyps [OF dec _ _ _ less.prems(4,5), of s0 s1 "z - 0x10000"] by blast
    then show ?thesis using neg True
      by (subst estimateDiv64To32_loop.simps) (simp add: s step distrib_right)
  qed
qed

lemma low_half_or:
  fixes z :: bits32
  assumes "uint z = x * 2 ^ 16" "uint y < 2 ^ 16"
  shows "uint (z OR y) = uint z + uint y"
proof -
  have "uint z div 2 ^ 16 = x" using assms(1) by simp
  moreover have "uint z mod 2 ^ 32 = uint z" using uint_lt2p [of z] by (intro mod_pos_pos_trivial) simp_all
  ultimately have "uint (push_bit 16 (drop_bit 16 z)) = uint z"
    using assms by (simp add: uint_push_bit uint_drop_bit)
  then have "push_bit 16 (drop_bit 16 z) = z"
    and "uint (drop_bit 16 z) * 2 ^ 16 mod 2 ^ LENGTH(32) = uint z"
    by (simp_all only: word_uint_eq_iff uint_push_bit)
  then show ?thesis using uint_push_or [of y 16 "drop_bit 16 z"] assms(2) by simp
qed

lemma uint_div_est:
  fixes b0 u :: bits32
  assumes "uint b0 < 2 ^ 16"
  shows "uint (if c_shl b0 16 \<le> u then 0xFFFF else u div b0) =
    (if uint b0 * 2 ^ 16 \<le> uint u then 2 ^ 16 - 1 else uint u div uint b0)"
  using uint_c_shl_exact [of b0 16] assms by (simp add: word_le_def uint_div_distrib)

lemma estimateDiv64To32_bounds:
  assumes "2 ^ 31 \<le> uint b" "a0 < b"
  shows "\<exists>q. estimateDiv64To32 a0 a1 b = Some q \<and>
    val64 (a0, a1) div uint b \<le> uint q \<and> uint q \<le> val64 (a0, a1) div uint b + 2"
proof -
  define N where "N = val64 (a0, a1)"
  define B where "B = uint b * 2 ^ 16"
  define b0 where "b0 = c_shr b 16"
  have b0: "uint b0 = uint b div 2 ^ 16" by (simp add: b0_def uint_c_shr)
  have b: "uint b = uint b0 * 2 ^ 16 + uint b mod 2 ^ 16" by (simp add: b0)
  have b0_lt: "uint b0 < 2 ^ 16" unfolding b0 using uint_lt2p [of b] by (intro int_div_lt) simp_all
  have b0_ge: "2 ^ 15 \<le> uint b0" using zdiv_mono1 [OF assms(1), of "2 ^ 16"] by (simp add: b0)
  have ub: "uint b < 2 ^ 32" using uint_lt2p [of b] by simp
  have N: "0 \<le> N" "N < uint b * 2 ^ 32"
    using two_digit_iff [of "uint a1" "2 ^ 32" 0 "uint a0" "uint b"] assms(2) uint_lt2p [of a1]
    by (simp_all add: N_def val64_def word_less_def)
  define R where "R = N div 2 ^ 16"
  have R: "0 \<le> R" "R < uint b * 2 ^ 16" "R div 2 ^ 16 = uint a0" "R div uint b = N div B"
  proof -
    show "0 \<le> R" using N by (simp add: R_def pos_imp_zdiv_nonneg_iff)
    show "R < uint b * 2 ^ 16" unfolding R_def using N by (intro int_div_lt) simp_all
    have "R div 2 ^ 16 = N div (2 ^ 16 * 2 ^ 16)" by (simp only: R_def zdiv_zmult2_eq zero_le_numeral zero_le_power)
    then show "R div 2 ^ 16 = uint a0" using uint_lt2p [of a1] by (simp add: N_def val64_def)
    show "R div uint b = N div B"
      unfolding R_def B_def mult.commute [of "uint b"] by (rule zdiv_zmult2_eq [symmetric]) simp
  qed
  note est1 = div_estimate [OF b _ _ b0_ge R(1,2), unfolded R(3,4)]
  define e1 where "e1 = (if uint b0 * 2 ^ 16 \<le> uint a0 then 2 ^ 16 - 1 else uint a0 div uint b0)"
  have e1: "N div B \<le> e1" "e1 \<le> N div B + 2" "0 \<le> e1" "e1 < 2 ^ 16"
    using est1 by (simp_all add: e1_def)
  define z where "z = (if c_shl b0 16 \<le> a0 then 0xFFFF0000 else c_shl (a0 div b0) 16)"
  have z: "uint z = e1 * 2 ^ 16"
    using uint_div_est [OF b0_lt, of a0] e1(4) uint_c_shl_exact [of "a0 div b0" 16] uint_c_shl_exact [of b0 16] b0_lt
    by (auto simp: z_def e1_def word_le_def uint_div_distrib)
  obtain t0 t1 where t: "mul32To64 b z = (t0, t1)" by fastforce
  obtain r0 r1 where r: "sub64 a0 a1 t0 t1 = (r0, r1)" by fastforce
  define V where "V = N - e1 * B"
  have B: "0 < B" "B < 2 ^ 48" using assms(1) ub by (simp_all add: B_def)
  have vr: "val64 (r0, r1) = V mod 2 ^ 64"
    using val64_sub64 [of a0 a1 t0 t1] val64_mul32To64 [of b z]
    by (simp add: r t N_def V_def B_def z mult.assoc mult.commute mult.left_commute)
  have Vd: "V div B = N div B - e1" "V mod B = N mod B" using B div_mult_self1 [of B N "- e1"] mod_mult_self1 [of N "- e1" B]
    by (simp_all add: V_def)
  have NB: "N = N div B * B + N mod B" "0 \<le> N mod B" "N mod B < B" using B by simp_all
  have "e1 * B \<le> (N div B + 2) * B" "N div B * B \<le> e1 * B" using e1 B by (auto intro: mult_right_mono)
  then have V: "V < B" "- (2 * B) \<le> V"
    using NB unfolding V_def distrib_right by linarith+
  then have V2: "- (2 ^ 62) \<le> V" using B(2) by simp
  have bnz: "b \<noteq> 0" using assms(1) by auto
  obtain s0 s1 where s: "estimateDiv64To32_loop b b0 z r0 r1 =
      Some (z + word_of_int (V div B) * 0x10000, s0, s1)" and vs: "val64 (s0, s1) = N mod B"
    using estimateDiv64To32_loop_returns [OF vr V2 V(1) B_def bnz, of z] unfolding Vd b0_def by blast
  define z' where "z' = z + word_of_int (V div B) * 0x10000"
  have NdB: "0 \<le> N div B" "N div B < 2 ^ 16"
    using N B e1 by (auto simp: pos_imp_zdiv_nonneg_iff)
  have "uint z' = (e1 * 2 ^ 16 + (N div B - e1) * 2 ^ 16) mod 2 ^ 32"
    by (simp add: z'_def Vd uint_word_ariths z uint_word_of_int mod_simps)
  also have "\<dots> = (N div B * 2 ^ 16) mod 2 ^ 32" by (simp add: left_diff_distrib)
  also have "\<dots> = N div B * 2 ^ 16" using NdB by (intro mod_pos_pos_trivial) simp_all
  finally have z': "uint z' = N div B * 2 ^ 16" .
  define u where "u = c_shl s0 16 OR c_shr s1 16"
  have s0: "uint s0 < 2 ^ 16" 
    using vs NB(3) B(2) two_digit_iff [of "uint s1" "2 ^ 32" 0 "uint s0" "2 ^ 16"] uint_lt2p [of s1] by (simp add: val64_def)
  then have u: "uint u = (N mod B) div 2 ^ 16"
    using uint_shl_or_shr [of 16 s0 s1] by (simp add: u_def val64_def flip: vs)
  note est2 = div_estimate [OF b _ _ b0_ge NB(2), folded u B_def, OF _ _ NB(3)]
  define e where "e = (if c_shl b0 16 \<le> u then 0xFFFF else u div b0)"
  have e: "(N mod B) div uint b \<le> uint e" "uint e \<le> (N mod B) div uint b + 2" "uint e < 2 ^ 16"
    using est2 by (simp_all only: e_def uint_div_est [OF b0_lt]) simp_all
  have "estimateDiv64To32 a0 a1 b = Some (z' OR e)"
    using assms(2) unfolding estimateDiv64To32_def b0_def [symmetric] Let_def z_def [symmetric] t prod.case r s
    by (simp only: bind.bind_lunit prod.case not_less [symmetric] if_False not_True_eq_False z'_def [symmetric]
        e_def [symmetric] u_def [symmetric])
      (simp add: e_def not_less u_def)
  moreover have "uint (z' OR e) = N div B * 2 ^ 16 + uint e"
    using low_half_or [OF z' e(3)] z' by simp
  moreover have "N div uint b = N div B * 2 ^ 16 + (N mod B) div uint b"
  proof -
    have "N = (N div B * 2 ^ 16) * uint b + N mod B" using NB(1) by (simp add: B_def mult.assoc mult.commute)
    then show ?thesis using assms(1) by (metis (no_types, lifting) add.commute div_mult_self3 not_one_le_zero zero_less_numeral zero_less_power not_le mult.commute)
  qed
  ultimately show ?thesis using e by (auto simp: N_def)
qed

lemma clz32_word:
  assumes "z \<noteq> 0" "uint z < 2 ^ m" "m \<le> 32"
  shows "32 - int m \<le> countLeadingZeros32 z" "countLeadingZeros32 z < 32"
    "2 ^ 31 \<le> uint z * 2 ^ nat (countLeadingZeros32 z)"
    "uint z * 2 ^ nat (countLeadingZeros32 z) < 2 ^ 32"
proof -
  note b = clz32_bounds [of z]
  show 1: "countLeadingZeros32 z < 32"
    "2 ^ 31 \<le> uint z * 2 ^ nat (countLeadingZeros32 z)"
    "uint z * 2 ^ nat (countLeadingZeros32 z) < 2 ^ 32" using b assms(1) by simp_all
  show "32 - int m \<le> countLeadingZeros32 z"
  proof (rule ccontr)
    assume *: "\<not> 32 - int m \<le> countLeadingZeros32 z"
    have "uint z * 2 ^ nat (countLeadingZeros32 z) < 2 ^ m * 2 ^ nat (countLeadingZeros32 z)" using assms(2) by simp
    also have "\<dots> = 2 ^ (m + nat (countLeadingZeros32 z))" by (simp add: power_add)
    also have "\<dots> \<le> 2 ^ 31"
    proof (rule power_increasing)
      show "m + nat (countLeadingZeros32 z) \<le> 31" using * b assms(1) by simp linarith
    qed simp
    finally show False using 1(2) by simp
  qed
qed

lemma uint_c_shl_clz:
  assumes "z \<noteq> 0" "0 \<le> c" "c \<le> countLeadingZeros32 z"
  shows "uint (c_shl z c) = uint z * 2 ^ nat c"
proof -
  have "uint z * 2 ^ nat c \<le> uint z * 2 ^ nat (countLeadingZeros32 z)" using assms by (intro mult_left_mono power_increasing) simp_all
  also have "\<dots> < 2 ^ 32" using clz32_bounds [of z] assms(1) by simp
  finally show ?thesis using assms(2) by (simp add: uint_c_shl)
qed

lemma signed_rem_neg:
  assumes "val64 (rem0, rem1) = V mod 2 ^ 64" "- (2 ^ 62) \<le> V" "V < 2 ^ 62"
  shows "sint rem0 < 0 \<longleftrightarrow> V < 0"
  unfolding sint_high_neg [of rem0 rem1] assms(1) using int_mod_if_neg [of "2 ^ 64" V] assms(2,3) by auto

section \<open>Properties\<close>

text \<open>
  The two-, three- and four-word additions, subtractions, products and left shifts compute the
  integer operation on the value of their pieces, modulo the width of the result; the products are
  exact.
\<close>

theorem multi_word_arithmetic:
  "val64 (add64 a0 a1 b0 b1) = (val64 (a0, a1) + val64 (b0, b1)) mod 2 ^ 64
    \<and> val64 (sub64 a0 a1 b0 b1) = (val64 (a0, a1) - val64 (b0, b1)) mod 2 ^ 64
    \<and> val96 (add96 a0 a1 a2 b0 b1 b2) = (val96 (a0, a1, a2) + val96 (b0, b1, b2)) mod 2 ^ 96
    \<and> val96 (sub96 a0 a1 a2 b0 b1 b2) = (val96 (a0, a1, a2) - val96 (b0, b1, b2)) mod 2 ^ 96
    \<and> val64 (mul32To64 a0 b0) = uint a0 * uint b0
    \<and> val96 (mul64By32To96 a0 a1 b0) = val64 (a0, a1) * uint b0
    \<and> val128 (mul64To128 a0 a1 b0 b1) = val64 (a0, a1) * val64 (b0, b1)"
  by (simp add: val64_add64 val64_sub64 val96_add96 val96_sub96 val64_mul32To64
      val96_mul64By32To96 val128_mul64To128)

text \<open>
  The right shifts by any nonnegative count compute the floor of the shifted value, and the
  jamming ones set the lowest bit when a bit was shifted out.
\<close>

theorem multi_word_right_shifts:
  assumes "0 \<le> count"
  shows "uint (shift32RightJamming a0 count) = jam (uint a0) (nat count)
    \<and> val64 (shift64Right a0 a1 count) = val64 (a0, a1) div 2 ^ nat count
    \<and> val64 (shift64RightJamming a0 a1 count) = jam (val64 (a0, a1)) (nat count)"
  using assms by (simp add: shift32RightJamming_jam val64_shift64Right val64_shift64RightJamming)

theorem multi_word_right_shifts_witness:
  "uint (shift32RightJamming 0x101 4) = 0x11
    \<and> val64 (shift64RightJamming 1 1 36) = 1"
  using multi_word_right_shifts [of 4 "0x101" 0] multi_word_right_shifts [of 36 1 1]
  by (simp add: jam_def val64_def)

text \<open>
  \<open>countLeadingZeros32\<close> and \<open>countLeadingZeros64\<close> return the shift that brings the leading one
  to the top bit, and the width for zero.
\<close>

theorem countLeadingZeros_correct:
  "(if a = 0 then countLeadingZeros32 a = 32
    else 0 \<le> countLeadingZeros32 a \<and> countLeadingZeros32 a < 32 \<and>
      2 ^ 31 \<le> uint a * 2 ^ nat (countLeadingZeros32 a) \<and>
      uint a * 2 ^ nat (countLeadingZeros32 a) < 2 ^ 32)
   \<and> (if b = 0 then countLeadingZeros64 b = 64
    else 0 \<le> countLeadingZeros64 b \<and> countLeadingZeros64 b < 64 \<and>
      2 ^ 63 \<le> uint b * 2 ^ nat (countLeadingZeros64 b) \<and>
      uint b * 2 ^ nat (countLeadingZeros64 b) < 2 ^ 64)"
  using clz32_bounds [of a] clz64_bounds [of b] by blast

end
