(* ===== verification/Float_Rounding.thy ===== *)
theory Float_Rounding
  imports Multi_Word
begin

text \<open>
  The specification the floating-point routines are measured against: the value of a bit pattern,
  correct rounding of a rational number to the nearest pattern, and the relation a significand with
  a sticky bit has to the exact result.  Everything is on integers: magnitudes are in units of the
  least subnormal number, and an exact result is a quotient \<open>N / D\<close>.
\<close>

section \<open>Rounding a quotient to the nearest integer\<close>

text \<open>\<open>rne_div N D\<close> is the integer nearest to \<open>N / D\<close>, the even one of two at the same distance.\<close>

definition rne_div :: "int \<Rightarrow> int \<Rightarrow> int" where
  "rne_div N D =
     (let q = N div D; r = N mod D
      in if D < 2 * r \<or> 2 * r = D \<and> odd q then q + 1 else q)"

text \<open>The quotient with its lowest bit set when the division leaves a remainder.\<close>

definition jam_div :: "int \<Rightarrow> int \<Rightarrow> int" where
  "jam_div N D = (let q = N div D in if N mod D \<noteq> 0 \<and> even q then q + 1 else q)"

text \<open>
  \<open>sticks j z N D\<close>: the integer \<open>z\<close> agrees with the rational \<open>N / D\<close> down to bit \<open>j\<close>, and the bits below
  are zero in both or in neither.  It is what a significand with a sticky bit keeps of the exact
  result: shifts, additions and subtractions of exact multiples preserve it, and rounding above
  bit \<open>j\<close> sees no difference.
\<close>

definition sticks :: "nat \<Rightarrow> int \<Rightarrow> int \<Rightarrow> int \<Rightarrow> bool" where
  "sticks j z N D \<longleftrightarrow>
     z div 2 ^ j = N div (D * 2 ^ j) \<and> (z mod 2 ^ j = 0 \<longleftrightarrow> N mod (D * 2 ^ j) = 0)"

lemma div_mod_split:
  fixes z c :: int
  assumes "z = q * c + r" "0 \<le> r" "r < c"
  shows "z div c = q" "z mod c = r"
  using assms by (simp_all add: div_pos_pos_trivial)

lemma int_split: "0 < c \<Longrightarrow> \<exists>q r. (z::int) = q * c + r \<and> 0 \<le> r \<and> r < c"
  by (metis div_mult_mod_eq pos_mod_bound pos_mod_sign)

lemma carry_lt:
  fixes t k c x :: int
  assumes "t < k" "x < c" "0 \<le> c"
  shows "t * c + x < k * c"
proof -
  have "(t + 1) * c \<le> k * c" using assms by (intro mult_right_mono) simp_all
  then show ?thesis using assms by (simp add: distrib_right)
qed

lemma sticksI:
  assumes "z = q * 2 ^ j + r" "0 \<le> r" "r < 2 ^ j" "N = q * (D * 2 ^ j) + R" "0 \<le> R" "R < D * 2 ^ j"
    "r = 0 \<longleftrightarrow> R = 0"
  shows "sticks j z N D"
  using div_mod_split [OF assms(1-3)] div_mod_split [OF assms(4-6)] assms(7) by (simp add: sticks_def)

lemma sticksE:
  assumes "sticks j z N D" "0 < D"
  obtains q r R where "z = q * 2 ^ j + r" "0 \<le> r" "r < 2 ^ j" "N = q * (D * 2 ^ j) + R" "0 \<le> R" "R < D * 2 ^ j"
    "r = 0 \<longleftrightarrow> R = 0"
proof -
  obtain q r where z: "z = q * 2 ^ j + r" "0 \<le> r" "r < 2 ^ j" using int_split [of "2 ^ j" z] by auto
  obtain Q R where N: "N = Q * (D * 2 ^ j) + R" "0 \<le> R" "R < D * 2 ^ j"
    using int_split [of "D * 2 ^ j" N] assms(2) by auto
  have "q = Q" "r = 0 \<longleftrightarrow> R = 0"
    using assms(1) div_mod_split [OF z] div_mod_split [OF N] by (simp_all add: sticks_def)
  then show thesis using that z N by blast
qed

lemma sticks_exact: assumes "0 < D" shows "sticks j z (z * D) D"
proof -
  obtain q r where z: "z = q * 2 ^ j + r" "0 \<le> r" "r < 2 ^ j" using int_split [of "2 ^ j" z] by auto
  then show ?thesis using assms
    by (intro sticksI [of z q j r _ D "r * D"]) (simp_all add: algebra_simps)
qed

lemma sticks_mono:
  assumes "sticks i z N D" "i \<le> j" "0 < D"
  shows "sticks j z N D"
proof -
  obtain q r R where *: "z = q * 2 ^ i + r" "0 \<le> r" "r < 2 ^ i" "N = q * (D * 2 ^ i) + R" "0 \<le> R" "R < D * 2 ^ i"
    "r = 0 \<longleftrightarrow> R = 0" by (rule sticksE [OF assms(1,3)])
  let ?k = "2 ^ (j - i) :: int"
  obtain p t where t: "q = p * ?k + t" "0 \<le> t" "t < ?k" using int_split [of ?k q] by auto
  have j: "(2::int) ^ j = ?k * 2 ^ i" using assms(2) by (simp flip: power_add)
  show ?thesis
  proof (rule sticksI)
    show "z = p * 2 ^ j + (t * 2 ^ i + r)" "N = p * (D * 2 ^ j) + (t * (D * 2 ^ i) + R)"
      unfolding * t j by (simp_all add: algebra_simps)
    show "t * 2 ^ i + r < 2 ^ j" unfolding j using *(3) t by (intro carry_lt) simp_all
    have "t * (D * 2 ^ i) + R < ?k * (D * 2 ^ i)" using t *(6) assms(3) by (intro carry_lt) simp_all
    then show "t * (D * 2 ^ i) + R < D * 2 ^ j" unfolding j by (simp only: mult.left_commute)
    show "(t * 2 ^ i + r = 0) = (t * (D * 2 ^ i) + R = 0)"
      using t *(2,5,7) assms(3) by (simp add: add_nonneg_eq_0_iff)
  qed (use t * assms(3) in simp_all)
qed

lemma sticks_jam:
  assumes "0 < D" "0 < j"
  shows "sticks j (jam_div N D) N D"
proof -
  obtain q R where N: "N = q * D + R" "0 \<le> R" "R < D" using int_split [of D N] assms(1) by auto
  obtain p t where q: "q = p * 2 + t" "0 \<le> t" "t < 2" using int_split [of 2 q] by auto
  then have t: "t = 0 \<or> t = 1" by auto
  have "jam_div N D = p * 2 ^ 1 + (if R = 0 then t else 1)"
    using t by (auto simp: jam_div_def Let_def div_mod_split [OF N] q(1))
  moreover have "N = p * (D * 2 ^ 1) + (t * D + R)" unfolding N(1) q(1) by (simp add: algebra_simps)
  moreover have "t * D + R < D * 2 ^ 1" using carry_lt [of t 2 R D] N q by (simp add: mult.commute)
  moreover have "0 \<le> t * D + R" using q N assms(1) by simp
  ultimately have "sticks 1 (jam_div N D) N D"
    using t N(2) assms(1) by (intro sticksI [of _ p 1 "if R = 0 then t else 1" _ D "t * D + R"]) auto
  then show ?thesis by (rule sticks_mono) (use assms in simp_all)
qed

lemma sticks_mult:
  assumes "sticks j z N D" "0 < D"
  shows "sticks (j + i) (z * 2 ^ i) (N * 2 ^ i) D"
proof -
  obtain q r R where *: "z = q * 2 ^ j + r" "0 \<le> r" "r < 2 ^ j" "N = q * (D * 2 ^ j) + R" "0 \<le> R" "R < D * 2 ^ j"
    "r = 0 \<longleftrightarrow> R = 0" by (rule sticksE [OF assms])
  show ?thesis
  proof (rule sticksI)
    show "z * 2 ^ i = q * 2 ^ (j + i) + r * 2 ^ i" "N * 2 ^ i = q * (D * 2 ^ (j + i)) + R * 2 ^ i"
      unfolding * power_add by (simp_all only: distrib_right mult.assoc)
    show "r * 2 ^ i < 2 ^ (j + i)" "R * 2 ^ i < D * 2 ^ (j + i)"
      unfolding power_add mult.assoc [symmetric] using *(3,6) by (auto intro: mult_strict_right_mono)
    show "(r * 2 ^ i = 0) = (R * 2 ^ i = 0)" using *(7) by simp
  qed (use *(2,5) in simp_all)
qed

lemma sticks_trans:
  assumes "sticks j y z (2 ^ n)" "sticks i z N D" "i \<le> j + n" "0 < D"
  shows "sticks j y N (D * 2 ^ n)"
proof -
  have "sticks (n + j) z N D" by (rule sticks_mono [OF assms(2)]) (use assms(3,4) in simp_all)
  then show ?thesis using assms(1) by (simp add: sticks_def power_add mult.assoc)
qed

lemma sticks_jam_shift:
  "sticks i z N D \<Longrightarrow> i \<le> j + n \<Longrightarrow> 0 < D \<Longrightarrow> 0 < j \<Longrightarrow> sticks j (jam_div z (2 ^ n)) N (D * 2 ^ n)"
  by (rule sticks_trans [OF sticks_jam]) simp_all

lemma sticks_add:
  assumes "sticks j z N D" "0 < D" "2 ^ j dvd A"
  shows "sticks j (A + z) (A * D + N) D"
proof -
  obtain q r R where *: "z = q * 2 ^ j + r" "0 \<le> r" "r < 2 ^ j" "N = q * (D * 2 ^ j) + R" "0 \<le> R" "R < D * 2 ^ j"
    "r = 0 \<longleftrightarrow> R = 0" by (rule sticksE [OF assms(1,2)])
  obtain a where A: "A = 2 ^ j * a" using assms(3) by blast
  show ?thesis
    by (rule sticksI [of _ "a + q" _ r _ _ R]) (use * A in \<open>simp_all add: algebra_simps\<close>)
qed

lemma sticks_diff:
  assumes "sticks j z N D" "0 < D" "2 ^ j dvd A"
  shows "sticks j (A - z) (A * D - N) D"
proof -
  obtain q r R where *: "z = q * 2 ^ j + r" "0 \<le> r" "r < 2 ^ j" "N = q * (D * 2 ^ j) + R" "0 \<le> R" "R < D * 2 ^ j"
    "r = 0 \<longleftrightarrow> R = 0" by (rule sticksE [OF assms(1,2)])
  obtain a where A: "A = 2 ^ j * a" using assms(3) by blast
  show ?thesis
  proof (cases "r = 0")
    case True
    then show ?thesis
      by (intro sticksI [of _ "a - q" _ 0 _ _ 0]) (use * A assms(2) in \<open>simp_all add: algebra_simps\<close>)
  next
    case False
    then show ?thesis
      by (intro sticksI [of _ "a - q - 1" _ "2 ^ j - r" _ _ "D * 2 ^ j - R"])
        (use * A assms(2) in \<open>simp_all add: algebra_simps\<close>)
  qed
qed

lemma sticks_scale: "0 < c \<Longrightarrow> sticks j z (N * c) (D * c) \<longleftrightarrow> sticks j z N D"
proof -
  assume c: "0 < c"
  have "N * c div (D * c * 2 ^ j) = N div (D * 2 ^ j)" "N * c mod (D * c * 2 ^ j) = N mod (D * 2 ^ j) * c"
    unfolding mult.assoc [of D] mult.commute [of c] unfolding mult.assoc [symmetric] using c
    by (simp_all add: mult_mod_left)
  then show ?thesis using c by (simp add: sticks_def)
qed

lemma le_div_iff_mult_le: "0 < c \<Longrightarrow> x \<le> y div c \<longleftrightarrow> x * c \<le> (y::int)"
proof
  assume "0 < c" "x \<le> y div c"
  then have "x * c \<le> y div c * c" by (simp add: mult_right_mono)
  also have "\<dots> \<le> y" using \<open>0 < c\<close> by (simp add: minus_mod_eq_div_mult [symmetric])
  finally show "x * c \<le> y" .
next
  assume "0 < c" "x * c \<le> y"
  then show "x \<le> y div c" using zdiv_mono1 [of "x * c" y c] by simp
qed

lemma sticks_le_iff:
  assumes "sticks j z N D" "0 < D" "j \<le> m"
  shows "2 ^ m \<le> z \<longleftrightarrow> D * 2 ^ m \<le> N"
proof -
  have m: "(2::int) ^ m = 2 ^ (m - j) * 2 ^ j" using assms(3) by (simp flip: power_add)
  have "2 ^ m \<le> z \<longleftrightarrow> 2 ^ (m - j) \<le> z div 2 ^ j" by (simp add: le_div_iff_mult_le m)
  also have "\<dots> \<longleftrightarrow> 2 ^ (m - j) \<le> N div (D * 2 ^ j)" using assms(1) by (simp add: sticks_def)
  also have "\<dots> \<longleftrightarrow> D * 2 ^ m \<le> N" using assms(2) by (simp add: le_div_iff_mult_le m mult.left_commute)
  finally show ?thesis .
qed

lemma rne_div_scale: "0 < c \<Longrightarrow> rne_div (N * c) (D * c) = rne_div N D"
proof -
  assume c: "0 < c"
  have "N * c div (D * c) = N div D" "N * c mod (D * c) = N mod D * c"
    using c by (simp_all add: mult_mod_left)
  moreover have "D * c < 2 * (N mod D * c) \<longleftrightarrow> D < 2 * (N mod D)" "2 * (N mod D * c) = D * c \<longleftrightarrow> 2 * (N mod D) = D"
    using c by (simp_all flip: mult.assoc)
  ultimately show ?thesis by (simp only: rne_div_def Let_def)
qed

lemma double_cmp: "2 * x < 2 * y \<longleftrightarrow> x < y" "2 * x = 2 * y \<longleftrightarrow> x = y" for x y :: int
  by simp_all

lemma half_cmp:
  fixes t r h c :: int
  assumes "0 \<le> r" "r < c"
  shows "h * c < t * c + r \<longleftrightarrow> h < t \<or> h = t \<and> 0 < r" "t * c + r = h * c \<longleftrightarrow> h = t \<and> r = 0"
proof -
  show 1: "h * c < t * c + r \<longleftrightarrow> h < t \<or> h = t \<and> 0 < r"
    using two_digit_iff [of 0 c r h t] assms by simp
  have 2: "t * c + r < h * c \<longleftrightarrow> t < h"
    using two_digit_iff [of r c 0 t h] assms by auto
  show "t * c + r = h * c \<longleftrightarrow> h = t \<and> r = 0"
    using 1 2 assms by (auto simp: order.order_iff_strict)
qed

lemma sticks_rne:
  assumes "sticks j z N D" "0 < D" "j < m"
  shows "rne_div z (2 ^ m) = rne_div N (D * 2 ^ m)"
proof -
  obtain q r R where *: "z = q * 2 ^ j + r" "0 \<le> r" "r < 2 ^ j" "N = q * (D * 2 ^ j) + R" "0 \<le> R" "R < D * 2 ^ j"
    "r = 0 \<longleftrightarrow> R = 0" by (rule sticksE [OF assms(1,2)])
  let ?h = "2 ^ (m - j - 1) :: int"
  have m: "(2::int) ^ m = 2 * ?h * 2 ^ j" using assms(3) by (simp flip: power_add power_Suc)
  obtain p t where t: "q = p * (2 * ?h) + t" "0 \<le> t" "t < 2 * ?h" using int_split [of "2 * ?h" q] by auto
  have lt: "t * c + x < 2 * ?h * c" if "0 \<le> x" "x < c" for x c
    using t that by (intro carry_lt) simp_all
  have z: "z div 2 ^ m = p" "z mod 2 ^ m = t * 2 ^ j + r"
    using div_mod_split [of z p "2 ^ m" "t * 2 ^ j + r"] * t lt [of r "2 ^ j"] m
    by (simp_all add: algebra_simps)
  have N: "N div (D * 2 ^ m) = p" "N mod (D * 2 ^ m) = t * (D * 2 ^ j) + R"
    using div_mod_split [of N p "D * 2 ^ m" "t * (D * 2 ^ j) + R"] * t lt [of R "D * 2 ^ j"] m assms(2)
    by (simp_all add: algebra_simps)
  have rR: "0 < r \<longleftrightarrow> 0 < R" using *(2,5,7) by linarith
  note hz = half_cmp [OF *(2,3), where h = ?h and t = t] and hN = half_cmp [OF *(5,6), where h = ?h and t = t]
  have "2 ^ m < 2 * (t * 2 ^ j + r) \<longleftrightarrow> D * 2 ^ m < 2 * (t * (D * 2 ^ j) + R)"
    "2 * (t * 2 ^ j + r) = 2 ^ m \<longleftrightarrow> 2 * (t * (D * 2 ^ j) + R) = D * 2 ^ m"
  proof -
    have "2 ^ m < 2 * (t * 2 ^ j + r) \<longleftrightarrow> ?h * 2 ^ j < t * 2 ^ j + r"
      "2 * (t * 2 ^ j + r) = 2 ^ m \<longleftrightarrow> t * 2 ^ j + r = ?h * 2 ^ j"
      unfolding m mult.assoc [of 2] by (simp_all only: double_cmp)
    moreover have "D * 2 ^ m < 2 * (t * (D * 2 ^ j) + R) \<longleftrightarrow> ?h * (D * 2 ^ j) < t * (D * 2 ^ j) + R"
      "2 * (t * (D * 2 ^ j) + R) = D * 2 ^ m \<longleftrightarrow> t * (D * 2 ^ j) + R = ?h * (D * 2 ^ j)"
      unfolding m mult.left_commute [of D] mult.assoc [of 2] by (simp_all only: double_cmp)
    ultimately show "2 ^ m < 2 * (t * 2 ^ j + r) \<longleftrightarrow> D * 2 ^ m < 2 * (t * (D * 2 ^ j) + R)"
      "2 * (t * 2 ^ j + r) = 2 ^ m \<longleftrightarrow> 2 * (t * (D * 2 ^ j) + R) = D * 2 ^ m"
      by (simp_all only: hz hN rR *(7))
  qed
  then show ?thesis by (simp only: rne_div_def Let_def z N)
qed

lemma nearer_half:
  fixes x y N E :: int
  assumes "2 * \<bar>N - x\<bar> \<le> E" "x + E \<le> y \<or> y \<le> x - E"
  shows "\<bar>x - N\<bar> \<le> \<bar>y - N\<bar>" "\<bar>x - N\<bar> = \<bar>y - N\<bar> \<Longrightarrow> 2 * \<bar>N - x\<bar> = E"
  using assms by arith+

lemma rne_div_half:
  assumes "0 < D"
  shows "2 * \<bar>N - rne_div N D * D\<bar> \<le> D" "2 * \<bar>N - rne_div N D * D\<bar> = D \<Longrightarrow> even (rne_div N D)"
proof -
  obtain q r where N: "N = q * D + r" "0 \<le> r" "r < D" using int_split [OF assms] by blast
  have e: "rne_div N D = (if D < 2 * r \<or> 2 * r = D \<and> odd q then q + 1 else q)"
    by (simp add: rne_div_def div_mod_split [OF N])
  have "N - rne_div N D * D = (if D < 2 * r \<or> 2 * r = D \<and> odd q then r - D else r)"
    unfolding e by (simp add: N(1) distrib_right)
  then show "2 * \<bar>N - rne_div N D * D\<bar> \<le> D" "2 * \<bar>N - rne_div N D * D\<bar> = D \<Longrightarrow> even (rne_div N D)"
    unfolding e using N(2,3) by (auto split: if_splits)
qed

lemma rne_div_ge: "0 < D \<Longrightarrow> A * D \<le> N \<Longrightarrow> A \<le> rne_div N D"
  using zdiv_mono1 [of "A * D" N D] by (simp add: rne_div_def Let_def)

lemma rne_div_le:
  assumes "0 < D" "N \<le> A * D"
  shows "rne_div N D \<le> A"
proof -
  obtain q r where N: "N = q * D + r" "0 \<le> r" "r < D" using int_split [OF assms(1)] by blast
  have "q < A \<or> q = A \<and> r = 0"
    using two_digit_iff [of r D 0 q A] half_cmp(2) [of r D q A] assms N by (auto simp: order.order_iff_strict)
  then show ?thesis using assms(1) by (auto simp: rne_div_def Let_def div_mod_split [OF N])
qed

section \<open>The value of a floating-point bit pattern\<close>

text \<open>
  \<open>fval p M\<close> is the magnitude of the pattern \<open>M\<close> (exponent field above \<open>p\<close> fraction bits) in units of
  the least subnormal number.
\<close>

definition fval :: "nat \<Rightarrow> int \<Rightarrow> int" where
  "fval p M = (if M < 2 ^ p then M else (2 ^ p + M mod 2 ^ p) * 2 ^ nat (M div 2 ^ p - 1))"

lemma fval_binade:
  assumes "2 ^ p \<le> m" "m \<le> 2 ^ (p + 1)"
  shows "fval p (int k * 2 ^ p + m) = m * 2 ^ k"
proof (cases "m = 2 ^ (p + 1)")
  case True
  then have "int k * 2 ^ p + m = (int k + 2) * 2 ^ p" by (simp add: distrib_right)
  moreover have "\<not> (int k + 2) * 2 ^ p < 2 ^ p" by (simp add: not_less)
  ultimately have "fval p (int k * 2 ^ p + m) = 2 ^ p * 2 ^ nat (int k + 1)" by (simp add: fval_def)
  also have "nat (int k + 1) = Suc k" by simp
  finally show ?thesis using True by simp
next
  case False
  have e: "int k * 2 ^ p + m = (int k + 1) * 2 ^ p + (m - 2 ^ p)" by (simp add: distrib_right)
  have "0 \<le> m - 2 ^ p" "m - 2 ^ p < 2 ^ p" using assms False by simp_all
  note dm = div_mod_split [OF e this]
  have "0 \<le> int k * 2 ^ p" by simp
  then have "\<not> int k * 2 ^ p + m < 2 ^ p" using assms by linarith
  then show ?thesis unfolding fval_def dm by simp
qed

lemma fval_small: "M < 2 ^ (p + 1) \<Longrightarrow> fval p M = M"
  using fval_binade [of p M 0] by (cases "M < 2 ^ p") (simp_all add: fval_def)

lemma binade_cases:
  assumes "0 \<le> M"
  obtains "M < 2 ^ p" | k m where "M = int k * 2 ^ p + m" "2 ^ p \<le> m" "m < 2 ^ (p + 1)"
proof (cases "M < 2 ^ p")
  case False
  obtain q r where M: "M = q * 2 ^ p + r" "0 \<le> r" "r < 2 ^ p" using int_split [of "2 ^ p" M] by auto
  have "1 \<le> q" using False M le_div_iff_mult_le [of "2 ^ p" 1 M] div_mod_split [OF M] by simp
  then have "M = int (nat (q - 1)) * 2 ^ p + (2 ^ p + r)" using M by (simp add: left_diff_distrib)
  then show thesis by (rule that(2)) (use M in simp_all)
qed (use that in blast)

lemma fval_step:
  assumes "0 \<le> M"
  shows "fval p M < fval p (M + 1)"
  using assms
proof (cases M rule: binade_cases [where p = p])
  case 1
  moreover have "0 < (2::int) ^ p" "(2::int) ^ (p + 1) = 2 * 2 ^ p" by simp_all
  ultimately have "M < 2 ^ (p + 1)" "M + 1 < 2 ^ (p + 1)" by linarith+
  then show ?thesis by (simp only: fval_small)
next
  case (2 k m)
  then have "fval p M = m * 2 ^ k" "fval p (M + 1) = (m + 1) * 2 ^ k"
    using fval_binade [of p m k] fval_binade [of p "m + 1" k] by (simp_all add: add.assoc)
  then show ?thesis by (simp add: distrib_right)
qed

lemma fval_mono_add: "0 \<le> M \<Longrightarrow> fval p M + int n \<le> fval p (M + int n)"
proof (induction n)
  case (Suc n)
  then show ?case using fval_step [of "M + int n" p] by (simp add: add.commute add.left_commute)
qed simp

lemma fval_less_iff: "0 \<le> M \<Longrightarrow> 0 \<le> M' \<Longrightarrow> fval p M < fval p M' \<longleftrightarrow> M < M'"
proof -
  have *: "fval p A < fval p B" if "0 \<le> A" "A < B" for A B
    using fval_mono_add [OF that(1), of p "nat (B - A)"] that(2) by simp
  assume "0 \<le> M" "0 \<le> M'"
  then show ?thesis using * [of M M'] * [of M' M] by (cases M M' rule: linorder_cases) auto
qed

lemma fval_nonneg: "0 \<le> M \<Longrightarrow> 0 \<le> fval p M"
  using fval_mono_add [of 0 p "nat M"] by (simp add: fval_def)

section \<open>Rounding a rational number to a format\<close>

text \<open>
  \<open>round_mag p N D\<close> is the pattern of the nearest value of a format with \<open>p\<close> fraction bits and an
  unbounded exponent to \<open>N / D\<close>: one step of the recursion per binade above the first two.
\<close>

function round_mag :: "nat \<Rightarrow> int \<Rightarrow> int \<Rightarrow> int" where
  "round_mag p N D =
     (if N < 2 ^ (p + 1) * D \<or> D \<le> 0 then rne_div N D else 2 ^ p + round_mag p N (2 * D))"
  by pat_completeness auto
termination
proof (relation "measure (\<lambda>(p, N, D). nat (N - D))")
  fix p :: nat and N D :: int
  assume "\<not> (N < 2 ^ (p + 1) * D \<or> D \<le> 0)"
  then have "2 ^ (p + 1) * D \<le> N" "0 < D" by simp_all
  moreover have "1 < (2::int) ^ (p + 1)" by (rule one_less_power) simp_all
  then have "D < 2 ^ (p + 1) * D" using mult_strict_right_mono [of 1 "2 ^ (p + 1)" D] \<open>0 < D\<close> by simp
  ultimately have "D < N" by linarith
  with \<open>0 < D\<close> show "((p, N, 2 * D), p, N, D) \<in> measure (\<lambda>(p, N, D). nat (N - D))" by simp
qed simp

declare round_mag.simps [simp del]

lemma round_mag_exp:
  assumes "0 < D" "k = 0 \<or> 2 ^ (p + k) * D \<le> N" "N < 2 ^ (p + 1 + k) * D"
  shows "round_mag p N D = int k * 2 ^ p + rne_div N (D * 2 ^ k)"
  using assms
proof (induction k arbitrary: D)
  case 0
  then show ?case by (subst round_mag.simps) simp
next
  case (Suc k)
  have "2 ^ (p + 1) * D \<le> 2 ^ (p + 1 + k) * D" using Suc.prems(1) by (intro mult_right_mono power_increasing) simp_all
  also have "p + 1 + k = p + Suc k" by simp
  finally have ge: "\<not> (N < 2 ^ (p + 1) * D \<or> D \<le> 0)" using Suc.prems(1,2) by linarith
  have e: "2 ^ (p + Suc k) * D = 2 ^ (p + k) * (2 * D)" "2 ^ (p + 1 + Suc k) * D = 2 ^ (p + 1 + k) * (2 * D)"
    "D * 2 ^ Suc k = 2 * D * 2 ^ k" by simp_all
  have "round_mag p N D = 2 ^ p + round_mag p N (2 * D)"
    by (subst round_mag.simps) (simp only: ge if_False)
  also have "round_mag p N (2 * D) = int k * 2 ^ p + rne_div N (2 * D * 2 ^ k)"
    using Suc.prems unfolding e by (intro Suc.IH) simp_all
  finally show ?case unfolding e by (simp add: distrib_right)
qed

lemma round_mag_cases:
  fixes N D :: int
  assumes "0 < D" "0 \<le> N"
  obtains k where "k = 0 \<or> 2 ^ (p + k) * D \<le> N" "N < 2 ^ (p + 1 + k) * D"
proof -
  have "N < 2 ^ (p + 1 + nat N) * D"
  proof -
    have "N < 2 ^ nat N" using less_exp [of "nat N"] assms(2) by (metis int_nat_eq of_nat_less_iff of_nat_numeral of_nat_power)
    also have "\<dots> \<le> 2 ^ (p + 1 + nat N) * 1" by (simp only: mult_1_right) (intro power_increasing, simp_all)
    also have "\<dots> \<le> 2 ^ (p + 1 + nat N) * D" using assms(1) by (intro mult_left_mono) simp_all
    finally show ?thesis .
  qed
  then have ex: "\<exists>k. N < 2 ^ (p + 1 + k) * D" by blast
  define k where "k = (LEAST k. N < 2 ^ (p + 1 + k) * D)"
  have 1: "N < 2 ^ (p + 1 + k) * D" unfolding k_def by (rule LeastI_ex [OF ex])
  have "k = 0 \<or> 2 ^ (p + k) * D \<le> N"
  proof (cases k)
    case (Suc i)
    then have "\<not> N < 2 ^ (p + 1 + i) * D" unfolding k_def using not_less_Least by (metis lessI)
    then show ?thesis using Suc by simp
  qed simp
  then show thesis using that 1 by blast
qed

text \<open>The neighbours of a value inside a binade.\<close>

lemma round_mag_nonneg:
  assumes "0 < D" "0 \<le> N"
  shows "0 \<le> round_mag p N D"
proof -
  obtain k where k: "k = 0 \<or> 2 ^ (p + k) * D \<le> N" "N < 2 ^ (p + 1 + k) * D"
    by (rule round_mag_cases [OF assms, where p = p]) blast
  have "0 \<le> rne_div N (D * 2 ^ k)" using assms by (intro rne_div_ge) simp_all
  then show ?thesis using round_mag_exp [OF assms(1) k] by simp
qed

lemma fval_neighbours:
  assumes "k = 0 \<or> 2 ^ p \<le> m" "m \<le> 2 ^ (p + 1)"
  shows "fval p (int k * 2 ^ p + m) = m * 2 ^ k"
    and "(m + 1) * 2 ^ k \<le> fval p (int k * 2 ^ p + m + 1)"
    and "k = 0 \<or> 2 ^ p < m \<Longrightarrow> fval p (int k * 2 ^ p + m - 1) = (m - 1) * 2 ^ k"
proof -
  have in_binade: "fval p (int k * 2 ^ p + n) = n * 2 ^ k" if "k = 0 \<or> 2 ^ p \<le> n" "n \<le> 2 ^ (p + 1)" for n
    using that fval_binade [of p n k] by (cases "2 ^ p \<le> n") (simp, simp add: fval_def)
  then show "fval p (int k * 2 ^ p + m) = m * 2 ^ k" using assms by blast
  show "fval p (int k * 2 ^ p + m - 1) = (m - 1) * 2 ^ k" if "k = 0 \<or> 2 ^ p < m"
    using in_binade [of "m - 1"] that assms(2) by (auto simp: add_diff_eq)
  show "(m + 1) * 2 ^ k \<le> fval p (int k * 2 ^ p + m + 1)"
  proof (cases "m = 2 ^ (p + 1)")
    case True
    have "2 ^ p + 1 \<le> (2::int) ^ (p + 1)" by simp
    then have "fval p (int (Suc k) * 2 ^ p + (2 ^ p + 1)) = (2 ^ p + 1) * 2 ^ Suc k"
      by (intro fval_binade) simp_all
    then show ?thesis by (simp add: True algebra_simps)
  next
    case False
    then show ?thesis using in_binade [of "m + 1"] assms by (auto simp: add.assoc)
  qed
qed

text \<open>Where the patterns other than the rounded one lie.\<close>

lemma round_mag_others:
  assumes "0 < D" "0 \<le> M" "0 \<le> R" and R: "R = int k * 2 ^ p + m" and m: "m \<le> 2 ^ (p + 1)"
    and lower: "k = 0 \<or> 2 ^ p \<le> m \<and> 2 ^ p * (D * 2 ^ k) \<le> N"
  shows "M = R \<or> m * (D * 2 ^ k) + D * 2 ^ k \<le> fval p M * D \<or> fval p M * D \<le> m * (D * 2 ^ k) - D * 2 ^ k
    \<or> fval p M * D < m * (D * 2 ^ k) \<and> m * (D * 2 ^ k) \<le> N"
proof (cases M R rule: linorder_cases)
  have "k = 0 \<or> 2 ^ p \<le> m" using lower by blast
  note nb = fval_neighbours [OF this m, folded R]
  {
    case greater
    then have "fval p (R + 1) \<le> fval p M"
      using assms(2,3) fval_less_iff [of M "R + 1" p] by (simp flip: not_less)
    then have "(m + 1) * 2 ^ k * D \<le> fval p M * D" using nb(2) assms(1) by (intro mult_right_mono) simp_all
    then show ?thesis by (simp add: algebra_simps)
  next
    case less
    show ?thesis
    proof (cases "k = 0 \<or> 2 ^ p < m")
      case True
      have "fval p M \<le> fval p (R - 1)"
        using less assms(2) fval_less_iff [of "R - 1" M p] by (simp flip: not_less)
      then have "fval p M * D \<le> (m - 1) * 2 ^ k * D" using nb(3) [OF True] assms(1) by (simp add: mult_right_mono)
      then show ?thesis by (simp add: algebra_simps)
    next
      case False
      then have "m = 2 ^ p" "2 ^ p * (D * 2 ^ k) \<le> N" using lower by auto
      moreover have "fval p M < m * 2 ^ k" using less assms(2,3) nb(1) fval_less_iff [of M R p] by simp
      then have "fval p M * D < m * 2 ^ k * D" using assms(1) by simp
      ultimately show ?thesis by (simp add: mult.commute mult.left_commute)
    qed
  }
qed simp

lemma round_mag_nearest:
  assumes "0 < D" "0 \<le> N" "0 < p" "0 \<le> M"
  shows "\<bar>fval p (round_mag p N D) * D - N\<bar> \<le> \<bar>fval p M * D - N\<bar>
    \<and> (M \<noteq> round_mag p N D \<and> \<bar>fval p (round_mag p N D) * D - N\<bar> = \<bar>fval p M * D - N\<bar>
       \<longrightarrow> even (round_mag p N D))"
proof -
  obtain k where k: "k = 0 \<or> 2 ^ (p + k) * D \<le> N" "N < 2 ^ (p + 1 + k) * D"
    by (rule round_mag_cases [OF assms(1,2)])
  let ?E = "D * 2 ^ k"
  define m R where "m = rne_div N ?E" and "R = int k * 2 ^ p + m"
  have E: "0 < ?E" using assms(1) by simp
  have R: "round_mag p N D = R" unfolding R_def m_def by (rule round_mag_exp [OF assms(1) k])
  have pw: "2 ^ (p + 1 + k) * D = 2 ^ (p + 1) * ?E" "2 ^ (p + k) * D = 2 ^ p * ?E" by (simp_all add: power_add)
  have m_le: "m \<le> 2 ^ (p + 1)" unfolding m_def using k(2) by (intro rne_div_le [OF E]) (simp only: pw)
  have m_ge: "k = 0 \<or> 2 ^ p \<le> m \<and> 2 ^ p * ?E \<le> N"
    unfolding m_def using k(1) rne_div_ge [OF E, of "2 ^ p" N] by (auto simp only: pw)
  have "0 \<le> m" unfolding m_def using rne_div_ge [OF E, of 0 N] assms(2) by simp
  then have "0 \<le> R" by (simp add: R_def)
  note others = round_mag_others [OF assms(1,4) this R_def m_le m_ge]
  have half: "2 * \<bar>N - m * ?E\<bar> \<le> ?E" "2 * \<bar>N - m * ?E\<bar> = ?E \<Longrightarrow> even m"
    unfolding m_def by (rule rne_div_half [OF E])+
  have fR: "fval p R * D = m * ?E" "even R \<longleftrightarrow> even m"
    using fval_neighbours(1) [of k p m] m_ge m_le assms(3) by (auto simp: R_def)
  note near = nearer_half [OF half(1), of "fval p M * D"]
  consider "M = R" | "m * ?E + ?E \<le> fval p M * D \<or> fval p M * D \<le> m * ?E - ?E"
    | "fval p M * D < m * ?E" "m * ?E \<le> N" using others by blast
  then show ?thesis
  proof cases
    case 1
    then show ?thesis by (simp add: R)
  next
    case 2
    then show ?thesis unfolding R fR using near half(2) by blast
  next
    case 3
    then show ?thesis unfolding R fR by linarith
  qed
qed

lemma jam_eq: "jam x n = jam_div x (2 ^ n)"
  by (simp add: jam_def jam_div_def Let_def)

section \<open>Significands with a sticky bit\<close>

lemma sticks_cross:
  assumes "sticks j x N D" "0 < D" "0 < D'" "N * D' = N' * D"
  shows "sticks j x N' D'"
proof -
  have "sticks j x (N' * D) (D' * D)"
    using sticks_scale [OF assms(3), of j x N D] assms(1,4) by (simp add: mult.commute)
  then show ?thesis using sticks_scale [OF assms(2), of j x N' D'] by simp
qed

lemma pow2_cross:
  fixes x y :: int
  assumes "x * 2 ^ a = y * 2 ^ b" "c + b = d + a"
  shows "x * 2 ^ c = y * 2 ^ d"
proof -
  have "x * 2 ^ c * 2 ^ (a + b) = x * 2 ^ a * 2 ^ (c + b)" by (simp add: power_add)
  also have "\<dots> = y * 2 ^ d * 2 ^ (a + b)" by (simp add: assms power_add)
  finally show ?thesis by simp
qed

(* normalize *)

lemma pow2_cancel_eq:
  fixes x y :: int
  assumes "x * 2 ^ k = y * 2 ^ k"
  shows "x = y"
  using assms by simp

lemma jam_div_le:
  assumes "0 \<le> x" "x < 2 ^ m" "0 < m"
  shows "0 \<le> jam_div x (2 ^ n)" "jam_div x (2 ^ n) < 2 ^ m"
proof -
  have s: "sticks 1 (jam_div x (2 ^ n)) x (2 ^ n)" by (rule sticks_jam) simp_all
  have "1 * 2 ^ m \<le> 2 ^ n * (2 ^ m :: int)" by (intro mult_right_mono) simp_all
  then have "\<not> 2 ^ n * 2 ^ m \<le> x" using assms(2) by linarith
  then show "jam_div x (2 ^ n) < 2 ^ m"
    using sticks_le_iff [OF s, of m] assms(3) by (simp add: Suc_le_eq)
  show "0 \<le> jam_div x (2 ^ n)" using assms(1) by (simp add: jam_div_def Let_def pos_imp_zdiv_nonneg_iff)
qed

lemma rne_div_jam: "0 < m \<Longrightarrow> 1 < m \<Longrightarrow> rne_div (jam_div x (2 ^ n)) (2 ^ m) = rne_div x (2 ^ (m + n))"
  using sticks_rne [OF sticks_jam, of "2 ^ n" 1 m x] by (simp add: power_add mult.commute)

lemma round_mag_self: "0 \<le> N \<Longrightarrow> N < 2 ^ (p + 1) \<Longrightarrow> round_mag p N 1 = N"
  using round_mag_exp [of 1 0 p N] by (simp add: rne_div_def)

text \<open>An estimate at most \<open>k\<close> too large whose low bits exceed \<open>k\<close> agrees with the quotient above them.\<close>

lemma sticks_estimate:
  assumes "0 < B" "N div B \<le> e" "e \<le> N div B + k" "k < e mod 2 ^ j" "0 \<le> k"
  shows "sticks j e N B"
proof -
  obtain h t where e: "e = h * 2 ^ j + t" "0 \<le> t" "t < 2 ^ j" using int_split [of "2 ^ j" e] by auto
  have t: "k < t" using assms(4) div_mod_split [OF e] by simp
  obtain q r where N: "N = q * B + r" "0 \<le> r" "r < B" using int_split [OF assms(1)] by blast
  have q: "q \<le> e" "e \<le> q + k" using assms(2,3) div_mod_split [OF N] by simp_all
  define u where "u = t - (e - q)"
  have u: "q = h * 2 ^ j + u" "0 < u" "u < 2 ^ j" using e t q by (simp_all add: u_def)
  show ?thesis
  proof (rule sticksI [OF e])
    show "N = h * (B * 2 ^ j) + (u * B + r)" unfolding N(1) u(1) by (simp add: algebra_simps)
    show "u * B + r < B * 2 ^ j" using carry_lt [OF u(3) N(3)] assms(1) by (simp add: mult.commute)
    show "0 \<le> u * B + r" "(t = 0) = (u * B + r = 0)" using u(2) N(2) assms(1,5) t by (simp_all add: add_nonneg_eq_0_iff)
  qed
qed

lemma neg_div_step:
  fixes V B :: int
  assumes "0 < B" "V < 0"
  shows "(V + B) div B = V div B + 1" "(V + B) mod B = V mod B" "nat (- ((V + B) div B)) < nat (- (V div B))"
proof -
  show s: "(V + B) div B = V div B + 1" "(V + B) mod B = V mod B" using assms by (simp_all add: div_add_self2)
  show "nat (- ((V + B) div B)) < nat (- (V div B))"
    using assms by (simp add: s) (simp add: neg_imp_zdiv_neg_iff div_neg_pos_less0)
qed

lemma uint_jam_low: "uint (z0 OR bit_of (z1 \<noteq> 0)) = jam_div (val64 (z0, z1)) (2 ^ 32)"
proof -
  have "val64 (z0, z1) div 2 ^ 32 = uint z0" "val64 (z0, z1) mod 2 ^ 32 = uint z1"
    using uint_lt2p [of z1] by (simp_all add: val64_def)
  then show ?thesis by (simp add: uint_or_bit_of jam_div_def uint_0_iff)
qed

lemma shift32RightJamming_jam_div:
  "0 \<le> count \<Longrightarrow> uint (shift32RightJamming a count) = jam_div (uint a) (2 ^ nat count)"
  by (simp add: shift32RightJamming_jam jam_eq)

text \<open>The difference of two aligned significands of \<open>p + 1\<close> bits with \<open>k\<close> extra bits, the smaller one shifted with jamming.\<close>

lemma jam_significand_lt:
  assumes "m < 2 ^ Suc p" "d = 0 \<Longrightarrow> m < 2 ^ p" "i \<le> d" "i \<le> p"
  shows "jam_div (m * 2 ^ Suc k) (2 ^ d) < 2 ^ (p + Suc k)" "0 < i \<Longrightarrow> jam_div (m * 2 ^ Suc k) (2 ^ d) < 2 ^ (Suc p - i + Suc k)"
proof -
  have z: "sticks 1 (jam_div (m * 2 ^ Suc k) (2 ^ d)) (m * 2 ^ Suc k) (2 ^ d)" by (rule sticks_jam) simp_all
  have ge: "m * 2 ^ Suc k < 2 ^ d * 2 ^ (Suc p - j + Suc k)" if "j \<le> d" "0 < j" "j \<le> Suc p" for j
  proof -
    have "m * 2 ^ Suc k < 2 ^ Suc p * 2 ^ Suc k" using assms(1) by simp
    also have "\<dots> \<le> 2 ^ (d + (Suc p - j)) * 2 ^ Suc k" using that by (intro mult_right_mono power_increasing) simp_all
    finally show ?thesis by (simp only: power_add mult.assoc)
  qed
  have "m * 2 ^ Suc k < 2 ^ d * 2 ^ (p + Suc k)"
  proof (cases "d = 0")
    case True
    then show ?thesis using assms(2) by (simp add: power_add)
  qed (use ge [of 1] in simp)
  then show "jam_div (m * 2 ^ Suc k) (2 ^ d) < 2 ^ (p + Suc k)" using sticks_le_iff [OF z, of "p + Suc k"] by (simp add: not_le [symmetric])
  show "jam_div (m * 2 ^ Suc k) (2 ^ d) < 2 ^ (Suc p - i + Suc k)" if "0 < i"
    using ge [OF assms(3) that] assms(4) sticks_le_iff [OF z, of "Suc p - i + Suc k"] by (simp add: not_le [symmetric])
qed

lemma sub_significand_approx:
  fixes mA mB :: int
  assumes "2 ^ p \<le> mA" "mA < 2 ^ Suc p" "0 \<le> mB" "mB < 2 ^ Suc p" "d = 0 \<Longrightarrow> mB < 2 ^ p" "2 \<le> p"
    and S: "S = mA * 2 ^ Suc k - jam_div (mB * 2 ^ Suc k) (2 ^ d)"
  shows "0 < S" "mB < mA * 2 ^ d"
    "sticks 1 S ((mA * 2 ^ d - mB) * 2 ^ Suc k) (2 ^ d) \<and> 2 ^ (p + k) \<le> S \<or> S * 2 ^ d = (mA * 2 ^ d - mB) * 2 ^ Suc k"
proof -
  let ?z = "jam_div (mB * 2 ^ Suc k) (2 ^ d)"
  have "2 ^ (p + Suc k) \<le> mA * 2 ^ Suc k" using assms(1) by (simp add: power_add)
  then show "0 < S" using jam_significand_lt(1) [of mB p d 0 k] assms(4,5) by (simp add: S)
  show "mB < mA * 2 ^ d"
  proof (cases "d = 0")
    case False
    have "2 ^ p * 2 ^ 1 \<le> (2 ^ p * 2 ^ d :: int)" using False by (intro mult_left_mono power_increasing) simp_all
    also have "\<dots> \<le> mA * 2 ^ d" using assms(1) by simp
    finally show ?thesis using assms(4) by simp
  qed (use assms(1,5) in simp)
  have z: "sticks 1 ?z (mB * 2 ^ Suc k) (2 ^ d)" by (rule sticks_jam) simp_all
  have "sticks 1 (mA * 2 ^ Suc k - ?z) (mA * 2 ^ Suc k * 2 ^ d - mB * 2 ^ Suc k) (2 ^ d)" by (rule sticks_diff [OF z]) simp_all
  then have st: "sticks 1 S ((mA * 2 ^ d - mB) * 2 ^ Suc k) (2 ^ d)" by (simp add: S algebra_simps)
  show "sticks 1 S ((mA * 2 ^ d - mB) * 2 ^ Suc k) (2 ^ d) \<and> 2 ^ (p + k) \<le> S \<or> S * 2 ^ d = (mA * 2 ^ d - mB) * 2 ^ Suc k"
  proof (cases "2 \<le> d")
    case True
    have e: "Suc p - 2 + Suc k = p + k" using assms(6) by simp
    have "?z < 2 ^ (p + k)" using jam_significand_lt(2) [OF assms(4,5) True assms(6), of k] unfolding e by simp
    moreover have "2 * 2 ^ (p + k) \<le> mA * 2 ^ Suc k" using assms(1) by (simp add: power_add)
    ultimately show ?thesis using st by (simp add: S)
  next
    case False
    then have "d = 0 \<or> d = 1" by auto
    then have "?z * 2 ^ d = mB * 2 ^ Suc k" by (auto simp: jam_div_def Let_def)
    then show ?thesis by (simp add: S algebra_simps)
  qed
qed

section \<open>Exponents of products and quotients\<close>

lemma scaled_product:
  fixes ma mb va vb Ea Eb :: int
  assumes "va * 2 ^ nat (1 - Ea) = ma * 2 ^ nat (Ea - 1)" "vb * 2 ^ nat (1 - Eb) = mb * 2 ^ nat (Eb - 1)"
    "int k + Ea + Eb - 2 = int l"
  shows "va * vb * 2 ^ k = ma * mb * 2 ^ l"
proof -
  have "va * vb * 2 ^ (nat (1 - Ea) + nat (1 - Eb)) = (va * 2 ^ nat (1 - Ea)) * (vb * 2 ^ nat (1 - Eb))" by (simp add: power_add)
  also have "\<dots> = ma * mb * 2 ^ (nat (Ea - 1) + nat (Eb - 1))" by (simp add: assms(1,2) power_add)
  finally show ?thesis by (rule pow2_cross) (use assms(3) in linarith)
qed

lemma scaled_quotient:
  fixes ma mb va vb Ea Eb :: int
  assumes "va * 2 ^ nat (1 - Ea) = ma * 2 ^ nat (Ea - 1)" "vb * 2 ^ nat (1 - Eb) = mb * 2 ^ nat (Eb - 1)"
    "int k + Ea = int l + Eb"
  shows "ma * vb * 2 ^ l = va * mb * 2 ^ k"
proof -
  have "ma * vb * 2 ^ (nat (Ea - 1) + nat (1 - Eb)) = (ma * 2 ^ nat (Ea - 1)) * (vb * 2 ^ nat (1 - Eb))" by (simp add: power_add)
  also have "\<dots> = va * mb * 2 ^ (nat (1 - Ea) + nat (Eb - 1))" by (simp add: assms(1) [symmetric] assms(2) power_add)
  finally show ?thesis by (rule pow2_cross) (use assms(3) in linarith)
qed

text \<open>
  The pattern packed from an exponent and a significand with \<open>g\<close> bits to round off, for a format with
  \<open>p\<close> fraction bits.
\<close>

definition packed :: "nat \<Rightarrow> nat \<Rightarrow> int \<Rightarrow> int \<Rightarrow> int" where
  "packed p g zExp x = (if zExp < 0 then rne_div x (2 ^ (g + nat (- zExp))) else zExp * 2 ^ p + rne_div x (2 ^ g))"

lemma packed_round_mag:
  assumes "0 < D" "0 \<le> N" "sticks j x (N * 2 ^ (g + nat (- zExp))) (D * 2 ^ nat zExp)" "j < g"
    "x < 2 ^ (p + 1 + g)" "2 ^ (p + g) \<le> x \<or> zExp \<le> 0"
  shows "packed p g zExp x = round_mag p N D"
proof (cases "zExp < 0")
  case True
  let ?f = "nat (- zExp)"
  have s: "sticks j x (N * 2 ^ (g + ?f)) D" using assms(3) True by simp
  have "packed p g zExp x = rne_div x (2 ^ (g + ?f))" using True by (simp add: packed_def)
  also have "\<dots> = rne_div (N * 2 ^ (g + ?f)) (D * 2 ^ (g + ?f))"
    by (rule sticks_rne [OF s assms(1)]) (use assms(4) in simp)
  also have "\<dots> = rne_div N D" by (rule rne_div_scale) simp
  also have "\<dots> = round_mag p N D"
  proof -
    have "N * 2 ^ (g + ?f) < D * 2 ^ (p + 1 + g)" using sticks_le_iff [OF s assms(1), of "p + 1 + g"] assms(4,5) by simp
    also have "\<dots> \<le> D * 2 ^ (p + 1) * 2 ^ (g + ?f)"
    proof -
      have "(2::int) ^ (p + 1 + g) \<le> 2 ^ (p + 1) * 2 ^ (g + ?f)"
        unfolding power_add [symmetric] by (rule power_increasing) simp_all
      then show ?thesis using assms(1) by (simp add: mult.assoc)
    qed
    finally have "N < 2 ^ (p + 1) * D" by (simp add: mult.commute)
    then show ?thesis using round_mag_exp [of D 0 p N] assms(1) by simp
  qed
  finally show ?thesis .
next
  case False
  let ?e = "nat zExp"
  have s: "sticks j x (N * 2 ^ g) (D * 2 ^ ?e)" using assms(3) False by simp
  have De: "0 < D * 2 ^ ?e" using assms(1) by simp
  have "rne_div x (2 ^ g) = rne_div (N * 2 ^ g) (D * 2 ^ ?e * 2 ^ g)"
    by (rule sticks_rne [OF s De assms(4)])
  also have "\<dots> = rne_div N (D * 2 ^ ?e)" by (rule rne_div_scale) simp
  finally have r: "rne_div x (2 ^ g) = rne_div N (D * 2 ^ ?e)" .
  have up: "N < 2 ^ (p + 1 + ?e) * D"
  proof -
    have "N * 2 ^ g < D * 2 ^ ?e * 2 ^ (p + 1 + g)" using sticks_le_iff [OF s De, of "p + 1 + g"] assms(4,5) by simp
    then have "N * 2 ^ g < (2 ^ (p + 1 + ?e) * D) * 2 ^ g" by (simp add: power_add mult.assoc mult.commute mult.left_commute)
    then show ?thesis by simp
  qed
  have low: "?e = 0 \<or> 2 ^ (p + ?e) * D \<le> N"
  proof (cases "zExp \<le> 0")
    case False
    then have "D * 2 ^ ?e * 2 ^ (p + g) \<le> N * 2 ^ g" using sticks_le_iff [OF s De, of "p + g"] assms(4,6) by simp
    then have "(2 ^ (p + ?e) * D) * 2 ^ g \<le> N * 2 ^ g" by (simp add: power_add mult.assoc mult.commute mult.left_commute)
    then show ?thesis by simp
  qed simp
  show ?thesis using round_mag_exp [OF assms(1) low up] r False by (simp add: packed_def)
qed

lemma packed_nonneg: "0 \<le> x \<Longrightarrow> 0 \<le> packed p g zExp x"
  using rne_div_ge [of "2 ^ g" 0 x] rne_div_ge [of "2 ^ (g + nat (- zExp))" 0 x] by (simp add: packed_def)

section \<open>Shifting right with an extra word\<close>

lemma sticks_extra:
  fixes H E :: int
  assumes "0 \<le> H" "0 \<le> E" "E < 2 ^ (32 + k)" "0 < c" "c \<le> 32"
    and z: "z = (let u = H * 2 ^ (32 - c) in if E \<noteq> 0 \<and> even u then u + 1 else u)"
  shows "sticks 31 z (H * 2 ^ (32 + k) + E) (2 ^ (c + k))"
proof -
  obtain h g where H: "H = h * 2 ^ (c - 1) + g" "0 \<le> g" "g < 2 ^ (c - 1)" using int_split [of "2 ^ (c - 1)" H] by auto
  let ?u = "g * 2 ^ (32 - c)"
  have "c - 1 + (32 - c) = 31" "c - 1 + (32 + k) = c + k + 31" using assms(4,5) by simp_all
  then have p: "(2::int) ^ (c - 1) * 2 ^ (32 - c) = 2 ^ 31" "(2::int) ^ (c - 1) * 2 ^ (32 + k) = 2 ^ (c + k) * 2 ^ 31"
    by (simp_all only: power_add [symmetric])
  have Hu: "H * 2 ^ (32 - c) = h * 2 ^ 31 + ?u" using p(1) by (simp add: H(1) distrib_right mult.assoc)
  have even: "even (H * 2 ^ (32 - c)) \<longleftrightarrow> even ?u" unfolding Hu by simp
  have u: "?u < 2 ^ 31"
    using H(3) unfolding p(1) [symmetric] by simp
  let ?r = "if E \<noteq> 0 \<and> even ?u then ?u + 1 else ?u"
  have r: "?r < 2 ^ 31"
  proof -
    have "?u + 1 \<noteq> 2 ^ 31" if "even ?u"
    proof
      assume e: "?u + 1 = 2 ^ 31"
      have "even (?u + 1)" unfolding e by simp
      then show False using that by simp
    qed
    then show ?thesis using u by auto
  qed
  have R: "g * 2 ^ (32 + k) + E < 2 ^ (c + k) * 2 ^ 31" using carry_lt [OF H(3) assms(3)] p(2) by simp
  show ?thesis
  proof (rule sticksI [where q = h and r = ?r and R = "g * 2 ^ (32 + k) + E"])
    show "z = h * 2 ^ 31 + ?r" unfolding z Let_def even Hu by simp
    show "H * 2 ^ (32 + k) + E = h * (2 ^ (c + k) * 2 ^ 31) + (g * 2 ^ (32 + k) + E)"
      unfolding H(1) p(2) [symmetric] by (simp add: algebra_simps)
    show "(?r = 0) = (g * 2 ^ (32 + k) + E = 0)"
      using H(2) assms(2) by (auto simp: add_nonneg_eq_0_iff)
  qed (use r R H(2) assms(2) in auto)
qed

text \<open>A number of the format is not changed by rounding.\<close>

lemma round_mag_fval:
  assumes "0 \<le> M" "0 < D"
  shows "round_mag p (fval p M * D) D = M"
proof -
  obtain k m where M: "M = int k * 2 ^ p + m" "m < 2 ^ (p + 1)" "0 \<le> m" "k = 0 \<or> 2 ^ p \<le> m"
  proof (cases rule: binade_cases [OF assms(1), of p])
    case 1
    then show thesis using that [of 0 M] assms(1) by simp
  next
    case (2 k m)
    then show thesis using that [of k m] zero_le_power [of "2::int" p] by linarith
  qed
  have v: "fval p M = m * 2 ^ k"
    using M(4) M(2) fval_small [of M p] fval_binade [of p m k] by (auto simp: M(1))
  have e: "fval p M * D = m * (D * 2 ^ k)" by (simp add: v)
  have "k = 0 \<or> 2 ^ (p + k) * D \<le> fval p M * D"
    using M(4) assms(2) by (auto simp: v power_add)
  moreover have "fval p M * D < 2 ^ (p + 1 + k) * D"
  proof -
    have "m * 2 ^ k < 2 ^ (p + 1) * 2 ^ k" using M(2) by simp
    then show ?thesis using assms(2) by (simp add: v power_add)
  qed
  ultimately have "round_mag p (fval p M * D) D = int k * 2 ^ p + rne_div (fval p M * D) (D * 2 ^ k)"
    by (rule round_mag_exp [OF assms(2)])
  also have "rne_div (fval p M * D) (D * 2 ^ k) = m" unfolding e using assms(2) by (simp add: rne_div_def mult_less_0_iff)
  finally show ?thesis by (simp add: M(1))
qed

end
