(* ===== verification/SoftFloat_Base.thy ===== *)
theory SoftFloat_Base
  imports Multi_Word
begin

text \<open>
  The data of the software floating point of \<open>newlib/libc/sys/tce/float_emulation.c\<close> and
  \<open>include/softfloat.h\<close>: the static variables, the two formats and their fields, and the NaN
  handling.

  The static variables \<open>float_rounding_mode\<close>, \<open>float_exception_flags\<close> and \<open>float_detect_tininess\<close>
  are the fields of the record \<open>fp_env\<close>; a routine that reads or changes them takes the record and
  returns it beside its result.  A \<open>float32\<close> is its bit pattern, a \<open>float64\<close> the record of its two
  words.  A C \<open>flag\<close> is a \<open>bool\<close>; \<open>int8\<close> and \<open>int16\<close> variables, whose values stay within a few
  thousand, are \<open>int\<close>.
\<close>

section \<open>State, enumerations and formats\<close>

record fp_env =
  float_rounding_mode :: int
  float_exception_flags :: bits8
  float_detect_tininess :: int

abbreviation (input) float_tininess_after_rounding :: int where "float_tininess_after_rounding \<equiv> 0"
abbreviation (input) float_tininess_before_rounding :: int where "float_tininess_before_rounding \<equiv> 1"

abbreviation (input) float_round_nearest_even :: int where "float_round_nearest_even \<equiv> 0"
abbreviation (input) float_round_down :: int where "float_round_down \<equiv> 1"
abbreviation (input) float_round_up :: int where "float_round_up \<equiv> 2"
abbreviation (input) float_round_to_zero :: int where "float_round_to_zero \<equiv> 3"

definition float_flag_invalid :: bits8 where "float_flag_invalid = 1"
definition float_flag_divbyzero :: bits8 where "float_flag_divbyzero = 4"
definition float_flag_overflow :: bits8 where "float_flag_overflow = 8"
definition float_flag_underflow :: bits8 where "float_flag_underflow = 16"
definition float_flag_inexact :: bits8 where "float_flag_inexact = 32"

text \<open>The initial values of the static variables.\<close>

definition fp_init :: fp_env where
  "fp_init = \<lparr>float_rounding_mode = float_round_nearest_even, float_exception_flags = 0,
     float_detect_tininess = float_tininess_after_rounding\<rparr>"

type_synonym float32 = bits32

record float64 =
  low :: bits32
  high :: bits32

record commonNaNT =
  nan_sign :: flag
  nan_high :: bits32
  nan_low :: bits32

definition float_raise :: "bits8 \<Rightarrow> fp_env \<Rightarrow> fp_env" where
  "float_raise flags s = s\<lparr>float_exception_flags := float_exception_flags s OR flags\<rparr>"

text \<open>\<open>if (c) float_raise(flags);\<close> and \<open>if (c) float_exception_flags |= flags;\<close>\<close>

definition raise_if :: "bool \<Rightarrow> bits8 \<Rightarrow> fp_env \<Rightarrow> fp_env" where
  "raise_if c flags s = (if c then float_raise flags s else s)"

section \<open>Single-precision NaNs and fields\<close>

definition float32_default_nan :: float32 where
  "float32_default_nan = 0xFFC00000"

definition float32_is_nan :: "float32 \<Rightarrow> flag" where
  "float32_is_nan a \<longleftrightarrow> 0xFF000000 < c_shl a 1"

definition float32_is_signaling_nan :: "float32 \<Rightarrow> flag" where
  "float32_is_signaling_nan a \<longleftrightarrow> c_shr a 22 AND 0x1FF = 0x1FE \<and> a AND 0x003FFFFF \<noteq> 0"

definition float32ToCommonNaN :: "float32 \<Rightarrow> fp_env \<Rightarrow> commonNaNT \<times> fp_env" where
  "float32ToCommonNaN a s =
     (\<lparr>nan_sign = c_shr a 31 \<noteq> 0, nan_high = c_shl a 9, nan_low = 0\<rparr>,
      raise_if (float32_is_signaling_nan a) float_flag_invalid s)"

definition commonNaNToFloat32 :: "commonNaNT \<Rightarrow> float32" where
  "commonNaNToFloat32 a = c_shl (bit_of (nan_sign a)) 31 OR 0x7FC00000 OR c_shr (nan_high a) 9"

definition propagateFloat32NaN :: "float32 \<Rightarrow> float32 \<Rightarrow> fp_env \<Rightarrow> float32 \<times> fp_env" where
  "propagateFloat32NaN a b s =
     (let aIsNaN = float32_is_nan a; aIsSignalingNaN = float32_is_signaling_nan a;
          bIsNaN = float32_is_nan b; bIsSignalingNaN = float32_is_signaling_nan b;
          a = a OR 0x00400000; b = b OR 0x00400000;
          s = raise_if (aIsSignalingNaN \<or> bIsSignalingNaN) float_flag_invalid s;
          larger = (if c_shl a 1 < c_shl b 1 then b
                    else if c_shl b 1 < c_shl a 1 then a
                    else if a < b then a else b)
      in (if aIsSignalingNaN then if bIsSignalingNaN then larger else if bIsNaN then b else a
          else if aIsNaN then if bIsSignalingNaN \<or> \<not> bIsNaN then a else larger
          else b, s))"

definition extractFloat32Frac :: "float32 \<Rightarrow> bits32" where
  "extractFloat32Frac a = a AND 0x007FFFFF"

definition extractFloat32Exp :: "float32 \<Rightarrow> int" where
  "extractFloat32Exp a = uint (c_shr a 23 AND 0xFF)"

definition extractFloat32Sign :: "float32 \<Rightarrow> flag" where
  "extractFloat32Sign a \<longleftrightarrow> c_shr a 31 \<noteq> 0"

definition packFloat32 :: "flag \<Rightarrow> int \<Rightarrow> bits32 \<Rightarrow> float32" where
  "packFloat32 zSign zExp zSig = c_shl (bit_of zSign) 31 + c_shl (word_of_int zExp) 23 + zSig"

section \<open>Double-precision NaNs and fields\<close>

definition float64_default_nan_high :: bits32 where
  "float64_default_nan_high = 0xFFF80000"

definition float64_default_nan_low :: bits32 where
  "float64_default_nan_low = 0"

definition float64_is_nan :: "float64 \<Rightarrow> flag" where
  "float64_is_nan a \<longleftrightarrow>
     0xFFE00000 \<le> c_shl (high a) 1 \<and> (low a \<noteq> 0 \<or> high a AND 0x000FFFFF \<noteq> 0)"

definition float64_is_signaling_nan :: "float64 \<Rightarrow> flag" where
  "float64_is_signaling_nan a \<longleftrightarrow>
     c_shr (high a) 19 AND 0xFFF = 0xFFE \<and> (low a \<noteq> 0 \<or> high a AND 0x0007FFFF \<noteq> 0)"

definition float64ToCommonNaN :: "float64 \<Rightarrow> fp_env \<Rightarrow> commonNaNT \<times> fp_env" where
  "float64ToCommonNaN a s =
     (let (zhigh, zlow) = shortShift64Left (high a) (low a) 12
      in (\<lparr>nan_sign = c_shr (high a) 31 \<noteq> 0, nan_high = zhigh, nan_low = zlow\<rparr>,
          raise_if (float64_is_signaling_nan a) float_flag_invalid s))"

definition commonNaNToFloat64 :: "commonNaNT \<Rightarrow> float64" where
  "commonNaNToFloat64 a =
     (let (zhigh, zlow) = shift64Right (nan_high a) (nan_low a) 12
      in \<lparr>low = zlow, high = zhigh OR (c_shl (bit_of (nan_sign a)) 31 OR 0x7FF80000)\<rparr>)"

definition propagateFloat64NaN :: "float64 \<Rightarrow> float64 \<Rightarrow> fp_env \<Rightarrow> float64 \<times> fp_env" where
  "propagateFloat64NaN a b s =
     (let aIsNaN = float64_is_nan a; aIsSignalingNaN = float64_is_signaling_nan a;
          bIsNaN = float64_is_nan b; bIsSignalingNaN = float64_is_signaling_nan b;
          a = a\<lparr>high := high a OR 0x00080000\<rparr>; b = b\<lparr>high := high b OR 0x00080000\<rparr>;
          s = raise_if (aIsSignalingNaN \<or> bIsSignalingNaN) float_flag_invalid s;
          larger = (if lt64 (c_shl (high a) 1) (low a) (c_shl (high b) 1) (low b) then b
                    else if lt64 (c_shl (high b) 1) (low b) (c_shl (high a) 1) (low a) then a
                    else if high a < high b then a else b)
      in (if aIsSignalingNaN then if bIsSignalingNaN then larger else if bIsNaN then b else a
          else if aIsNaN then if bIsSignalingNaN \<or> \<not> bIsNaN then a else larger
          else b, s))"

definition extractFloat64Frac1 :: "float64 \<Rightarrow> bits32" where
  "extractFloat64Frac1 a = low a"

definition extractFloat64Frac0 :: "float64 \<Rightarrow> bits32" where
  "extractFloat64Frac0 a = high a AND 0x000FFFFF"

definition extractFloat64Exp :: "float64 \<Rightarrow> int" where
  "extractFloat64Exp a = uint (c_shr (high a) 20 AND 0x7FF)"

definition extractFloat64Sign :: "float64 \<Rightarrow> flag" where
  "extractFloat64Sign a \<longleftrightarrow> c_shr (high a) 31 \<noteq> 0"

definition packFloat64 :: "flag \<Rightarrow> int \<Rightarrow> bits32 \<Rightarrow> bits32 \<Rightarrow> float64" where
  "packFloat64 zSign zExp zSig0 zSig1 =
     \<lparr>low = zSig1, high = c_shl (bit_of zSign) 31 + c_shl (word_of_int zExp) 20 + zSig0\<rparr>"

end
