(* ===== verification/Float32.thy ===== *)
theory Float32
  imports SoftFloat_Base
begin

text \<open>
  The single-precision routines of \<open>newlib/libc/sys/tce/float_emulation.c\<close>.  Every routine takes the
  state \<open>fp_env\<close> last and returns its result with the new state.  The routines with a correction
  loop (\<open>float32_div\<close>, \<open>float32_rem\<close>, \<open>float32_sqrt\<close>) return \<open>None\<close> when a loop does not return.
\<close>

section \<open>Normalizing, rounding and packing\<close>

definition normalizeFloat32Subnormal :: "bits32 \<Rightarrow> int \<times> bits32" where
  "normalizeFloat32Subnormal aSig =
     (let shiftCount = countLeadingZeros32 aSig - 8
      in (1 - shiftCount, c_shl aSig shiftCount))"

definition roundIncrement32 :: "int \<Rightarrow> flag \<Rightarrow> bits32" where
  "roundIncrement32 roundingMode zSign =
     (if roundingMode \<noteq> float_round_nearest_even
      then if roundingMode = float_round_to_zero then 0
           else if zSign
                then if roundingMode = float_round_up then 0 else 0x7F
                else if roundingMode = float_round_down then 0 else 0x7F
      else 0x40)"

definition roundAndPackFloat32 :: "flag \<Rightarrow> int \<Rightarrow> bits32 \<Rightarrow> fp_env \<Rightarrow> float32 \<times> fp_env" where
  "roundAndPackFloat32 zSign zExp zSig s =
     (let roundingMode = float_rounding_mode s;
          roundNearestEven = (roundingMode = float_round_nearest_even);
          roundIncrement = roundIncrement32 roundingMode zSign;
          roundBits = zSig AND 0x7F;
          special = (0xFD \<le> zExp mod 2 ^ 16)
      in if special \<and> (0xFD < zExp \<or> zExp = 0xFD \<and> sint (zSig + roundIncrement) < 0)
         then (packFloat32 zSign 0xFF 0 - bit_of (roundIncrement = 0),
               float_raise (float_flag_overflow OR float_flag_inexact) s)
         else
           let (zExp, zSig, roundBits, s) =
                 (if special \<and> zExp < 0
                  then let isTiny = (float_detect_tininess s = float_tininess_before_rounding \<or>
                                     zExp < - 1 \<or> zSig + roundIncrement < 0x80000000);
                           zSig = shift32RightJamming zSig (- zExp);
                           roundBits = zSig AND 0x7F
                       in (0, zSig, roundBits,
                           raise_if (isTiny \<and> roundBits \<noteq> 0) float_flag_underflow s)
                  else (zExp, zSig, roundBits, s));
               s = raise_if (roundBits \<noteq> 0) float_flag_inexact s;
               zSig = c_shr (zSig + roundIncrement) 7;
               zSig = zSig AND NOT (bit_of (roundBits XOR 0x40 = 0 \<and> roundNearestEven));
               zExp = (if zSig = 0 then 0 else zExp)
           in (packFloat32 zSign zExp zSig, s))"

definition normalizeRoundAndPackFloat32 :: "flag \<Rightarrow> int \<Rightarrow> bits32 \<Rightarrow> fp_env \<Rightarrow> float32 \<times> fp_env" where
  "normalizeRoundAndPackFloat32 zSign zExp zSig s =
     (let shiftCount = countLeadingZeros32 zSig - 1
      in roundAndPackFloat32 zSign (zExp - shiftCount) (c_shl zSig shiftCount) s)"

section \<open>Conversions with 32-bit integers\<close>

definition int32_to_float32 :: "bits32 \<Rightarrow> fp_env \<Rightarrow> float32 \<times> fp_env" where
  "int32_to_float32 a s =
     (if a = 0 then (0, s)
      else if a = 0x80000000 then (packFloat32 True 0x9E 0, s)
      else let zSign = sint a < 0
           in normalizeRoundAndPackFloat32 zSign 0x9C (if zSign then - a else a) s)"

definition float32_to_int32 :: "float32 \<Rightarrow> fp_env \<Rightarrow> bits32 \<times> fp_env" where
  "float32_to_int32 a s =
     (let aSig = extractFloat32Frac a; aExp = extractFloat32Exp a; aSign = extractFloat32Sign a;
          shiftCount = aExp - 0x96
      in if 0 \<le> shiftCount
         then
           if 0x9E \<le> aExp
           then if a \<noteq> 0xCF000000
                then (if \<not> aSign \<or> aExp = 0xFF \<and> aSig \<noteq> 0 then 0x7FFFFFFF else 0x80000000,
                      float_raise float_flag_invalid s)
                else (0x80000000, s)
           else let z = c_shl (aSig OR 0x00800000) shiftCount
                in (if aSign then - z else z, s)
         else
           let (aSigExtra, z) =
                 (if aExp < 0x7E then (word_of_int aExp OR aSig, 0)
                  else let aSig = aSig OR 0x00800000
                       in (c_shl aSig (shiftCount AND 31), c_shr aSig (- shiftCount)));
               s = raise_if (aSigExtra \<noteq> 0) float_flag_inexact s;
               roundingMode = float_rounding_mode s
           in if roundingMode = float_round_nearest_even
              then let z = (if sint aSigExtra < 0
                            then let z = z + 1 in if c_shl aSigExtra 1 = 0 then z AND NOT 1 else z
                            else z)
                   in (if aSign then - z else z, s)
              else if aSign
              then (- (z + bit_of (roundingMode = float_round_down \<and> aSigExtra \<noteq> 0)), s)
              else (z + bit_of (roundingMode = float_round_up \<and> aSigExtra \<noteq> 0), s))"

definition float32_to_int32_round_to_zero :: "float32 \<Rightarrow> fp_env \<Rightarrow> bits32 \<times> fp_env" where
  "float32_to_int32_round_to_zero a s =
     (let aSig = extractFloat32Frac a; aExp = extractFloat32Exp a; aSign = extractFloat32Sign a;
          shiftCount = aExp - 0x9E
      in if 0 \<le> shiftCount
         then if a \<noteq> 0xCF000000
              then (if \<not> aSign \<or> aExp = 0xFF \<and> aSig \<noteq> 0 then 0x80000000 else 0x80000000,
                    float_raise float_flag_invalid s)
              else (0x80000000, s)
         else if aExp \<le> 0x7E
         then (0, raise_if (word_of_int aExp OR aSig \<noteq> 0) float_flag_inexact s)
         else
           let aSig = c_shl (aSig OR 0x00800000) 8;
               z = c_shr aSig (- shiftCount);
               s = raise_if (c_shl aSig (shiftCount AND 31) \<noteq> 0) float_flag_inexact s
           in (if aSign then - z else z, s))"

definition float32_to_uint32 :: "float32 \<Rightarrow> fp_env \<Rightarrow> bits32 \<times> fp_env" where
  "float32_to_uint32 a s =
     (let aSig = extractFloat32Frac a; aExp = extractFloat32Exp a; aSign = extractFloat32Sign a;
          shiftCount = aExp - 0x9E
      in if 0 < shiftCount then (0, s)
         else if aExp \<le> 0x7E
         then (0, raise_if (word_of_int aExp OR aSig \<noteq> 0) float_flag_inexact s)
         else
           let aSig = c_shl (aSig OR 0x00800000) 8;
               z = c_shr aSig (- shiftCount);
               s = raise_if (c_shl aSig (shiftCount AND 31) \<noteq> 0) float_flag_inexact s
           in (if aSign then - z else z, s))"

definition uint32_to_float32 :: "bits32 \<Rightarrow> fp_env \<Rightarrow> float32 \<times> fp_env" where
  "uint32_to_float32 a s =
     (if a = 0 then (0, s)
      else let zSign = False; zExp = 0x9C; zSig = c_shr a 1;
               shiftCount = countLeadingZeros32 zSig - 2
           in if 0 \<le> shiftCount
              then roundAndPackFloat32 zSign (zExp - shiftCount) (c_shl a shiftCount) s
              else roundAndPackFloat32 zSign (zExp - shiftCount) (c_shr a (- shiftCount)) s)"

section \<open>Rounding to an integral value\<close>

definition float32_round_to_int :: "float32 \<Rightarrow> fp_env \<Rightarrow> float32 \<times> fp_env" where
  "float32_round_to_int a s =
     (let aExp = extractFloat32Exp a
      in if 0x96 \<le> aExp
         then if aExp = 0xFF \<and> extractFloat32Frac a \<noteq> 0 then propagateFloat32NaN a a s else (a, s)
         else if aExp \<le> 0x7E
         then
           if c_shl a 1 = 0 then (a, s)
           else
             let s = float_raise float_flag_inexact s; aSign = extractFloat32Sign a;
                 roundingMode = float_rounding_mode s
             in if roundingMode = float_round_nearest_even \<and> aExp = 0x7E \<and> extractFloat32Frac a \<noteq> 0
                then (packFloat32 aSign 0x7F 0, s)
                else if roundingMode = float_round_down
                then (if aSign then 0xBF800000 else 0, s)
                else if roundingMode = float_round_up
                then (if aSign then 0x80000000 else 0x3F800000, s)
                else (packFloat32 aSign 0 0, s)
         else
           let lastBitMask = c_shl 1 (0x96 - aExp);
               roundBitsMask = lastBitMask - 1;
               z = a;
               roundingMode = float_rounding_mode s;
               z = (if roundingMode = float_round_nearest_even
                    then let z = z + c_shr lastBitMask 1
                         in if z AND roundBitsMask = 0 then z AND NOT lastBitMask else z
                    else if roundingMode \<noteq> float_round_to_zero
                    then if extractFloat32Sign z \<noteq> (roundingMode = float_round_up)
                         then z + roundBitsMask else z
                    else z);
               z = z AND NOT roundBitsMask
           in (z, raise_if (z \<noteq> a) float_flag_inexact s))"

section \<open>Addition and subtraction\<close>

definition addFloat32Sigs :: "float32 \<Rightarrow> float32 \<Rightarrow> flag \<Rightarrow> fp_env \<Rightarrow> float32 \<times> fp_env" where
  "addFloat32Sigs a b zSign s =
     (let aExp = extractFloat32Exp a; bExp = extractFloat32Exp b;
          expDiff = aExp - bExp;
          aSig = c_shl (extractFloat32Frac a) 6; bSig = c_shl (extractFloat32Frac b) 6;
          finish = (\<lambda>aSig bSig zExp.
            let aSig = aSig OR 0x20000000;
                zSig = c_shl (aSig + bSig) 1;
                zExp = zExp - 1
            in if sint zSig < 0 then roundAndPackFloat32 zSign (zExp + 1) (aSig + bSig) s
               else roundAndPackFloat32 zSign zExp zSig s)
      in if 0 < expDiff
         then
           if aExp = 0xFF then if aSig \<noteq> 0 then propagateFloat32NaN a b s else (a, s)
           else
             let (expDiff, bSig) =
                   (if bExp = 0 then (expDiff - 1, bSig) else (expDiff, bSig OR 0x20000000))
             in finish aSig (shift32RightJamming bSig expDiff) aExp
         else if expDiff < 0
         then
           if bExp = 0xFF
           then if bSig \<noteq> 0 then propagateFloat32NaN a b s else (packFloat32 zSign 0xFF 0, s)
           else
             let (expDiff, aSig) =
                   (if aExp = 0 then (expDiff + 1, aSig) else (expDiff, aSig OR 0x20000000))
             in finish (shift32RightJamming aSig (- expDiff)) bSig bExp
         else
           if aExp = 0xFF
           then if aSig OR bSig \<noteq> 0 then propagateFloat32NaN a b s else (a, s)
           else if aExp = 0 then (packFloat32 zSign 0 (c_shr (aSig + bSig) 6), s)
           else roundAndPackFloat32 zSign aExp (0x40000000 + aSig + bSig) s)"

text \<open>The labels \<open>aBigger\<close> and \<open>bBigger\<close> are continuations; both end at \<open>normalizeRoundAndPack\<close>.\<close>

definition subFloat32Sigs :: "float32 \<Rightarrow> float32 \<Rightarrow> flag \<Rightarrow> fp_env \<Rightarrow> float32 \<times> fp_env" where
  "subFloat32Sigs a b zSign s =
     (let aExp = extractFloat32Exp a; bExp = extractFloat32Exp b;
          expDiff = aExp - bExp;
          aSig = c_shl (extractFloat32Frac a) 7; bSig = c_shl (extractFloat32Frac b) 7;
          aBigger = (\<lambda>aSig bSig zExp. normalizeRoundAndPackFloat32 zSign (zExp - 1) (aSig - bSig) s);
          bBigger = (\<lambda>aSig bSig zExp. normalizeRoundAndPackFloat32 (\<not> zSign) (zExp - 1) (bSig - aSig) s)
      in if 0 < expDiff
         then
           if aExp = 0xFF then if aSig \<noteq> 0 then propagateFloat32NaN a b s else (a, s)
           else
             let (expDiff, bSig) =
                   (if bExp = 0 then (expDiff - 1, bSig) else (expDiff, bSig OR 0x40000000))
             in aBigger (aSig OR 0x40000000) (shift32RightJamming bSig expDiff) aExp
         else if expDiff < 0
         then
           if bExp = 0xFF
           then if bSig \<noteq> 0 then propagateFloat32NaN a b s else (packFloat32 (\<not> zSign) 0xFF 0, s)
           else
             let (expDiff, aSig) =
                   (if aExp = 0 then (expDiff + 1, aSig) else (expDiff, aSig OR 0x40000000))
             in bBigger (shift32RightJamming aSig (- expDiff)) (bSig OR 0x40000000) bExp
         else if aExp = 0xFF
         then if aSig OR bSig \<noteq> 0 then propagateFloat32NaN a b s
              else (float32_default_nan, float_raise float_flag_invalid s)
         else
           let (aExp, bExp) = (if aExp = 0 then (1, 1) else (aExp, bExp))
           in if bSig < aSig then aBigger aSig bSig aExp
              else if aSig < bSig then bBigger aSig bSig bExp
              else (packFloat32 (float_rounding_mode s = float_round_down) 0 0, s))"

definition float32_add :: "float32 \<Rightarrow> float32 \<Rightarrow> fp_env \<Rightarrow> float32 \<times> fp_env" where
  "float32_add a b s =
     (let aSign = extractFloat32Sign a; bSign = extractFloat32Sign b
      in if aSign = bSign then addFloat32Sigs a b aSign s else subFloat32Sigs a b aSign s)"

definition float32_sub :: "float32 \<Rightarrow> float32 \<Rightarrow> fp_env \<Rightarrow> float32 \<times> fp_env" where
  "float32_sub a b s =
     (let aSign = extractFloat32Sign a; bSign = extractFloat32Sign b
      in if aSign = bSign then subFloat32Sigs a b aSign s else addFloat32Sigs a b aSign s)"

section \<open>Multiplication\<close>

definition float32_mul :: "float32 \<Rightarrow> float32 \<Rightarrow> fp_env \<Rightarrow> float32 \<times> fp_env" where
  "float32_mul a b s =
     (let aSig = extractFloat32Frac a; aExp = extractFloat32Exp a; aSign = extractFloat32Sign a;
          bSig = extractFloat32Frac b; bExp = extractFloat32Exp b; bSign = extractFloat32Sign b;
          zSign = (aSign \<noteq> bSign)
      in if aExp = 0xFF
         then if aSig \<noteq> 0 \<or> bExp = 0xFF \<and> bSig \<noteq> 0 then propagateFloat32NaN a b s
              else if word_of_int bExp OR bSig = 0
              then (float32_default_nan, float_raise float_flag_invalid s)
              else (packFloat32 zSign 0xFF 0, s)
         else if bExp = 0xFF
         then if bSig \<noteq> 0 then propagateFloat32NaN a b s
              else if word_of_int aExp OR aSig = 0
              then (float32_default_nan, float_raise float_flag_invalid s)
              else (packFloat32 zSign 0xFF 0, s)
         else if aExp = 0 \<and> aSig = 0 then (packFloat32 zSign 0 0, s)
         else
           let (aExp, aSig) = (if aExp = 0 then normalizeFloat32Subnormal aSig else (aExp, aSig))
           in if bExp = 0 \<and> bSig = 0 then (packFloat32 zSign 0 0, s)
              else
                let (bExp, bSig) = (if bExp = 0 then normalizeFloat32Subnormal bSig else (bExp, bSig));
                    zExp = aExp + bExp - 0x7F;
                    aSig = c_shl (aSig OR 0x00800000) 7;
                    bSig = c_shl (bSig OR 0x00800000) 8;
                    (zSig0, zSig1) = mul32To64 aSig bSig;
                    zSig0 = zSig0 OR bit_of (zSig1 \<noteq> 0)
                in if 0 \<le> sint (c_shl zSig0 1)
                   then roundAndPackFloat32 zSign (zExp - 1) (c_shl zSig0 1) s
                   else roundAndPackFloat32 zSign zExp zSig0 s)"

section \<open>Division\<close>

partial_function (option) float32_div_loop ::
  "bits32 \<Rightarrow> bits32 \<Rightarrow> bits32 \<Rightarrow> bits32 \<Rightarrow> (bits32 \<times> bits32 \<times> bits32) option" where
  "float32_div_loop bSig zSig rem0 rem1 =
     (if sint rem0 < 0
      then float32_div_loop bSig (zSig - 1)
             (fst (add64 rem0 rem1 0 bSig)) (snd (add64 rem0 rem1 0 bSig))
      else Some (zSig, rem0, rem1))"

declare float32_div_loop.simps [code]

definition float32_div :: "float32 \<Rightarrow> float32 \<Rightarrow> fp_env \<Rightarrow> (float32 \<times> fp_env) option" where
  "float32_div a b s =
     (let aSig = extractFloat32Frac a; aExp = extractFloat32Exp a; aSign = extractFloat32Sign a;
          bSig = extractFloat32Frac b; bExp = extractFloat32Exp b; bSign = extractFloat32Sign b;
          zSign = (aSign \<noteq> bSign)
      in if aExp = 0xFF
         then if aSig \<noteq> 0 then Some (propagateFloat32NaN a b s)
              else if bExp = 0xFF
              then if bSig \<noteq> 0 then Some (propagateFloat32NaN a b s)
                   else Some (float32_default_nan, float_raise float_flag_invalid s)
              else Some (packFloat32 zSign 0xFF 0, s)
         else if bExp = 0xFF
         then if bSig \<noteq> 0 then Some (propagateFloat32NaN a b s)
              else Some (packFloat32 zSign 0 0, s)
         else if bExp = 0 \<and> bSig = 0
         then if word_of_int aExp OR aSig = 0
              then Some (float32_default_nan, float_raise float_flag_invalid s)
              else Some (packFloat32 zSign 0xFF 0, float_raise float_flag_divbyzero s)
         else
           let (bExp, bSig) = (if bExp = 0 then normalizeFloat32Subnormal bSig else (bExp, bSig))
           in if aExp = 0 \<and> aSig = 0 then Some (packFloat32 zSign 0 0, s)
              else
                let (aExp, aSig) = (if aExp = 0 then normalizeFloat32Subnormal aSig else (aExp, aSig));
                    zExp = aExp - bExp + 0x7D;
                    aSig = c_shl (aSig OR 0x00800000) 7;
                    bSig = c_shl (bSig OR 0x00800000) 8;
                    (aSig, zExp) =
                      (if bSig \<le> aSig + aSig then (c_shr aSig 1, zExp + 1) else (aSig, zExp))
                in do {
                  zSig \<leftarrow> estimateDiv64To32 aSig 0 bSig;
                  if zSig AND 0x3F \<le> 2
                  then
                    let (term0, term1) = mul32To64 bSig zSig;
                        (rem0, rem1) = sub64 aSig 0 term0 term1
                    in do {
                      (zSig, rem0, rem1) \<leftarrow> float32_div_loop bSig zSig rem0 rem1;
                      Some (roundAndPackFloat32 zSign zExp (zSig OR bit_of (rem1 \<noteq> 0)) s) }
                  else Some (roundAndPackFloat32 zSign zExp zSig s) })"

section \<open>Remainder\<close>

text \<open>The reduction loop of \<open>float32_rem\<close>; the result holds \<open>q\<close>, \<open>aSig\<close> and \<open>expDiff\<close>.\<close>

function float32_rem_reduce :: "bits32 \<Rightarrow> bits32 \<Rightarrow> bits32 \<Rightarrow> int \<Rightarrow> (bits32 \<times> bits32 \<times> int) option" where
  "float32_rem_reduce bSig q aSig expDiff =
     (if 0 < expDiff
      then do {
        q \<leftarrow> estimateDiv64To32 aSig 0 bSig;
        let q = (if 2 < q then q - 2 else 0);
        float32_rem_reduce bSig q (- (c_shr bSig 2 * q)) (expDiff - 30) }
      else Some (q, aSig, expDiff))"
  by pat_completeness auto
termination float32_rem_reduce
  by (relation "measure (\<lambda>(bSig, q, aSig, expDiff). nat expDiff)") auto

text \<open>The final \<open>do ... while\<close>; the result holds \<open>alternateASig\<close>, \<open>q\<close> and \<open>aSig\<close>.\<close>

partial_function (option) float32_rem_final ::
  "bits32 \<Rightarrow> bits32 \<Rightarrow> bits32 \<Rightarrow> (bits32 \<times> bits32 \<times> bits32) option" where
  "float32_rem_final bSig q aSig =
     (if 0 \<le> sint (aSig - bSig) then float32_rem_final bSig (q + 1) (aSig - bSig)
      else Some (aSig, q + 1, aSig - bSig))"

declare float32_rem_final.simps [code]

definition float32_rem :: "float32 \<Rightarrow> float32 \<Rightarrow> fp_env \<Rightarrow> (float32 \<times> fp_env) option" where
  "float32_rem a b s =
     (let aSig = extractFloat32Frac a; aExp = extractFloat32Exp a; aSign = extractFloat32Sign a;
          bSig = extractFloat32Frac b; bExp = extractFloat32Exp b
      in if aExp = 0xFF
         then if aSig \<noteq> 0 \<or> bExp = 0xFF \<and> bSig \<noteq> 0 then Some (propagateFloat32NaN a b s)
              else Some (float32_default_nan, float_raise float_flag_invalid s)
         else if bExp = 0xFF
         then if bSig \<noteq> 0 then Some (propagateFloat32NaN a b s) else Some (a, s)
         else if bExp = 0 \<and> bSig = 0
         then Some (float32_default_nan, float_raise float_flag_invalid s)
         else
           let (bExp, bSig) = (if bExp = 0 then normalizeFloat32Subnormal bSig else (bExp, bSig))
           in if aExp = 0 \<and> aSig = 0 then Some (a, s)
              else
                let (aExp, aSig) = (if aExp = 0 then normalizeFloat32Subnormal aSig else (aExp, aSig));
                    expDiff = aExp - bExp;
                    aSig = c_shl (aSig OR 0x00800000) 8;
                    bSig = c_shl (bSig OR 0x00800000) 8
                in if expDiff < - 1 then Some (a, s)
                   else
                     let aSig = (if expDiff < 0 then c_shr aSig 1 else aSig);
                         q = bit_of (bSig \<le> aSig);
                         aSig = (if q \<noteq> 0 then aSig - bSig else aSig)
                     in do {
                       (q, aSig, expDiff) \<leftarrow> float32_rem_reduce bSig q aSig (expDiff - 32);
                       let expDiff = expDiff + 32;
                       (q, aSig, bSig) \<leftarrow>
                         (if 0 < expDiff
                          then do {
                            q \<leftarrow> estimateDiv64To32 aSig 0 bSig;
                            let q = (if 2 < q then q - 2 else 0);
                            let q = c_shr q (32 - expDiff);
                            let bSig = c_shr bSig 2;
                            Some (q, c_shl (c_shr aSig 1) (expDiff - 1) - bSig * q, bSig) }
                          else Some (q, c_shr aSig 2, c_shr bSig 2));
                       (alternateASig, q, aSig) \<leftarrow> float32_rem_final bSig q aSig;
                       let sigMean = aSig + alternateASig;
                       let aSig = (if sint sigMean < 0 \<or> sigMean = 0 \<and> q AND 1 \<noteq> 0
                                   then alternateASig else aSig);
                       let zSign = sint aSig < 0;
                       let aSig = (if zSign then - aSig else aSig);
                       Some (normalizeRoundAndPackFloat32 (aSign \<noteq> zSign) bExp aSig s) })"

section \<open>Square root\<close>

partial_function (option) float32_sqrt_loop ::
  "bits32 \<Rightarrow> bits32 \<Rightarrow> bits32 \<Rightarrow> (bits32 \<times> bits32 \<times> bits32) option" where
  "float32_sqrt_loop zSig rem0 rem1 =
     (if sint rem0 < 0
      then let zSig = zSig - 1;
               (term0, term1) = shortShift64Left 0 zSig 1;
               (rem0, rem1) = add64 rem0 rem1 term0 (term1 OR 1)
           in float32_sqrt_loop zSig rem0 rem1
      else Some (zSig, rem0, rem1))"

declare float32_sqrt_loop.simps [code]

definition float32_sqrt :: "float32 \<Rightarrow> fp_env \<Rightarrow> (float32 \<times> fp_env) option" where
  "float32_sqrt a s =
     (let aSig = extractFloat32Frac a; aExp = extractFloat32Exp a; aSign = extractFloat32Sign a
      in if aExp = 0xFF
         then if aSig \<noteq> 0 then Some (propagateFloat32NaN a 0 s)
              else if \<not> aSign then Some (a, s)
              else Some (float32_default_nan, float_raise float_flag_invalid s)
         else if aSign
         then if word_of_int aExp OR aSig = 0 then Some (a, s)
              else Some (float32_default_nan, float_raise float_flag_invalid s)
         else if aExp = 0 \<and> aSig = 0 then Some (0, s)
         else
           let (aExp, aSig) = (if aExp = 0 then normalizeFloat32Subnormal aSig else (aExp, aSig));
               zExp = (aExp - 0x7F) div 2 + 0x7E;
               aSig = c_shl (aSig OR 0x00800000) 8
           in do {
             zSig \<leftarrow> estimateSqrt32 aExp aSig;
             let zSig = zSig + 2;
             if zSig AND 0x7F \<le> 5 \<and> zSig < 2
             then Some (roundAndPackFloat32 False zExp 0x7FFFFFFF s)
             else do {
               zSig \<leftarrow>
                 (if zSig AND 0x7F \<le> 5
                  then
                    let aSig = c_shr aSig (aExp AND 1);
                        (term0, term1) = mul32To64 zSig zSig;
                        (rem0, rem1) = sub64 aSig 0 term0 term1
                    in do {
                      (zSig, rem0, rem1) \<leftarrow> float32_sqrt_loop zSig rem0 rem1;
                      Some (zSig OR bit_of (rem0 OR rem1 \<noteq> 0)) }
                  else Some zSig);
               Some (roundAndPackFloat32 False zExp (shift32RightJamming zSig 1) s) } })"

section \<open>Comparisons\<close>

text \<open>The NaN test each comparison starts with.\<close>

definition float32_unordered :: "float32 \<Rightarrow> float32 \<Rightarrow> bool" where
  "float32_unordered a b \<longleftrightarrow>
     extractFloat32Exp a = 0xFF \<and> extractFloat32Frac a \<noteq> 0 \<or>
     extractFloat32Exp b = 0xFF \<and> extractFloat32Frac b \<noteq> 0"

definition float32_eq :: "float32 \<Rightarrow> float32 \<Rightarrow> fp_env \<Rightarrow> flag \<times> fp_env" where
  "float32_eq a b s =
     (if float32_unordered a b
      then (False, raise_if (float32_is_signaling_nan a \<or> float32_is_signaling_nan b)
                     float_flag_invalid s)
      else (a = b \<or> c_shl (a OR b) 1 = 0, s))"

definition float32_le :: "float32 \<Rightarrow> float32 \<Rightarrow> fp_env \<Rightarrow> flag \<times> fp_env" where
  "float32_le a b s =
     (if float32_unordered a b then (False, float_raise float_flag_invalid s)
      else let aSign = extractFloat32Sign a; bSign = extractFloat32Sign b
           in if aSign \<noteq> bSign then (aSign \<or> c_shl (a OR b) 1 = 0, s)
              else (a = b \<or> aSign \<noteq> (a < b), s))"

definition float32_lt :: "float32 \<Rightarrow> float32 \<Rightarrow> fp_env \<Rightarrow> flag \<times> fp_env" where
  "float32_lt a b s =
     (if float32_unordered a b then (False, float_raise float_flag_invalid s)
      else let aSign = extractFloat32Sign a; bSign = extractFloat32Sign b
           in if aSign \<noteq> bSign then (aSign \<and> c_shl (a OR b) 1 \<noteq> 0, s)
              else (a \<noteq> b \<and> aSign \<noteq> (a < b), s))"

definition float32_eq_signaling :: "float32 \<Rightarrow> float32 \<Rightarrow> fp_env \<Rightarrow> flag \<times> fp_env" where
  "float32_eq_signaling a b s =
     (if float32_unordered a b then (False, float_raise float_flag_invalid s)
      else (a = b \<or> c_shl (a OR b) 1 = 0, s))"

definition float32_le_quiet :: "float32 \<Rightarrow> float32 \<Rightarrow> fp_env \<Rightarrow> flag \<times> fp_env" where
  "float32_le_quiet a b s =
     (if float32_unordered a b
      then (False, raise_if (float32_is_signaling_nan a \<or> float32_is_signaling_nan b)
                     float_flag_invalid s)
      else let aSign = extractFloat32Sign a; bSign = extractFloat32Sign b
           in if aSign \<noteq> bSign then (aSign \<or> c_shl (a OR b) 1 = 0, s)
              else (a = b \<or> aSign \<noteq> (a < b), s))"

definition float32_lt_quiet :: "float32 \<Rightarrow> float32 \<Rightarrow> fp_env \<Rightarrow> flag \<times> fp_env" where
  "float32_lt_quiet a b s =
     (if float32_unordered a b
      then (False, raise_if (float32_is_signaling_nan a \<or> float32_is_signaling_nan b)
                     float_flag_invalid s)
      else let aSign = extractFloat32Sign a; bSign = extractFloat32Sign b
           in if aSign \<noteq> bSign then (aSign \<and> c_shl (a OR b) 1 \<noteq> 0, s)
              else (a \<noteq> b \<and> aSign \<noteq> (a < b), s))"

end
