(* ===== verification/Float32_Round.thy ===== *)
theory Float32_Round
  imports Float32 Float_Rounding
begin

text \<open>
  Correctness of \<open>roundAndPackFloat32\<close> and \<open>normalizeRoundAndPackFloat32\<close> in the nearest-even mode: a
  significand that agrees with the exact result down to its sticky bit is packed into the correctly
  rounded bit pattern, infinity on overflow.  The values of single-precision patterns, and the
  conversion from 32-bit integers as a first client.
\<close>

lemma uint_packFloat32:
  assumes "0 \<le> zExp"
  shows "uint (packFloat32 zSign zExp zSig) = ((if zSign then 2 ^ 31 else 0) + zExp * 2 ^ 23 + uint zSig) mod 2 ^ 32"
  using assms by (simp add: packFloat32_def uint_word_ariths uint_c_shl uint_bit_of uint_word_of_int mod_simps)

lemma roundBits_tie: "(zSig AND 0x7F) XOR 0x40 = 0 \<longleftrightarrow> uint zSig mod 2 ^ 7 = 2 ^ 6" for zSig :: bits32
proof -
  have "uint (zSig AND 0x7F) = uint zSig mod 2 ^ 7"
    using uint_and_mask [of zSig 7] by (simp add: mask_eq_exp_minus_1)
  then show ?thesis unfolding xor_eq_0 unfolding word_uint_eq_iff by simp
qed

lemma round_increment_rne:
  fixes zSig :: bits32
  assumes "uint zSig < 2 ^ 31"
  shows "uint (c_shr (zSig + 0x40) 7 AND NOT (bit_of ((zSig AND 0x7F) XOR 0x40 = 0))) = rne_div (uint zSig) (2 ^ 7)"
proof -
  obtain q r where x: "uint zSig = q * 2 ^ 7 + r" "0 \<le> r" "r < 2 ^ 7" using int_split [of "2 ^ 7" "uint zSig"] by auto
  note dm = div_mod_split [OF x]
  have "uint (zSig + 0x40) = uint zSig + 0x40" using assms by (simp add: uint_word_ariths)
  then have "uint (c_shr (zSig + 0x40) 7) = (q * 2 ^ 7 + (r + 0x40)) div 2 ^ 7"
    using x by (simp add: uint_c_shr add.assoc)
  also have "\<dots> = (if 2 ^ 6 \<le> r then q + 1 else q)"
    using div_mod_split(1) [of "q * 2 ^ 7 + (r + 0x40)" q "2 ^ 7" "r + 0x40"]
      div_mod_split(1) [of "q * 2 ^ 7 + (r + 0x40)" "q + 1" "2 ^ 7" "r - 0x40"] x(2,3) by auto
  finally have "uint (c_shr (zSig + 0x40) 7) = (if 2 ^ 6 \<le> r then q + 1 else q)" .
  then show ?thesis unfolding uint_clear_low roundBits_tie rne_div_def Let_def dm
    by (auto simp: mod_2_eq_odd)
qed

abbreviation nearest_even :: "fp_env \<Rightarrow> bool" where
  "nearest_even s \<equiv> float_rounding_mode s = float_round_nearest_even"

definition float32_inf :: int where "float32_inf = 0xFF * 2 ^ 23"

text \<open>The pattern packed from an exponent and a rounded significand.\<close>

abbreviation packed32 :: "int \<Rightarrow> int \<Rightarrow> int" where "packed32 \<equiv> packed 23 7"

lemma rne_div_bounds_31:
  assumes "0 \<le> x" "x < 2 ^ 31"
  shows "0 \<le> rne_div x (2 ^ 7)" "rne_div x (2 ^ 7) \<le> 2 ^ 24" "x + 0x40 < 2 ^ 31 \<Longrightarrow> rne_div x (2 ^ 7) < 2 ^ 24"
    "2 ^ 31 \<le> x + 0x40 \<Longrightarrow> rne_div x (2 ^ 7) = 2 ^ 24" "2 ^ 30 \<le> x \<Longrightarrow> 2 ^ 23 \<le> rne_div x (2 ^ 7)"
proof -
  show "0 \<le> rne_div x (2 ^ 7)" using assms rne_div_ge [of "2 ^ 7" 0 x] by simp
  show "rne_div x (2 ^ 7) \<le> 2 ^ 24" using assms rne_div_le [of "2 ^ 7" x "2 ^ 24"] by simp
  show "2 ^ 23 \<le> rne_div x (2 ^ 7)" if "2 ^ 30 \<le> x" using that rne_div_ge [of "2 ^ 7" "2 ^ 23" x] by simp
  obtain q r where x: "x = q * 2 ^ 7 + r" "0 \<le> r" "r < 2 ^ 7" using int_split [of "2 ^ 7" x] by auto
  have e: "rne_div x (2 ^ 7) = (if 2 ^ 6 < r \<or> r = 2 ^ 6 \<and> odd q then q + 1 else q)"
    unfolding rne_div_def Let_def div_mod_split [OF x] by auto
  show "rne_div x (2 ^ 7) < 2 ^ 24" if "x + 0x40 < 2 ^ 31" unfolding e using that x by auto
  show "rne_div x (2 ^ 7) = 2 ^ 24" if "2 ^ 31 \<le> x + 0x40"
  proof -
    have "q = 2 ^ 24 - 1" using that assms x by auto
    then have "2 ^ 6 \<le> r" "q = 2 ^ 24 - 1" using that x by simp_all
    then show ?thesis unfolding e by auto
  qed
qed

lemma packFloat32_finite:
  assumes "0 \<le> zExp" "zExp * 2 ^ 23 + uint zSig < 2 ^ 31"
  shows "uint (packFloat32 zSign zExp zSig) = (if zSign then 2 ^ 31 else 0) + (zExp * 2 ^ 23 + uint zSig)"
  unfolding uint_packFloat32 [OF assms(1)] using assms by (subst mod_pos_pos_trivial) auto

definition rounded32 :: "bits32 \<Rightarrow> bits32" where
  "rounded32 zSig = c_shr (zSig + 0x40) 7 AND NOT (bit_of ((zSig AND 0x7F) XOR 0x40 = 0))"

lemma roundIncrement32_nearest: "roundIncrement32 float_round_nearest_even zSign = 0x40"
  by (simp add: roundIncrement32_def)

lemma fst_roundAndPackFloat32:
  assumes "nearest_even s"
  shows "fst (roundAndPackFloat32 zSign zExp zSig s) =
    (if 0xFD \<le> zExp mod 2 ^ 16 \<and> (0xFD < zExp \<or> zExp = 0xFD \<and> sint (zSig + 0x40) < 0)
     then packFloat32 zSign 0xFF 0
     else let zSig' = rounded32 (if 0xFD \<le> zExp mod 2 ^ 16 \<and> zExp < 0 then shift32RightJamming zSig (- zExp) else zSig)
          in packFloat32 zSign (if 0xFD \<le> zExp mod 2 ^ 16 \<and> zExp < 0 \<or> zSig' = 0 then 0 else zExp) zSig')"
  unfolding roundAndPackFloat32_def assms roundIncrement32_nearest Let_def rounded32_def
  by (cases "0xFD \<le> zExp mod 2 ^ 16"; cases "zExp < 0") (simp_all add: bit_of_def)

lemma uint_rounded32: "uint zSig < 2 ^ 31 \<Longrightarrow> uint (rounded32 zSig) = rne_div (uint zSig) (2 ^ 7)"
  unfolding rounded32_def by (rule round_increment_rne)

lemma roundAndPackFloat32_value:
  assumes "nearest_even s" "uint zSig < 2 ^ 31" "- (2 ^ 15) \<le> zExp" "zExp < 2 ^ 15" "2 ^ 30 \<le> uint zSig \<or> zExp \<le> 0"
  shows "uint (fst (roundAndPackFloat32 zSign zExp zSig s)) =
    (if zSign then 2 ^ 31 else 0) + min (packed32 zExp (uint zSig)) float32_inf"
proof -
  define x where "x = uint zSig"
  have x: "0 \<le> x" "x < 2 ^ 31" using assms(2) by (simp_all add: x_def)
  note bnd = rne_div_bounds_31 [OF x]
  have ui: "uint (zSig + 0x40) = x + 0x40" using assms(2) by (simp add: uint_word_ariths x_def)
  have ovf: "sint (zSig + 0x40) < 0 \<longleftrightarrow> 2 ^ 31 \<le> x + 0x40" by (simp add: sint_neg_iff ui)
  have special: "0xFD \<le> zExp mod 2 ^ 16 \<longleftrightarrow> zExp < 0 \<or> 0xFD \<le> zExp"
    using assms(3,4) int_mod_if_neg [of "2 ^ 16" zExp] by auto
  note fst_rp = fst_roundAndPackFloat32 [OF assms(1), of zSign zExp zSig, unfolded special ovf Let_def]
  consider "0xFD < zExp \<or> zExp = 0xFD \<and> 2 ^ 31 \<le> x + 0x40" | "zExp < 0" |
    "0 \<le> zExp" "zExp < 0xFD \<or> zExp = 0xFD \<and> x + 0x40 < 2 ^ 31" by linarith
  then show ?thesis
  proof cases
    case 1
    then have "fst (roundAndPackFloat32 zSign zExp zSig s) = packFloat32 zSign 0xFF 0"
      unfolding fst_rp by auto
    moreover have "uint (packFloat32 zSign 0xFF 0) = (if zSign then 2 ^ 31 else 0) + float32_inf"
      by (subst packFloat32_finite) (simp_all add: float32_inf_def)
    moreover have "float32_inf \<le> packed32 zExp x"
      using 1 bnd(4,5) assms(5) by (auto simp: packed_def float32_inf_def x_def)
    ultimately show ?thesis by (simp add: x_def)
  next
    case 2
    define z where "z = shift32RightJamming zSig (- zExp)"
    have z: "uint z = jam_div x (2 ^ nat (- zExp))"
      using 2 by (simp add: z_def shift32RightJamming_jam jam_eq x_def)
    have z31: "0 \<le> uint z" "uint z < 2 ^ 31" unfolding z using jam_div_le [OF x] by simp_all
    have "uint (rounded32 z) = packed32 zExp x"
      using 2 uint_rounded32 [OF z31(2)] rne_div_jam [of 7 x "nat (- zExp)"] by (simp add: z packed_def)
    moreover have "uint (rounded32 z) \<le> 2 ^ 24" using uint_rounded32 [OF z31(2)] rne_div_bounds_31 [OF z31] by simp
    moreover have "fst (roundAndPackFloat32 zSign zExp zSig s) = packFloat32 zSign 0 (rounded32 z)"
      unfolding fst_rp z_def using 2 by simp
    ultimately show ?thesis
      by (simp add: packFloat32_finite float32_inf_def x_def)
  next
    case 3
    have r: "uint (rounded32 zSig) = rne_div x (2 ^ 7)" unfolding x_def by (rule uint_rounded32 [OF assms(2)])
    have lt: "zExp * 2 ^ 23 + rne_div x (2 ^ 7) < float32_inf" 
      using 3 bnd(2,3) by (auto simp: float32_inf_def)
    have "fst (roundAndPackFloat32 zSign zExp zSig s) = packFloat32 zSign (if rounded32 zSig = 0 then 0 else zExp) (rounded32 zSig)"
      unfolding fst_rp using 3 by auto
    moreover have "rounded32 zSig = 0 \<Longrightarrow> zExp = 0"
      using r bnd(5) assms(5) 3 by (auto simp: x_def)
    ultimately have "uint (fst (roundAndPackFloat32 zSign zExp zSig s)) = (if zSign then 2 ^ 31 else 0) + (zExp * 2 ^ 23 + rne_div x (2 ^ 7))"
      using 3 lt r packFloat32_finite [of zExp "rounded32 zSig" zSign] by (auto simp: float32_inf_def)
    then show ?thesis using lt 3 by (simp add: packed_def x_def)
  qed
qed

lemma roundAndPackFloat32_round:
  assumes "nearest_even s" "0 < D" "0 \<le> N"
    "sticks 6 (uint zSig) (N * 2 ^ (7 + nat (- zExp))) (D * 2 ^ nat zExp)"
    "uint zSig < 2 ^ 31" "- (2 ^ 15) \<le> zExp" "zExp < 2 ^ 15" "2 ^ 30 \<le> uint zSig \<or> zExp \<le> 0"
  shows "uint (fst (roundAndPackFloat32 zSign zExp zSig s)) =
    (if zSign then 2 ^ 31 else 0) + min (round_mag 23 N D) float32_inf"
  using roundAndPackFloat32_value [OF assms(1,5-8)] packed_round_mag [OF assms(2-4), of 23] assms(5,8) by simp

lemma normalizeRoundAndPackFloat32_round:
  assumes "nearest_even s" "0 < D" "0 \<le> N" "zSig \<noteq> 0" "uint zSig < 2 ^ 31" "- (2 ^ 14) \<le> zExp" "zExp < 2 ^ 14"
    and approx: "sticks 1 (uint zSig) (N * 2 ^ (7 + nat (- zExp))) (D * 2 ^ nat zExp) \<and> 2 ^ 28 \<le> uint zSig
      \<or> uint zSig * (D * 2 ^ nat zExp) = N * 2 ^ (7 + nat (- zExp))"
  shows "uint (fst (normalizeRoundAndPackFloat32 zSign zExp zSig s)) =
    (if zSign then 2 ^ 31 else 0) + min (round_mag 23 N D) float32_inf"
proof -
  define c where "c = countLeadingZeros32 zSig - 1"
  note cl = clz32_word [OF assms(4,5)]
  have c: "0 \<le> c" "c < 31" using cl by (simp_all add: c_def)
  have u: "uint (c_shl zSig c) = uint zSig * 2 ^ nat c" using assms(4) c by (intro uint_c_shl_clz) (simp_all add: c_def)
  have "nat (countLeadingZeros32 zSig) = Suc (nat c)" using c by (simp add: c_def)
  then have "uint zSig * 2 ^ nat (countLeadingZeros32 zSig) = 2 * uint (c_shl zSig c)" by (simp add: u)
  then have bnd: "2 ^ 30 \<le> uint (c_shl zSig c)" "uint (c_shl zSig c) < 2 ^ 31" using cl(3,4) by simp_all
  have D: "0 < D * 2 ^ nat zExp" "0 < D * 2 ^ nat (zExp - c)" using assms(2) by simp_all
  have cross: "N * 2 ^ (7 + nat (- zExp)) * 2 ^ nat c * (D * 2 ^ nat (zExp - c)) =
      N * 2 ^ (7 + nat (- (zExp - c))) * (D * 2 ^ nat zExp)"
  proof -
    have "7 + nat (- zExp) + nat c + nat (zExp - c) = 7 + nat (- (zExp - c)) + nat zExp" using c by linarith
    then have "(2::int) ^ (7 + nat (- zExp)) * 2 ^ nat c * 2 ^ nat (zExp - c) = 2 ^ (7 + nat (- (zExp - c))) * 2 ^ nat zExp"
      by (simp only: power_add [symmetric])
    then show ?thesis by (simp only: mult.assoc mult.left_commute mult.commute)
  qed
  have "sticks 6 (uint (c_shl zSig c)) (N * 2 ^ (7 + nat (- zExp)) * 2 ^ nat c) (D * 2 ^ nat zExp)"
    using approx
  proof
    assume "uint zSig * (D * 2 ^ nat zExp) = N * 2 ^ (7 + nat (- zExp))"
    then have "N * 2 ^ (7 + nat (- zExp)) * 2 ^ nat c = uint (c_shl zSig c) * (D * 2 ^ nat zExp)"
      by (simp add: u mult.assoc mult.left_commute mult.commute)
    then show ?thesis using sticks_exact [OF D(1)] by simp
  next
    assume *: "sticks 1 (uint zSig) (N * 2 ^ (7 + nat (- zExp))) (D * 2 ^ nat zExp) \<and> 2 ^ 28 \<le> uint zSig"
    have "c \<le> 2"
    proof (rule ccontr)
      assume "\<not> c \<le> 2"
      then have "2 ^ 28 * 2 ^ 3 \<le> uint zSig * 2 ^ nat c" using * by (intro mult_mono power_increasing) simp_all
      then show False using bnd(2) u by simp
    qed
    then have "1 + nat c \<le> 6" using c by simp
    then show ?thesis unfolding u using sticks_mult [of 1 _ _ _ "nat c"] * D(1) by (intro sticks_mono [of "1 + nat c" _ _ _ 6]) simp_all
  qed
  from sticks_cross [OF this D cross]
  have "uint (fst (roundAndPackFloat32 zSign (zExp - c) (c_shl zSig c) s)) = (if zSign then 2 ^ 31 else 0) + min (round_mag 23 N D) float32_inf"
    using assms(1,2,3,6,7) bnd c by (intro roundAndPackFloat32_round) simp_all
  then show ?thesis by (simp add: normalizeRoundAndPackFloat32_def c_def Let_def)
qed

definition mag32 :: "float32 \<Rightarrow> int" where "mag32 a = uint a mod 2 ^ 31"

abbreviation abs32 :: "float32 \<Rightarrow> int" where "abs32 a \<equiv> fval 23 (mag32 a)"

definition val32 :: "float32 \<Rightarrow> int" where
  "val32 a = (if extractFloat32Sign a then - abs32 a else abs32 a)"

definition finite32 :: "float32 \<Rightarrow> bool" where "finite32 a \<longleftrightarrow> extractFloat32Exp a \<noteq> 0xFF"

lemma uint_and_numeral_mask:
  "uint (a AND 0x007FFFFF) = uint a mod 2 ^ 23" "uint (a AND 0xFF) = uint a mod 2 ^ 8" for a :: bits32
  using uint_and_mask [of a 23] uint_and_mask [of a 8] by (simp_all add: mask_eq_exp_minus_1)

lemma float32_fields:
  "uint (extractFloat32Frac a) = uint a mod 2 ^ 23"
  "extractFloat32Exp a = uint a div 2 ^ 23 mod 2 ^ 8"
  "extractFloat32Sign a \<longleftrightarrow> 2 ^ 31 \<le> uint a"
proof -
  show "uint (extractFloat32Frac a) = uint a mod 2 ^ 23" by (simp add: extractFloat32Frac_def uint_and_numeral_mask)
  show "extractFloat32Exp a = uint a div 2 ^ 23 mod 2 ^ 8"
    by (simp add: extractFloat32Exp_def uint_and_numeral_mask uint_c_shr)
  have "c_shr a 31 \<noteq> 0 \<longleftrightarrow> 1 \<le> uint a div 2 ^ 31"
    using uint_pos [of "c_shr a 31"] uint_c_shr [of 31 a] by (auto simp: word_uint_eq_iff)
  also have "\<dots> \<longleftrightarrow> 2 ^ 31 \<le> uint a" by (simp add: le_div_iff_mult_le)
  finally show "extractFloat32Sign a \<longleftrightarrow> 2 ^ 31 \<le> uint a" by (simp add: extractFloat32Sign_def)
qed

lemma float32_ranges:
  "0 \<le> extractFloat32Exp a" "extractFloat32Exp a \<le> 0xFF" "uint (extractFloat32Frac a) < 2 ^ 23"
  "0 \<le> mag32 a" "mag32 a < 2 ^ 31"
  by (simp_all add: float32_fields mag32_def)

lemma mag32_split: "mag32 a = extractFloat32Exp a * 2 ^ 23 + uint (extractFloat32Frac a)"
proof -
  have "uint a mod (2 ^ 23 * 2 ^ 8) = 2 ^ 23 * (uint a div 2 ^ 23 mod 2 ^ 8) + uint a mod 2 ^ 23"
    by (rule zmod_zmult2_eq) simp
  then show ?thesis by (simp add: mag32_def float32_fields)
qed

lemma uint_float32: "uint a = (if extractFloat32Sign a then 2 ^ 31 else 0) + mag32 a"
  using uint_lt2p [of a] int_mod_if_pos [of "uint a" "2 ^ 31"] by (simp add: mag32_def float32_fields)

text \<open>Significand with its implicit bit, and the exponent it is scaled by.\<close>

definition sig32 :: "float32 \<Rightarrow> int" where
  "sig32 a = (if extractFloat32Exp a = 0 then 0 else 2 ^ 23) + uint (extractFloat32Frac a)"

definition exp32 :: "float32 \<Rightarrow> int" where
  "exp32 a = (if extractFloat32Exp a = 0 then 1 else extractFloat32Exp a)"

lemma abs32_sig: "abs32 a = sig32 a * 2 ^ nat (exp32 a - 1)"
proof (cases "extractFloat32Exp a = 0")
  case True
  then show ?thesis using float32_ranges(3) [of a] fval_small [of "mag32 a" 23]
    by (simp add: mag32_split sig32_def exp32_def)
next
  case False
  then have "mag32 a = int (nat (extractFloat32Exp a - 1)) * 2 ^ 23 + sig32 a"
    using float32_ranges(1) [of a] by (simp add: mag32_split sig32_def left_diff_distrib)
  then show ?thesis using False float32_ranges(3) [of a] fval_binade [of 23 "sig32 a" "nat (extractFloat32Exp a - 1)"]
    by (simp add: sig32_def exp32_def)
qed

lemma sig32_ranges:
  "0 \<le> sig32 a" "sig32 a < 2 ^ 24" "1 \<le> exp32 a" "exp32 a \<le> 0xFF" "finite32 a \<Longrightarrow> exp32 a \<le> 0xFE"
  "extractFloat32Exp a \<noteq> 0 \<Longrightarrow> 2 ^ 23 \<le> sig32 a" "extractFloat32Exp a = 0 \<Longrightarrow> sig32 a < 2 ^ 23"
  using float32_ranges(1-3) [of a] by (auto simp: sig32_def exp32_def finite32_def)

definition round32 :: "int \<Rightarrow> int \<Rightarrow> int" where
  "round32 N D = min (round_mag 23 N D) float32_inf"

definition sign32 :: "bool \<Rightarrow> int" where "sign32 c = (if c then 2 ^ 31 else 0)"

lemma round32_normalize:
  assumes "nearest_even s" "0 < D" "0 \<le> N" "zSig \<noteq> 0" "uint zSig < 2 ^ 31" "- (2 ^ 14) \<le> zExp" "zExp < 2 ^ 14"
    "uint zSig * (D * 2 ^ nat zExp) = N * 2 ^ (7 + nat (- zExp))"
  shows "uint (fst (normalizeRoundAndPackFloat32 zSign zExp zSig s)) = sign32 zSign + round32 N D"
  using normalizeRoundAndPackFloat32_round [OF assms(1-7)] assms(8) by (simp add: sign32_def round32_def)

lemma int32_to_float32_bits:
  assumes "nearest_even s"
  shows "uint (fst (int32_to_float32 a s)) = sign32 (sint a < 0) + round32 (\<bar>sint a\<bar> * 2 ^ 149) 1"
proof -
  have abs: "uint (if sint a < 0 then - a else a) = \<bar>sint a\<bar>" using uint_abs_word [of a] by (simp add: abs_word_def)
  consider "a = 0" | "a = 0x80000000" | "a \<noteq> 0" "a \<noteq> 0x80000000" by blast
  then show ?thesis
  proof cases
    case 1
    have "round_mag 23 0 1 = 0" using round_mag_exp [of 1 0 23 0] by (simp add: rne_div_def)
    with 1 show ?thesis by (simp add: int32_to_float32_def sign32_def round32_def float32_inf_def)
  next
    case 2
    have "round_mag 23 (2 ^ 180) 1 = 157 * 2 ^ 23 + rne_div (2 ^ 180) (2 ^ 157)"
      using round_mag_exp [of 1 157 23 "2 ^ 180"] by simp
    moreover have "rne_div (2 ^ 180) (2 ^ 157) = 2 ^ 23" by (simp add: rne_div_def)
    moreover have "sint a = - (2 ^ 31)" using 2 by simp
    moreover have "uint (packFloat32 True 0x9E 0) = 2 ^ 31 + 0x9E * 2 ^ 23"
      by (subst packFloat32_finite) simp_all
    ultimately show ?thesis using 2
      by (simp add: int32_to_float32_def sign32_def round32_def float32_inf_def)
  next
    case 3
    let ?z = "if sint a < 0 then - a else a"
    have "uint a \<noteq> 2 ^ 31" using 3(2) by (simp add: word_uint_eq_iff)
    then have "sint a \<noteq> - (2 ^ 31)" using sint_eq [of a] by (intro notI) simp
    then have lt: "uint ?z < 2 ^ 31" 
      unfolding abs using sint_ge [of a] sint_lt [of a] by (simp add: abs_if)
    have nz: "?z \<noteq> 0" using 3(1) by auto
    have "fst (int32_to_float32 a s) = fst (normalizeRoundAndPackFloat32 (sint a < 0) 0x9C ?z s)"
      using 3 by (simp add: int32_to_float32_def)
    also have "uint \<dots> = sign32 (sint a < 0) + round32 (\<bar>sint a\<bar> * 2 ^ 149) 1"
      using lt nz by (intro round32_normalize [OF assms]) (simp_all add: abs)
    finally show ?thesis .
  qed
qed

lemma uint_or_implicit:
  "uint x < 2 ^ 29 \<Longrightarrow> uint (x OR 0x20000000) = uint x + 2 ^ 29"
  "uint x < 2 ^ 30 \<Longrightarrow> uint (x OR 0x40000000) = uint x + 2 ^ 30"
  "uint x < 2 ^ 23 \<Longrightarrow> uint (x OR 0x00800000) = uint x + 2 ^ 23" for x :: bits32
  using uint_or_exp [of x 29] uint_or_exp [of x 30] uint_or_exp [of x 23] by simp_all

lemma round32_pack:
  assumes "nearest_even s" "0 < D" "0 \<le> N"
    "sticks 6 (uint zSig) N' D'" "0 < D'" "N' * (D * 2 ^ nat zExp) = N * 2 ^ (7 + nat (- zExp)) * D'"
    "uint zSig < 2 ^ 31" "- (2 ^ 15) \<le> zExp" "zExp < 2 ^ 15" "2 ^ 30 \<le> uint zSig \<or> zExp \<le> 0"
  shows "uint (fst (roundAndPackFloat32 zSign zExp zSig s)) = sign32 zSign + round32 N D"
proof -
  have "sticks 6 (uint zSig) (N * 2 ^ (7 + nat (- zExp))) (D * 2 ^ nat zExp)"
    using assms(2,5,6) by (intro sticks_cross [OF assms(4)]) simp_all
  from roundAndPackFloat32_round [OF assms(1-3) this assms(7-10)] show ?thesis
    by (simp add: sign32_def round32_def)
qed

end
