(* ===== verification/Float64.thy ===== *)
theory Float64
  imports Float32
begin

text \<open>
  The double-precision routines of \<open>newlib/libc/sys/tce/float_emulation.c\<close>, on pairs of 32-bit
  words, the conversions between the two formats and the 64-bit integer conversions of the
  \<open>__TCE64__\<close> build.  The conventions are those of the single-precision theory; the conversions to
  64-bit integers return \<open>None\<close> where the source shifts a 64-bit value by 64 or more, which C leaves
  undefined.
\<close>

section \<open>Normalizing, rounding and packing\<close>

definition normalizeFloat64Subnormal :: "bits32 \<Rightarrow> bits32 \<Rightarrow> int \<times> bits32 \<times> bits32" where
  "normalizeFloat64Subnormal aSig0 aSig1 =
     (if aSig0 = 0
      then let shiftCount = countLeadingZeros32 aSig1 - 11
           in if shiftCount < 0
              then (- shiftCount - 31, c_shr aSig1 (- shiftCount), c_shl aSig1 (shiftCount AND 31))
              else (- shiftCount - 31, c_shl aSig1 shiftCount, 0)
      else let shiftCount = countLeadingZeros32 aSig0 - 11
           in (1 - shiftCount, shortShift64Left aSig0 aSig1 shiftCount))"

text \<open>The directed-rounding part of the increment, written twice in \<open>roundAndPackFloat64\<close>.\<close>

definition directedIncrement64 :: "int \<Rightarrow> flag \<Rightarrow> bits32 \<Rightarrow> flag" where
  "directedIncrement64 roundingMode zSign zSig2 \<longleftrightarrow>
     (if zSign then roundingMode = float_round_down \<and> zSig2 \<noteq> 0
      else roundingMode = float_round_up \<and> zSig2 \<noteq> 0)"

definition roundAndPackFloat64 ::
  "flag \<Rightarrow> int \<Rightarrow> bits32 \<Rightarrow> bits32 \<Rightarrow> bits32 \<Rightarrow> fp_env \<Rightarrow> float64 \<times> fp_env" where
  "roundAndPackFloat64 zSign zExp zSig0 zSig1 zSig2 s =
     (let roundingMode = float_rounding_mode s;
          roundNearestEven = (roundingMode = float_round_nearest_even);
          increment =
            (if roundNearestEven then sint zSig2 < 0
             else if roundingMode = float_round_to_zero then False
             else directedIncrement64 roundingMode zSign zSig2);
          special = (0x7FD \<le> zExp mod 2 ^ 16)
      in if special \<and>
            (0x7FD < zExp \<or> zExp = 0x7FD \<and> eq64 0x001FFFFF 0xFFFFFFFF zSig0 zSig1 \<and> increment)
         then (if roundingMode = float_round_to_zero \<or> zSign \<and> roundingMode = float_round_up \<or>
                  \<not> zSign \<and> roundingMode = float_round_down
               then packFloat64 zSign 0x7FE 0x000FFFFF 0xFFFFFFFF
               else packFloat64 zSign 0x7FF 0 0,
               float_raise (float_flag_overflow OR float_flag_inexact) s)
         else
           let (zExp, zSig0, zSig1, zSig2, increment, s) =
                 (if special \<and> zExp < 0
                  then let isTiny = (float_detect_tininess s = float_tininess_before_rounding \<or>
                                     zExp < - 1 \<or> \<not> increment \<or> lt64 zSig0 zSig1 0x001FFFFF 0xFFFFFFFF);
                           (zSig0, zSig1, zSig2) = shift64ExtraRightJamming zSig0 zSig1 zSig2 (- zExp);
                           increment =
                             (if roundNearestEven then sint zSig2 < 0
                              else directedIncrement64 roundingMode zSign zSig2)
                       in (0, zSig0, zSig1, zSig2, increment,
                           raise_if (isTiny \<and> zSig2 \<noteq> 0) float_flag_underflow s)
                  else (zExp, zSig0, zSig1, zSig2, increment, s));
               s = raise_if (zSig2 \<noteq> 0) float_flag_inexact s
           in if increment
              then let (zSig0, zSig1) = add64 zSig0 zSig1 0 1;
                       zSig1 = zSig1 AND NOT (bit_of (zSig2 + zSig2 = 0 \<and> roundNearestEven))
                   in (packFloat64 zSign zExp zSig0 zSig1, s)
              else (packFloat64 zSign (if zSig0 OR zSig1 = 0 then 0 else zExp) zSig0 zSig1, s))"

definition normalizeRoundAndPackFloat64 ::
  "flag \<Rightarrow> int \<Rightarrow> bits32 \<Rightarrow> bits32 \<Rightarrow> fp_env \<Rightarrow> float64 \<times> fp_env" where
  "normalizeRoundAndPackFloat64 zSign zExp zSig0 zSig1 s =
     (let (zSig0, zSig1, zExp) = (if zSig0 = 0 then (zSig1, 0, zExp - 32) else (zSig0, zSig1, zExp));
          shiftCount = countLeadingZeros32 zSig0 - 11;
          (zSig0, zSig1, zSig2) =
            (if 0 \<le> shiftCount
             then let (zSig0, zSig1) = shortShift64Left zSig0 zSig1 shiftCount in (zSig0, zSig1, 0)
             else shift64ExtraRightJamming zSig0 zSig1 0 (- shiftCount));
          zExp = zExp - shiftCount
      in roundAndPackFloat64 zSign zExp zSig0 zSig1 zSig2 s)"

text \<open>The code at the labels \<open>invalid\<close> that build the default NaN.\<close>

definition float64_invalid :: "fp_env \<Rightarrow> float64 \<times> fp_env" where
  "float64_invalid s =
     (\<lparr>low = float64_default_nan_low, high = float64_default_nan_high\<rparr>,
      float_raise float_flag_invalid s)"

section \<open>Conversions\<close>

definition int32_to_float64 :: "bits32 \<Rightarrow> float64" where
  "int32_to_float64 a =
     (if a = 0 then packFloat64 False 0 0 0
      else let zSign = sint a < 0;
               absA = (if zSign then - a else a);
               shiftCount = countLeadingZeros32 absA - 11;
               (zSig0, zSig1) =
                 (if 0 \<le> shiftCount then (c_shl absA shiftCount, 0)
                  else shift64Right absA 0 (- shiftCount))
           in packFloat64 zSign (0x412 - shiftCount) zSig0 zSig1)"

definition float32_to_float64 :: "float32 \<Rightarrow> fp_env \<Rightarrow> float64 \<times> fp_env" where
  "float32_to_float64 a s =
     (let aSig = extractFloat32Frac a; aExp = extractFloat32Exp a; aSign = extractFloat32Sign a
      in if aExp = 0xFF
         then if aSig \<noteq> 0
              then let (z, s) = float32ToCommonNaN a s in (commonNaNToFloat64 z, s)
              else (packFloat64 aSign 0x7FF 0 0, s)
         else if aExp = 0 \<and> aSig = 0 then (packFloat64 aSign 0 0 0, s)
         else
           let (aExp, aSig) =
                 (if aExp = 0
                  then let (aExp, aSig) = normalizeFloat32Subnormal aSig in (aExp - 1, aSig)
                  else (aExp, aSig));
               (zSig0, zSig1) = shift64Right aSig 0 3
           in (packFloat64 aSign (aExp + 0x380) zSig0 zSig1, s))"

definition float64_to_float32 :: "float64 \<Rightarrow> fp_env \<Rightarrow> float32 \<times> fp_env" where
  "float64_to_float32 a s =
     (let aSig1 = extractFloat64Frac1 a; aSig0 = extractFloat64Frac0 a;
          aExp = extractFloat64Exp a; aSign = extractFloat64Sign a
      in if aExp = 0x7FF
         then if aSig0 OR aSig1 \<noteq> 0
              then let (z, s) = float64ToCommonNaN a s in (commonNaNToFloat32 z, s)
              else (packFloat32 aSign 0xFF 0, s)
         else
           let (allZero, zSig) = shift64RightJamming aSig0 aSig1 22;
               zSig = (if aExp \<noteq> 0 then zSig OR 0x40000000 else zSig)
           in roundAndPackFloat32 aSign (aExp - 0x381) zSig s)"

definition float64_to_int32 :: "float64 \<Rightarrow> fp_env \<Rightarrow> bits32 \<times> fp_env" where
  "float64_to_int32 a s =
     (let aSig1 = extractFloat64Frac1 a; aSig0 = extractFloat64Frac0 a;
          aExp = extractFloat64Exp a; aSign = extractFloat64Sign a;
          shiftCount = aExp - 0x413;
          invalid = (\<lambda>aSign. (if aSign then 0x80000000 else 0x7FFFFFFF,
                             float_raise float_flag_invalid s));
          finish = (\<lambda>absZ aSigExtra.
            let roundingMode = float_rounding_mode s;
                z = (if roundingMode = float_round_nearest_even
                     then let absZ = (if sint aSigExtra < 0
                                      then let absZ = absZ + 1
                                           in if c_shl aSigExtra 1 = 0 then absZ AND NOT 1 else absZ
                                      else absZ)
                          in if aSign then - absZ else absZ
                     else if aSign
                     then - (absZ + bit_of (roundingMode = float_round_down \<and> aSigExtra \<noteq> 0))
                     else absZ + bit_of (roundingMode = float_round_up \<and> aSigExtra \<noteq> 0))
            in if aSign \<noteq> (sint z < 0) \<and> z \<noteq> 0 then invalid aSign
               else (z, raise_if (aSigExtra \<noteq> 0) float_flag_inexact s))
      in if 0 \<le> shiftCount
         then
           if 0x41E < aExp
           then invalid (if aExp = 0x7FF \<and> aSig0 OR aSig1 \<noteq> 0 then False else aSign)
           else
             let (absZ, aSigExtra) = shortShift64Left (aSig0 OR 0x00100000) aSig1 shiftCount
             in if 0x80000000 < absZ then invalid aSign else finish absZ aSigExtra
         else
           let aSig1 = bit_of (aSig1 \<noteq> 0)
           in if aExp < 0x3FE then finish 0 (word_of_int aExp OR aSig0 OR aSig1)
              else let aSig0 = aSig0 OR 0x00100000
                   in finish (c_shr aSig0 (- shiftCount)) (c_shl aSig0 (shiftCount AND 31) OR aSig1))"

definition float64_to_int32_round_to_zero :: "float64 \<Rightarrow> fp_env \<Rightarrow> bits32 \<times> fp_env" where
  "float64_to_int32_round_to_zero a s =
     (let aSig1 = extractFloat64Frac1 a; aSig0 = extractFloat64Frac0 a;
          aExp = extractFloat64Exp a; aSign = extractFloat64Sign a;
          shiftCount = aExp - 0x413;
          invalid = (\<lambda>aSign. (if aSign then 0x80000000 else 0x7FFFFFFF,
                             float_raise float_flag_invalid s));
          finish = (\<lambda>absZ aSigExtra.
            let z = (if aSign then - absZ else absZ)
            in if aSign \<noteq> (sint z < 0) \<and> z \<noteq> 0 then invalid aSign
               else (z, raise_if (aSigExtra \<noteq> 0) float_flag_inexact s))
      in if 0 \<le> shiftCount
         then
           if 0x41E < aExp
           then invalid (if aExp = 0x7FF \<and> aSig0 OR aSig1 \<noteq> 0 then False else aSign)
           else
             let (absZ, aSigExtra) = shortShift64Left (aSig0 OR 0x00100000) aSig1 shiftCount
             in finish absZ aSigExtra
         else if aExp < 0x3FF
         then (0, raise_if (word_of_int aExp OR aSig0 OR aSig1 \<noteq> 0) float_flag_inexact s)
         else
           let aSig0 = aSig0 OR 0x00100000
           in finish (c_shr aSig0 (- shiftCount)) (c_shl aSig0 (shiftCount AND 31) OR aSig1))"

definition extractFloat64Frac :: "float64 \<Rightarrow> bits64" where
  "extractFloat64Frac a = ucast (low a) OR c_shl (ucast (high a AND 0x000FFFFF)) 32"

text \<open>
  The common body of \<open>float64_to_int64_round_to_zero\<close> and \<open>float64_to_uint64\<close>; they differ in the
  largest exponent and in an early return.
\<close>

definition float64_to_64bit :: "int \<Rightarrow> float64 \<Rightarrow> fp_env \<Rightarrow> (bits64 \<times> fp_env) option" where
  "float64_to_64bit maxExp a s =
     (let aSig = extractFloat64Frac a; aExp = extractFloat64Exp a; aSign = extractFloat64Sign a;
          shiftCount = aExp - 0x433;
          invalid = (\<lambda>aSign. (if aSign then 0x8000000000000000 else 0x7FFFFFFFFFFFFFFF,
                             float_raise float_flag_invalid s));
          finish = (\<lambda>absZ. let z = (if aSign then - absZ else absZ)
                          in if aSign \<noteq> (sint z < 0) \<and> z \<noteq> 0 then invalid aSign else (z, s))
      in if 0 \<le> shiftCount
         then
           if maxExp < aExp
           then Some (invalid (if aExp = 0x7FF \<and> aSig \<noteq> 0 then False else aSign))
           else if 64 \<le> shiftCount then None
           else Some (finish (c_shl (aSig OR 0x0010000000000000) shiftCount))
         else if aExp < 0x3FF
         then Some (0, raise_if (word_of_int aExp OR aSig \<noteq> 0) float_flag_inexact s)
         else Some (finish (c_shr (aSig OR 0x0010000000000000) (- shiftCount))))"

definition float64_to_int64_round_to_zero :: "float64 \<Rightarrow> fp_env \<Rightarrow> (bits64 \<times> fp_env) option" where
  "float64_to_int64_round_to_zero a s = float64_to_64bit 0x61E a s"

definition float64_to_uint64 :: "float64 \<Rightarrow> fp_env \<Rightarrow> (bits64 \<times> fp_env) option" where
  "float64_to_uint64 a s =
     (if extractFloat64Frac a \<noteq> 0 then Some (0, s) else float64_to_64bit 0x61F a s)"

definition uint64_to_float64 :: "bits64 \<Rightarrow> float64" where
  "uint64_to_float64 absA =
     (let zSign = False
      in if absA = 0 then packFloat64 False 0 0 0
         else let shiftCount = countLeadingZeros64 absA - 11;
                  zSig = (if 0 \<le> shiftCount then c_shl absA shiftCount else c_shr absA (- shiftCount));
                  zSig0 = ucast (c_shr zSig 32);
                  zSig1 = ucast (zSig AND 0xFFFFFFFF)
              in packFloat64 zSign (0x432 - shiftCount) zSig0 zSig1)"

definition int64_to_float64 :: "bits64 \<Rightarrow> float64" where
  "int64_to_float64 a =
     (if a = 0 then packFloat64 False 0 0 0
      else let zSign = sint a < 0;
               absA = (if zSign then - a else a);
               shiftCount = countLeadingZeros64 absA - 11;
               zSig = (if 0 \<le> shiftCount then c_shl absA shiftCount else c_shr absA (- shiftCount));
               zSig0 = ucast (c_shr zSig 32);
               zSig1 = ucast (zSig AND 0xFFFFFFFF)
           in packFloat64 zSign (0x432 - shiftCount) zSig0 zSig1)"

section \<open>Rounding to an integral value\<close>

definition float64_round_to_int :: "float64 \<Rightarrow> fp_env \<Rightarrow> float64 \<times> fp_env" where
  "float64_round_to_int a s =
     (let aExp = extractFloat64Exp a; roundingMode = float_rounding_mode s;
          finish = (\<lambda>z. (z, raise_if (low z \<noteq> low a \<or> high z \<noteq> high a) float_flag_inexact s))
      in if 0x413 \<le> aExp
         then
           if 0x433 \<le> aExp
           then if aExp = 0x7FF \<and> extractFloat64Frac0 a OR extractFloat64Frac1 a \<noteq> 0
                then propagateFloat64NaN a a s else (a, s)
           else
             let lastBitMask = c_shl (c_shl 1 (0x432 - aExp)) 1;
                 roundBitsMask = lastBitMask - 1;
                 z = (if roundingMode = float_round_nearest_even
                      then if lastBitMask \<noteq> 0
                           then let (zhigh, zlow) = add64 (high a) (low a) 0 (c_shr lastBitMask 1)
                                in \<lparr>low = (if zlow AND roundBitsMask = 0 then zlow AND NOT lastBitMask
                                           else zlow), high = zhigh\<rparr>
                           else if sint (low a) < 0
                           then let zhigh = high a + 1
                                in a\<lparr>high := (if c_shl (low a) 1 = 0 then zhigh AND NOT 1 else zhigh)\<rparr>
                           else a
                      else if roundingMode \<noteq> float_round_to_zero \<and>
                              extractFloat64Sign a \<noteq> (roundingMode = float_round_up)
                      then let (zhigh, zlow) = add64 (high a) (low a) 0 roundBitsMask
                           in \<lparr>low = zlow, high = zhigh\<rparr>
                      else a)
             in finish (z\<lparr>low := low z AND NOT roundBitsMask\<rparr>)
         else if aExp \<le> 0x3FE
         then
           if c_shl (high a) 1 OR low a = 0 then (a, s)
           else
             let s = float_raise float_flag_inexact s; aSign = extractFloat64Sign a
             in if roundingMode = float_round_nearest_even \<and> aExp = 0x3FE \<and>
                   extractFloat64Frac0 a OR extractFloat64Frac1 a \<noteq> 0
                then (packFloat64 aSign 0x3FF 0 0, s)
                else if roundingMode = float_round_down
                then (if aSign then packFloat64 True 0x3FF 0 0 else packFloat64 False 0 0 0, s)
                else if roundingMode = float_round_up
                then (if aSign then packFloat64 True 0 0 0 else packFloat64 False 0x3FF 0 0, s)
                else (packFloat64 aSign 0 0 0, s)
         else
           let lastBitMask = c_shl 1 (0x413 - aExp);
               roundBitsMask = lastBitMask - 1;
               zhigh = high a;
               zhigh = (if roundingMode = float_round_nearest_even
                        then let zhigh = zhigh + c_shr lastBitMask 1
                             in if (zhigh AND roundBitsMask) OR low a = 0
                                then zhigh AND NOT lastBitMask else zhigh
                        else if roundingMode \<noteq> float_round_to_zero \<and>
                                extractFloat64Sign \<lparr>low = 0, high = zhigh\<rparr> \<noteq>
                                  (roundingMode = float_round_up)
                        then (zhigh OR bit_of (low a \<noteq> 0)) + roundBitsMask
                        else zhigh)
           in finish \<lparr>low = 0, high = zhigh AND NOT roundBitsMask\<rparr>)"

section \<open>Addition and subtraction\<close>

definition addFloat64Sigs :: "float64 \<Rightarrow> float64 \<Rightarrow> flag \<Rightarrow> fp_env \<Rightarrow> float64 \<times> fp_env" where
  "addFloat64Sigs a b zSign s =
     (let aSig1 = extractFloat64Frac1 a; aSig0 = extractFloat64Frac0 a; aExp = extractFloat64Exp a;
          bSig1 = extractFloat64Frac1 b; bSig0 = extractFloat64Frac0 b; bExp = extractFloat64Exp b;
          expDiff = aExp - bExp;
          shiftRight1 = (\<lambda>zSig0 zSig1 zSig2 zExp.
            let (zSig0, zSig1, zSig2) = shift64ExtraRightJamming zSig0 zSig1 zSig2 1
            in roundAndPackFloat64 zSign zExp zSig0 zSig1 zSig2 s);
          finish = (\<lambda>aSig0 aSig1 bSig0 bSig1 zSig2 zExp.
            let aSig0 = aSig0 OR 0x00100000;
                (zSig0, zSig1) = add64 aSig0 aSig1 bSig0 bSig1;
                zExp = zExp - 1
            in if zSig0 < 0x00200000 then roundAndPackFloat64 zSign zExp zSig0 zSig1 zSig2 s
               else shiftRight1 zSig0 zSig1 zSig2 (zExp + 1))
      in if 0 < expDiff
         then
           if aExp = 0x7FF
           then if aSig0 OR aSig1 \<noteq> 0 then propagateFloat64NaN a b s else (a, s)
           else
             let (expDiff, bSig0) =
                   (if bExp = 0 then (expDiff - 1, bSig0) else (expDiff, bSig0 OR 0x00100000));
                 (bSig0, bSig1, zSig2) = shift64ExtraRightJamming bSig0 bSig1 0 expDiff
             in finish aSig0 aSig1 bSig0 bSig1 zSig2 aExp
         else if expDiff < 0
         then
           if bExp = 0x7FF
           then if bSig0 OR bSig1 \<noteq> 0 then propagateFloat64NaN a b s
                else (packFloat64 zSign 0x7FF 0 0, s)
           else
             let (expDiff, aSig0) =
                   (if aExp = 0 then (expDiff + 1, aSig0) else (expDiff, aSig0 OR 0x00100000));
                 (aSig0, aSig1, zSig2) = shift64ExtraRightJamming aSig0 aSig1 0 (- expDiff)
             in finish aSig0 aSig1 bSig0 bSig1 zSig2 bExp
         else
           if aExp = 0x7FF
           then if aSig0 OR aSig1 OR bSig0 OR bSig1 \<noteq> 0 then propagateFloat64NaN a b s else (a, s)
           else
             let (zSig0, zSig1) = add64 aSig0 aSig1 bSig0 bSig1
             in if aExp = 0 then (packFloat64 zSign 0 zSig0 zSig1, s)
                else shiftRight1 (zSig0 OR 0x00200000) zSig1 0 aExp)"

definition subFloat64Sigs :: "float64 \<Rightarrow> float64 \<Rightarrow> flag \<Rightarrow> fp_env \<Rightarrow> float64 \<times> fp_env" where
  "subFloat64Sigs a b zSign s =
     (let aExp = extractFloat64Exp a; bExp = extractFloat64Exp b;
          expDiff = aExp - bExp;
          (aSig0, aSig1) = shortShift64Left (extractFloat64Frac0 a) (extractFloat64Frac1 a) 10;
          (bSig0, bSig1) = shortShift64Left (extractFloat64Frac0 b) (extractFloat64Frac1 b) 10;
          aBigger = (\<lambda>aSig0 aSig1 bSig0 bSig1 zExp.
            let (zSig0, zSig1) = sub64 aSig0 aSig1 bSig0 bSig1
            in normalizeRoundAndPackFloat64 zSign (zExp - 1 - 10) zSig0 zSig1 s);
          bBigger = (\<lambda>aSig0 aSig1 bSig0 bSig1 zExp.
            let (zSig0, zSig1) = sub64 bSig0 bSig1 aSig0 aSig1
            in normalizeRoundAndPackFloat64 (\<not> zSign) (zExp - 1 - 10) zSig0 zSig1 s)
      in if 0 < expDiff
         then
           if aExp = 0x7FF
           then if aSig0 OR aSig1 \<noteq> 0 then propagateFloat64NaN a b s else (a, s)
           else
             let (expDiff, bSig0) =
                   (if bExp = 0 then (expDiff - 1, bSig0) else (expDiff, bSig0 OR 0x40000000));
                 (bSig0, bSig1) = shift64RightJamming bSig0 bSig1 expDiff
             in aBigger (aSig0 OR 0x40000000) aSig1 bSig0 bSig1 aExp
         else if expDiff < 0
         then
           if bExp = 0x7FF
           then if bSig0 OR bSig1 \<noteq> 0 then propagateFloat64NaN a b s
                else (packFloat64 (\<not> zSign) 0x7FF 0 0, s)
           else
             let (expDiff, aSig0) =
                   (if aExp = 0 then (expDiff + 1, aSig0) else (expDiff, aSig0 OR 0x40000000));
                 (aSig0, aSig1) = shift64RightJamming aSig0 aSig1 (- expDiff)
             in bBigger aSig0 aSig1 (bSig0 OR 0x40000000) bSig1 bExp
         else if aExp = 0x7FF
         then if aSig0 OR aSig1 OR bSig0 OR bSig1 \<noteq> 0 then propagateFloat64NaN a b s
              else float64_invalid s
         else
           let (aExp, bExp) = (if aExp = 0 then (1, 1) else (aExp, bExp))
           in if bSig0 < aSig0 then aBigger aSig0 aSig1 bSig0 bSig1 aExp
              else if aSig0 < bSig0 then bBigger aSig0 aSig1 bSig0 bSig1 bExp
              else if bSig1 < aSig1 then aBigger aSig0 aSig1 bSig0 bSig1 aExp
              else if aSig1 < bSig1 then bBigger aSig0 aSig1 bSig0 bSig1 bExp
              else (packFloat64 (float_rounding_mode s = float_round_down) 0 0 0, s))"

definition float64_add :: "float64 \<Rightarrow> float64 \<Rightarrow> fp_env \<Rightarrow> float64 \<times> fp_env" where
  "float64_add a b s =
     (let aSign = extractFloat64Sign a; bSign = extractFloat64Sign b
      in if aSign = bSign then addFloat64Sigs a b aSign s else subFloat64Sigs a b aSign s)"

definition float64_sub :: "float64 \<Rightarrow> float64 \<Rightarrow> fp_env \<Rightarrow> float64 \<times> fp_env" where
  "float64_sub a b s =
     (let aSign = extractFloat64Sign a; bSign = extractFloat64Sign b
      in if aSign = bSign then subFloat64Sigs a b aSign s else addFloat64Sigs a b aSign s)"

section \<open>Multiplication\<close>

definition float64_mul :: "float64 \<Rightarrow> float64 \<Rightarrow> fp_env \<Rightarrow> float64 \<times> fp_env" where
  "float64_mul a b s =
     (let aSig1 = extractFloat64Frac1 a; aSig0 = extractFloat64Frac0 a;
          aExp = extractFloat64Exp a; aSign = extractFloat64Sign a;
          bSig1 = extractFloat64Frac1 b; bSig0 = extractFloat64Frac0 b;
          bExp = extractFloat64Exp b; bSign = extractFloat64Sign b;
          zSign = (aSign \<noteq> bSign)
      in if aExp = 0x7FF
         then if aSig0 OR aSig1 \<noteq> 0 \<or> bExp = 0x7FF \<and> bSig0 OR bSig1 \<noteq> 0
              then propagateFloat64NaN a b s
              else if word_of_int bExp OR bSig0 OR bSig1 = 0 then float64_invalid s
              else (packFloat64 zSign 0x7FF 0 0, s)
         else if bExp = 0x7FF
         then if bSig0 OR bSig1 \<noteq> 0 then propagateFloat64NaN a b s
              else if word_of_int aExp OR aSig0 OR aSig1 = 0 then float64_invalid s
              else (packFloat64 zSign 0x7FF 0 0, s)
         else if aExp = 0 \<and> aSig0 OR aSig1 = 0 then (packFloat64 zSign 0 0 0, s)
         else
           let (aExp, aSig0, aSig1) =
                 (if aExp = 0 then normalizeFloat64Subnormal aSig0 aSig1 else (aExp, aSig0, aSig1))
           in if bExp = 0 \<and> bSig0 OR bSig1 = 0 then (packFloat64 zSign 0 0 0, s)
              else
                let (bExp, bSig0, bSig1) =
                      (if bExp = 0 then normalizeFloat64Subnormal bSig0 bSig1
                       else (bExp, bSig0, bSig1));
                    zExp = aExp + bExp - 0x400;
                    aSig0 = aSig0 OR 0x00100000;
                    (bSig0, bSig1) = shortShift64Left bSig0 bSig1 12;
                    (zSig0, zSig1, zSig2, zSig3) = mul64To128 aSig0 aSig1 bSig0 bSig1;
                    (zSig0, zSig1) = add64 zSig0 zSig1 aSig0 aSig1;
                    zSig2 = zSig2 OR bit_of (zSig3 \<noteq> 0)
                in if 0x00200000 \<le> zSig0
                   then let (zSig0, zSig1, zSig2) = shift64ExtraRightJamming zSig0 zSig1 zSig2 1
                        in roundAndPackFloat64 zSign (zExp + 1) zSig0 zSig1 zSig2 s
                   else roundAndPackFloat64 zSign zExp zSig0 zSig1 zSig2 s)"

section \<open>Division\<close>

text \<open>The correction loop \<open>float64_div\<close> runs on both halves of the quotient.\<close>

partial_function (option) float64_div_loop ::
  "bits32 \<Rightarrow> bits32 \<Rightarrow> bits32 \<Rightarrow> bits32 \<Rightarrow> bits32 \<Rightarrow> bits32 \<Rightarrow> (bits32 \<times> bits32 \<times> bits32 \<times> bits32) option"
where
  "float64_div_loop bSig0 bSig1 zSig rem0 rem1 rem2 =
     (if sint rem0 < 0
      then let (rem0, rem1, rem2) = add96 rem0 rem1 rem2 0 bSig0 bSig1
           in float64_div_loop bSig0 bSig1 (zSig - 1) rem0 rem1 rem2
      else Some (zSig, rem0, rem1, rem2))"

declare float64_div_loop.simps [code]

definition float64_div :: "float64 \<Rightarrow> float64 \<Rightarrow> fp_env \<Rightarrow> (float64 \<times> fp_env) option" where
  "float64_div a b s =
     (let aSig1 = extractFloat64Frac1 a; aSig0 = extractFloat64Frac0 a;
          aExp = extractFloat64Exp a; aSign = extractFloat64Sign a;
          bSig1 = extractFloat64Frac1 b; bSig0 = extractFloat64Frac0 b;
          bExp = extractFloat64Exp b; bSign = extractFloat64Sign b;
          zSign = (aSign \<noteq> bSign)
      in if aExp = 0x7FF
         then if aSig0 OR aSig1 \<noteq> 0 then Some (propagateFloat64NaN a b s)
              else if bExp = 0x7FF
              then if bSig0 OR bSig1 \<noteq> 0 then Some (propagateFloat64NaN a b s)
                   else Some (float64_invalid s)
              else Some (packFloat64 zSign 0x7FF 0 0, s)
         else if bExp = 0x7FF
         then if bSig0 OR bSig1 \<noteq> 0 then Some (propagateFloat64NaN a b s)
              else Some (packFloat64 zSign 0 0 0, s)
         else if bExp = 0 \<and> bSig0 OR bSig1 = 0
         then if word_of_int aExp OR aSig0 OR aSig1 = 0 then Some (float64_invalid s)
              else Some (packFloat64 zSign 0x7FF 0 0, float_raise float_flag_divbyzero s)
         else
           let (bExp, bSig0, bSig1) =
                 (if bExp = 0 then normalizeFloat64Subnormal bSig0 bSig1 else (bExp, bSig0, bSig1))
           in if aExp = 0 \<and> aSig0 OR aSig1 = 0 then Some (packFloat64 zSign 0 0 0, s)
              else
                let (aExp, aSig0, aSig1) =
                      (if aExp = 0 then normalizeFloat64Subnormal aSig0 aSig1
                       else (aExp, aSig0, aSig1));
                    zExp = aExp - bExp + 0x3FD;
                    (aSig0, aSig1) = shortShift64Left (aSig0 OR 0x00100000) aSig1 11;
                    (bSig0, bSig1) = shortShift64Left (bSig0 OR 0x00100000) bSig1 11;
                    ((aSig0, aSig1), zExp) =
                      (if le64 bSig0 bSig1 aSig0 aSig1 then (shift64Right aSig0 aSig1 1, zExp + 1)
                       else ((aSig0, aSig1), zExp))
                in do {
                  zSig0 \<leftarrow> estimateDiv64To32 aSig0 aSig1 bSig0;
                  let (term0, term1, term2) = mul64By32To96 bSig0 bSig1 zSig0;
                  let (rem0, rem1, rem2) = sub96 aSig0 aSig1 0 term0 term1 term2;
                  (zSig0, rem0, rem1, rem2) \<leftarrow> float64_div_loop bSig0 bSig1 zSig0 rem0 rem1 rem2;
                  zSig1 \<leftarrow> estimateDiv64To32 rem1 rem2 bSig0;
                  zSig1 \<leftarrow>
                    (if zSig1 AND 0x3FF \<le> 4
                     then
                       let (term1, term2, term3) = mul64By32To96 bSig0 bSig1 zSig1;
                           (rem1, rem2, rem3) = sub96 rem1 rem2 0 term1 term2 term3
                       in do {
                         (zSig1, rem1, rem2, rem3) \<leftarrow>
                           float64_div_loop bSig0 bSig1 zSig1 rem1 rem2 rem3;
                         Some (zSig1 OR bit_of (rem1 OR rem2 OR rem3 \<noteq> 0)) }
                     else Some zSig1);
                  let (zSig0, zSig1, zSig2) = shift64ExtraRightJamming zSig0 zSig1 0 11;
                  Some (roundAndPackFloat64 zSign zExp zSig0 zSig1 zSig2 s) })"

section \<open>Remainder\<close>

function float64_rem_reduce ::
  "bits32 \<Rightarrow> bits32 \<Rightarrow> bits32 \<Rightarrow> bits32 \<Rightarrow> bits32 \<Rightarrow> int \<Rightarrow> (bits32 \<times> bits32 \<times> bits32 \<times> int) option" where
  "float64_rem_reduce bSig0 bSig1 q aSig0 aSig1 expDiff =
     (if 0 < expDiff
      then do {
        q \<leftarrow> estimateDiv64To32 aSig0 aSig1 bSig0;
        let q = (if 4 < q then q - 4 else 0);
        let (term0, term1, term2) = mul64By32To96 bSig0 bSig1 q;
        let (term1, term2, allZero) = shortShift96Left term0 term1 term2 29;
        let (aSig0, allZero) = shortShift64Left aSig0 aSig1 29;
        let (aSig0, aSig1) = sub64 aSig0 0 term1 term2;
        float64_rem_reduce bSig0 bSig1 q aSig0 aSig1 (expDiff - 29) }
      else Some (q, aSig0, aSig1, expDiff))"
  by pat_completeness auto
termination float64_rem_reduce
  by (relation "measure (\<lambda>(bSig0, bSig1, q, aSig0, aSig1, expDiff). nat expDiff)") auto

text \<open>The final \<open>do ... while\<close>; the result holds \<open>alternateASig\<close>, \<open>q\<close> and \<open>aSig\<close>.\<close>

partial_function (option) float64_rem_final ::
  "bits32 \<Rightarrow> bits32 \<Rightarrow> bits32 \<Rightarrow> bits32 \<Rightarrow> bits32 \<Rightarrow>
     ((bits32 \<times> bits32) \<times> bits32 \<times> bits32 \<times> bits32) option" where
  "float64_rem_final bSig0 bSig1 q aSig0 aSig1 =
     (let (zSig0, zSig1) = sub64 aSig0 aSig1 bSig0 bSig1
      in if 0 \<le> sint zSig0 then float64_rem_final bSig0 bSig1 (q + 1) zSig0 zSig1
         else Some ((aSig0, aSig1), q + 1, zSig0, zSig1))"

declare float64_rem_final.simps [code]

definition float64_rem :: "float64 \<Rightarrow> float64 \<Rightarrow> fp_env \<Rightarrow> (float64 \<times> fp_env) option" where
  "float64_rem a b s =
     (let aSig1 = extractFloat64Frac1 a; aSig0 = extractFloat64Frac0 a;
          aExp = extractFloat64Exp a; aSign = extractFloat64Sign a;
          bSig1 = extractFloat64Frac1 b; bSig0 = extractFloat64Frac0 b;
          bExp = extractFloat64Exp b
      in if aExp = 0x7FF
         then if aSig0 OR aSig1 \<noteq> 0 \<or> bExp = 0x7FF \<and> bSig0 OR bSig1 \<noteq> 0
              then Some (propagateFloat64NaN a b s) else Some (float64_invalid s)
         else if bExp = 0x7FF
         then if bSig0 OR bSig1 \<noteq> 0 then Some (propagateFloat64NaN a b s) else Some (a, s)
         else if bExp = 0 \<and> bSig0 OR bSig1 = 0 then Some (float64_invalid s)
         else
           let (bExp, bSig0, bSig1) =
                 (if bExp = 0 then normalizeFloat64Subnormal bSig0 bSig1 else (bExp, bSig0, bSig1))
           in if aExp = 0 \<and> aSig0 OR aSig1 = 0 then Some (a, s)
              else
                let (aExp, aSig0, aSig1) =
                      (if aExp = 0 then normalizeFloat64Subnormal aSig0 aSig1
                       else (aExp, aSig0, aSig1));
                    expDiff = aExp - bExp
                in if expDiff < - 1 then Some (a, s)
                   else
                     let (aSig0, aSig1) =
                           shortShift64Left (aSig0 OR 0x00100000) aSig1
                             (11 - (if expDiff < 0 then 1 else 0));
                         (bSig0, bSig1) = shortShift64Left (bSig0 OR 0x00100000) bSig1 11;
                         q = bit_of (le64 bSig0 bSig1 aSig0 aSig1);
                         (aSig0, aSig1) =
                           (if q \<noteq> 0 then sub64 aSig0 aSig1 bSig0 bSig1 else (aSig0, aSig1))
                     in do {
                       (q, aSig0, aSig1, expDiff) \<leftarrow>
                         float64_rem_reduce bSig0 bSig1 q aSig0 aSig1 (expDiff - 32);
                       (q, (aSig0, aSig1), (bSig0, bSig1)) \<leftarrow>
                         (if - 32 < expDiff
                          then do {
                            q \<leftarrow> estimateDiv64To32 aSig0 aSig1 bSig0;
                            let q = (if 4 < q then q - 4 else 0);
                            let q = c_shr q (- expDiff);
                            let (bSig0, bSig1) = shift64Right bSig0 bSig1 8;
                            let expDiff = expDiff + 24;
                            let (aSig0, aSig1) =
                              (if expDiff < 0 then shift64Right aSig0 aSig1 (- expDiff)
                               else shortShift64Left aSig0 aSig1 expDiff);
                            let (term0, term1, term2) = mul64By32To96 bSig0 bSig1 q;
                            Some (q, sub64 aSig0 aSig1 term1 term2, (bSig0, bSig1)) }
                          else Some (q, shift64Right aSig0 aSig1 8, shift64Right bSig0 bSig1 8));
                       ((alternateASig0, alternateASig1), q, aSig0, aSig1) \<leftarrow>
                         float64_rem_final bSig0 bSig1 q aSig0 aSig1;
                       let (sigMean0, sigMean1) = add64 aSig0 aSig1 alternateASig0 alternateASig1;
                       let (aSig0, aSig1) =
                         (if sint sigMean0 < 0 \<or> sigMean0 OR sigMean1 = 0 \<and> q AND 1 \<noteq> 0
                          then (alternateASig0, alternateASig1) else (aSig0, aSig1));
                       let zSign = sint aSig0 < 0;
                       let (aSig0, aSig1) = (if zSign then sub64 0 0 aSig0 aSig1 else (aSig0, aSig1));
                       Some (normalizeRoundAndPackFloat64 (aSign \<noteq> zSign) (bExp - 4) aSig0 aSig1 s) })"

section \<open>Square root\<close>

partial_function (option) float64_sqrt_loop0 ::
  "bits32 \<Rightarrow> bits32 \<Rightarrow> bits32 \<Rightarrow> bits32 \<Rightarrow> (bits32 \<times> bits32 \<times> bits32 \<times> bits32) option" where
  "float64_sqrt_loop0 zSig0 doubleZSig0 rem0 rem1 =
     (if sint rem0 < 0
      then let zSig0 = zSig0 - 1; doubleZSig0 = doubleZSig0 - 2;
               (rem0, rem1) = add64 rem0 rem1 0 (doubleZSig0 OR 1)
           in float64_sqrt_loop0 zSig0 doubleZSig0 rem0 rem1
      else Some (zSig0, doubleZSig0, rem0, rem1))"

declare float64_sqrt_loop0.simps [code]

partial_function (option) float64_sqrt_loop1 ::
  "bits32 \<Rightarrow> bits32 \<Rightarrow> bits32 \<Rightarrow> bits32 \<Rightarrow> bits32 \<Rightarrow> (bits32 \<times> bits32 \<times> bits32 \<times> bits32) option" where
  "float64_sqrt_loop1 doubleZSig0 zSig1 rem1 rem2 rem3 =
     (if sint rem1 < 0
      then let zSig1 = zSig1 - 1;
               (term2, term3) = shortShift64Left 0 zSig1 1;
               term3 = term3 OR 1;
               term2 = term2 OR doubleZSig0;
               (rem1, rem2, rem3) = add96 rem1 rem2 rem3 0 term2 term3
           in float64_sqrt_loop1 doubleZSig0 zSig1 rem1 rem2 rem3
      else Some (zSig1, rem1, rem2, rem3))"

declare float64_sqrt_loop1.simps [code]

definition float64_sqrt :: "float64 \<Rightarrow> fp_env \<Rightarrow> (float64 \<times> fp_env) option" where
  "float64_sqrt a s =
     (let aSig1 = extractFloat64Frac1 a; aSig0 = extractFloat64Frac0 a;
          aExp = extractFloat64Exp a; aSign = extractFloat64Sign a
      in if aExp = 0x7FF
         then if aSig0 OR aSig1 \<noteq> 0 then Some (propagateFloat64NaN a a s)
              else if \<not> aSign then Some (a, s) else Some (float64_invalid s)
         else if aSign
         then if word_of_int aExp OR aSig0 OR aSig1 = 0 then Some (a, s)
              else Some (float64_invalid s)
         else if aExp = 0 \<and> aSig0 OR aSig1 = 0 then Some (packFloat64 False 0 0 0, s)
         else
           let (aExp, aSig0, aSig1) =
                 (if aExp = 0 then normalizeFloat64Subnormal aSig0 aSig1 else (aExp, aSig0, aSig1));
               zExp = (aExp - 0x3FF) div 2 + 0x3FE;
               aSig0 = aSig0 OR 0x00100000;
               (term0, term1) = shortShift64Left aSig0 aSig1 11
           in do {
             e \<leftarrow> estimateSqrt32 aExp term0;
             let zSig0 = c_shr e 1 + 1;
             let zSig0 = (if zSig0 = 0 then 0x7FFFFFFF else zSig0);
             let doubleZSig0 = zSig0 + zSig0;
             let (aSig0, aSig1) = shortShift64Left aSig0 aSig1 (9 - (aExp AND 1));
             let (term0, term1) = mul32To64 zSig0 zSig0;
             let (rem0, rem1) = sub64 aSig0 aSig1 term0 term1;
             (zSig0, doubleZSig0, rem0, rem1) \<leftarrow> float64_sqrt_loop0 zSig0 doubleZSig0 rem0 rem1;
             zSig1 \<leftarrow> estimateDiv64To32 rem1 0 doubleZSig0;
             zSig1 \<leftarrow>
               (if zSig1 AND 0x1FF \<le> 5
                then
                  let zSig1 = (if zSig1 = 0 then 1 else zSig1);
                      (term1, term2) = mul32To64 doubleZSig0 zSig1;
                      (rem1, rem2) = sub64 rem1 0 term1 term2;
                      (term2, term3) = mul32To64 zSig1 zSig1;
                      (rem1, rem2, rem3) = sub96 rem1 rem2 0 0 term2 term3
                  in do {
                    (zSig1, rem1, rem2, rem3) \<leftarrow>
                      float64_sqrt_loop1 doubleZSig0 zSig1 rem1 rem2 rem3;
                    Some (zSig1 OR bit_of (rem1 OR rem2 OR rem3 \<noteq> 0)) }
                else Some zSig1);
             let (zSig0, zSig1, zSig2) = shift64ExtraRightJamming zSig0 zSig1 0 10;
             Some (roundAndPackFloat64 False zExp zSig0 zSig1 zSig2 s) })"

section \<open>Comparisons\<close>

definition float64_unordered :: "float64 \<Rightarrow> float64 \<Rightarrow> bool" where
  "float64_unordered a b \<longleftrightarrow>
     extractFloat64Exp a = 0x7FF \<and> extractFloat64Frac0 a OR extractFloat64Frac1 a \<noteq> 0 \<or>
     extractFloat64Exp b = 0x7FF \<and> extractFloat64Frac0 b OR extractFloat64Frac1 b \<noteq> 0"

definition float64_eq :: "float64 \<Rightarrow> float64 \<Rightarrow> fp_env \<Rightarrow> flag \<times> fp_env" where
  "float64_eq a b s =
     (if float64_unordered a b
      then (False, raise_if (float64_is_signaling_nan a \<or> float64_is_signaling_nan b)
                     float_flag_invalid s)
      else (low a = low b \<and>
            (high a = high b \<or> low a = 0 \<and> c_shl (high a OR high b) 1 = 0), s))"

definition float64_le :: "float64 \<Rightarrow> float64 \<Rightarrow> fp_env \<Rightarrow> flag \<times> fp_env" where
  "float64_le a b s =
     (if float64_unordered a b then (False, float_raise float_flag_invalid s)
      else let aSign = extractFloat64Sign a; bSign = extractFloat64Sign b
           in if aSign \<noteq> bSign
              then (aSign \<or> c_shl (high a OR high b) 1 OR low a OR low b = 0, s)
              else (if aSign then le64 (high b) (low b) (high a) (low a)
                    else le64 (high a) (low a) (high b) (low b), s))"

definition float64_lt :: "float64 \<Rightarrow> float64 \<Rightarrow> fp_env \<Rightarrow> flag \<times> fp_env" where
  "float64_lt a b s =
     (if float64_unordered a b then (False, float_raise float_flag_invalid s)
      else let aSign = extractFloat64Sign a; bSign = extractFloat64Sign b
           in if aSign \<noteq> bSign
              then (aSign \<and> c_shl (high a OR high b) 1 OR low a OR low b \<noteq> 0, s)
              else (if aSign then lt64 (high b) (low b) (high a) (low a)
                    else lt64 (high a) (low a) (high b) (low b), s))"

definition float64_eq_signaling :: "float64 \<Rightarrow> float64 \<Rightarrow> fp_env \<Rightarrow> flag \<times> fp_env" where
  "float64_eq_signaling a b s =
     (if float64_unordered a b then (False, float_raise float_flag_invalid s)
      else (low a = low b \<and>
            (high a = high b \<or> low a = 0 \<and> c_shl (high a OR high b) 1 = 0), s))"

definition float64_le_quiet :: "float64 \<Rightarrow> float64 \<Rightarrow> fp_env \<Rightarrow> flag \<times> fp_env" where
  "float64_le_quiet a b s =
     (if float64_unordered a b
      then (False, raise_if (float64_is_signaling_nan a \<or> float64_is_signaling_nan b)
                     float_flag_invalid s)
      else let aSign = extractFloat64Sign a; bSign = extractFloat64Sign b
           in if aSign \<noteq> bSign
              then (aSign \<or> c_shl (high a OR high b) 1 OR low a OR low b = 0, s)
              else (if aSign then le64 (high b) (low b) (high a) (low a)
                    else le64 (high a) (low a) (high b) (low b), s))"

definition float64_lt_quiet :: "float64 \<Rightarrow> float64 \<Rightarrow> fp_env \<Rightarrow> flag \<times> fp_env" where
  "float64_lt_quiet a b s =
     (if float64_unordered a b
      then (False, raise_if (float64_is_signaling_nan a \<or> float64_is_signaling_nan b)
                     float_flag_invalid s)
      else let aSign = extractFloat64Sign a; bSign = extractFloat64Sign b
           in if aSign \<noteq> bSign
              then (aSign \<and> c_shl (high a OR high b) 1 OR low a OR low b \<noteq> 0, s)
              else (if aSign then lt64 (high b) (low b) (high a) (low a)
                    else lt64 (high a) (low a) (high b) (low b), s))"

end
