(* ===== verification/Emulate_Wrappers.thy ===== *)
theory Emulate_Wrappers
  imports Float64
begin

text \<open>
  The entry points the compiler calls: the \<open>__emulate_<OP>_...\<close> wrappers at the end of
  \<open>newlib/libc/sys/tce/float_emulation.c\<close> and the compiler-rt names of
  \<open>bclib/cpp/softfloat_wrappers.c\<close>.  The wrappers reinterpret the object representation of a C
  \<open>float\<close> or \<open>double\<close> as \<open>float32\<close> or \<open>float64\<close>, so a C floating-point argument is modelled by that
  bit pattern.  The comparison wrappers return 0 or 1 as an unsigned integer, and evaluate their
  \<open>||\<close> chains from the left, so that a NaN operand skips the comparison and its exception flag.
\<close>

section \<open>Single precision\<close>

definition emulate_MULF :: "float32 \<Rightarrow> float32 \<Rightarrow> fp_env \<Rightarrow> float32 \<times> fp_env" where
  "emulate_MULF a b s = float32_mul a b s"

definition emulate_ADDF :: "float32 \<Rightarrow> float32 \<Rightarrow> fp_env \<Rightarrow> float32 \<times> fp_env" where
  "emulate_ADDF a b s = float32_add a b s"

definition emulate_SUBF :: "float32 \<Rightarrow> float32 \<Rightarrow> fp_env \<Rightarrow> float32 \<times> fp_env" where
  "emulate_SUBF a b s = float32_sub a b s"

definition emulate_NEGF :: "float32 \<Rightarrow> fp_env \<Rightarrow> float32 \<times> fp_env" where
  "emulate_NEGF a s = float32_sub 0 a s"

definition emulate_CFI :: "float32 \<Rightarrow> fp_env \<Rightarrow> bits32 \<times> fp_env" where
  "emulate_CFI a s = float32_to_int32_round_to_zero a s"

definition emulate_SQRTF :: "float32 \<Rightarrow> fp_env \<Rightarrow> (float32 \<times> fp_env) option" where
  "emulate_SQRTF a s = float32_sqrt a s"

definition emulate_CFIU :: "float32 \<Rightarrow> fp_env \<Rightarrow> bits32 \<times> fp_env" where
  "emulate_CFIU a s = float32_to_uint32 a s"

definition emulate_CIF :: "bits32 \<Rightarrow> fp_env \<Rightarrow> float32 \<times> fp_env" where
  "emulate_CIF a s = int32_to_float32 a s"

definition emulate_CIFU :: "bits32 \<Rightarrow> fp_env \<Rightarrow> float32 \<times> fp_env" where
  "emulate_CIFU a s = uint32_to_float32 a s"

definition emulate_DIVF :: "float32 \<Rightarrow> float32 \<Rightarrow> fp_env \<Rightarrow> (float32 \<times> fp_env) option" where
  "emulate_DIVF a b s = float32_div a b s"

text \<open>The two shapes of the comparison wrappers: a plain comparison, possibly negated, and one that is
  true on a NaN operand.\<close>

definition compare_flag :: "flag \<times> fp_env \<Rightarrow> 'a::len word \<times> fp_env" where
  "compare_flag r = (bit_of (fst r), snd r)"

definition not_flag :: "flag \<times> fp_env \<Rightarrow> flag \<times> fp_env" where
  "not_flag r = (\<not> fst r, snd r)"

definition emulate_EQF :: "float32 \<Rightarrow> float32 \<Rightarrow> fp_env \<Rightarrow> bits32 \<times> fp_env" where
  "emulate_EQF a b s = compare_flag (float32_eq a b s)"

definition emulate_EQUF :: "float32 \<Rightarrow> float32 \<Rightarrow> fp_env \<Rightarrow> bits32 \<times> fp_env" where
  "emulate_EQUF a b s =
     (if float32_is_nan a \<or> float32_is_nan b then (1, s) else compare_flag (float32_eq a b s))"

definition emulate_GEF :: "float32 \<Rightarrow> float32 \<Rightarrow> fp_env \<Rightarrow> bits32 \<times> fp_env" where
  "emulate_GEF a b s = compare_flag (not_flag (float32_lt a b s))"

definition emulate_GEUF :: "float32 \<Rightarrow> float32 \<Rightarrow> fp_env \<Rightarrow> bits32 \<times> fp_env" where
  "emulate_GEUF a b s =
     (if float32_is_nan a \<or> float32_is_nan b then (1, s) else compare_flag (not_flag (float32_lt a b s)))"

definition emulate_GTF :: "float32 \<Rightarrow> float32 \<Rightarrow> fp_env \<Rightarrow> bits32 \<times> fp_env" where
  "emulate_GTF a b s = compare_flag (not_flag (float32_le a b s))"

definition emulate_GTUF :: "float32 \<Rightarrow> float32 \<Rightarrow> fp_env \<Rightarrow> bits32 \<times> fp_env" where
  "emulate_GTUF a b s =
     (if float32_is_nan a \<or> float32_is_nan b then (1, s) else compare_flag (not_flag (float32_le a b s)))"

definition emulate_LEF :: "float32 \<Rightarrow> float32 \<Rightarrow> fp_env \<Rightarrow> bits32 \<times> fp_env" where
  "emulate_LEF a b s = compare_flag (float32_le a b s)"

definition emulate_LEUF :: "float32 \<Rightarrow> float32 \<Rightarrow> fp_env \<Rightarrow> bits32 \<times> fp_env" where
  "emulate_LEUF a b s =
     (if float32_is_nan a \<or> float32_is_nan b then (1, s) else compare_flag (float32_le a b s))"

definition emulate_LTF :: "float32 \<Rightarrow> float32 \<Rightarrow> fp_env \<Rightarrow> bits32 \<times> fp_env" where
  "emulate_LTF a b s = compare_flag (float32_lt a b s)"

definition emulate_LTUF :: "float32 \<Rightarrow> float32 \<Rightarrow> fp_env \<Rightarrow> bits32 \<times> fp_env" where
  "emulate_LTUF a b s =
     (if float32_is_nan a \<or> float32_is_nan b then (1, s) else compare_flag (float32_lt a b s))"

definition emulate_NEF :: "float32 \<Rightarrow> float32 \<Rightarrow> fp_env \<Rightarrow> bits32 \<times> fp_env" where
  "emulate_NEF a b s = compare_flag (not_flag (float32_eq a b s))"

definition emulate_NEUF :: "float32 \<Rightarrow> float32 \<Rightarrow> fp_env \<Rightarrow> bits32 \<times> fp_env" where
  "emulate_NEUF a b s =
     (if float32_is_nan a \<or> float32_is_nan b then (1, s) else compare_flag (not_flag (float32_eq a b s)))"

definition emulate_ORDF :: "float32 \<Rightarrow> float32 \<Rightarrow> bits32" where
  "emulate_ORDF a b = bit_of (\<not> float32_is_nan a \<and> \<not> float32_is_nan b)"

definition emulate_UORDF :: "float32 \<Rightarrow> float32 \<Rightarrow> bits32" where
  "emulate_UORDF a b = bit_of (float32_is_nan a \<or> float32_is_nan b)"

section \<open>Double precision\<close>

definition emulate_CFD :: "float32 \<Rightarrow> fp_env \<Rightarrow> float64 \<times> fp_env" where
  "emulate_CFD a s = float32_to_float64 a s"

definition emulate_EQD :: "float64 \<Rightarrow> float64 \<Rightarrow> fp_env \<Rightarrow> bits64 \<times> fp_env" where
  "emulate_EQD a b s = compare_flag (float64_eq a b s)"

definition emulate_EQUD :: "float64 \<Rightarrow> float64 \<Rightarrow> fp_env \<Rightarrow> bits64 \<times> fp_env" where
  "emulate_EQUD a b s =
     (if float64_is_nan a \<or> float64_is_nan b then (1, s) else compare_flag (float64_eq a b s))"

definition emulate_GED :: "float64 \<Rightarrow> float64 \<Rightarrow> fp_env \<Rightarrow> bits64 \<times> fp_env" where
  "emulate_GED a b s = compare_flag (not_flag (float64_lt a b s))"

definition emulate_GEUD :: "float64 \<Rightarrow> float64 \<Rightarrow> fp_env \<Rightarrow> bits64 \<times> fp_env" where
  "emulate_GEUD a b s =
     (if float64_is_nan a \<or> float64_is_nan b then (1, s) else compare_flag (not_flag (float64_lt a b s)))"

definition emulate_GTD :: "float64 \<Rightarrow> float64 \<Rightarrow> fp_env \<Rightarrow> bits64 \<times> fp_env" where
  "emulate_GTD a b s = compare_flag (not_flag (float64_le a b s))"

definition emulate_GTUD :: "float64 \<Rightarrow> float64 \<Rightarrow> fp_env \<Rightarrow> bits64 \<times> fp_env" where
  "emulate_GTUD a b s =
     (if float64_is_nan a \<or> float64_is_nan b then (1, s) else compare_flag (not_flag (float64_le a b s)))"

definition emulate_LED :: "float64 \<Rightarrow> float64 \<Rightarrow> fp_env \<Rightarrow> bits64 \<times> fp_env" where
  "emulate_LED a b s = compare_flag (float64_le a b s)"

definition emulate_LEUD :: "float64 \<Rightarrow> float64 \<Rightarrow> fp_env \<Rightarrow> bits64 \<times> fp_env" where
  "emulate_LEUD a b s =
     (if float64_is_nan a \<or> float64_is_nan b then (1, s) else compare_flag (float64_le a b s))"

definition emulate_LTD :: "float64 \<Rightarrow> float64 \<Rightarrow> fp_env \<Rightarrow> bits64 \<times> fp_env" where
  "emulate_LTD a b s = compare_flag (float64_lt a b s)"

definition emulate_LTUD :: "float64 \<Rightarrow> float64 \<Rightarrow> fp_env \<Rightarrow> bits64 \<times> fp_env" where
  "emulate_LTUD a b s =
     (if float64_is_nan a \<or> float64_is_nan b then (1, s) else compare_flag (float64_lt a b s))"

definition emulate_NED :: "float64 \<Rightarrow> float64 \<Rightarrow> fp_env \<Rightarrow> bits64 \<times> fp_env" where
  "emulate_NED a b s = compare_flag (not_flag (float64_eq a b s))"

definition emulate_NEUD :: "float64 \<Rightarrow> float64 \<Rightarrow> fp_env \<Rightarrow> bits64 \<times> fp_env" where
  "emulate_NEUD a b s =
     (if float64_is_nan a \<or> float64_is_nan b then (1, s) else compare_flag (not_flag (float64_eq a b s)))"

definition emulate_ORDD :: "float64 \<Rightarrow> float64 \<Rightarrow> bits64" where
  "emulate_ORDD a b = bit_of (\<not> float64_is_nan a \<and> \<not> float64_is_nan b)"

definition emulate_UORDD :: "float64 \<Rightarrow> float64 \<Rightarrow> bits64" where
  "emulate_UORDD a b = bit_of (float64_is_nan a \<or> float64_is_nan b)"

definition emulate_NEGD :: "float64 \<Rightarrow> fp_env \<Rightarrow> float64 \<times> fp_env" where
  "emulate_NEGD a s = float64_sub \<lparr>low = 0, high = 0\<rparr> a s"

definition emulate_ADDD :: "float64 \<Rightarrow> float64 \<Rightarrow> fp_env \<Rightarrow> float64 \<times> fp_env" where
  "emulate_ADDD a b s = float64_add a b s"

definition emulate_SUBD :: "float64 \<Rightarrow> float64 \<Rightarrow> fp_env \<Rightarrow> float64 \<times> fp_env" where
  "emulate_SUBD a b s = float64_sub a b s"

definition emulate_MULD :: "float64 \<Rightarrow> float64 \<Rightarrow> fp_env \<Rightarrow> float64 \<times> fp_env" where
  "emulate_MULD a b s = float64_mul a b s"

definition emulate_DIVD :: "float64 \<Rightarrow> float64 \<Rightarrow> fp_env \<Rightarrow> (float64 \<times> fp_env) option" where
  "emulate_DIVD a b s = float64_div a b s"

definition emulate_CDL :: "float64 \<Rightarrow> fp_env \<Rightarrow> (bits64 \<times> fp_env) option" where
  "emulate_CDL a s = float64_to_int64_round_to_zero a s"

definition emulate_CLD :: "bits64 \<Rightarrow> float64" where
  "emulate_CLD a = int64_to_float64 a"

definition emulate_CLDU :: "bits64 \<Rightarrow> float64" where
  "emulate_CLDU a = uint64_to_float64 a"

section \<open>Compiler-rt names\<close>

definition truncdfsf2 :: "float64 \<Rightarrow> fp_env \<Rightarrow> float32 \<times> fp_env" where
  "truncdfsf2 a s = float64_to_float32 a s"

definition extendsfdf2 :: "float32 \<Rightarrow> fp_env \<Rightarrow> float64 \<times> fp_env" where
  "extendsfdf2 a s = float32_to_float64 a s"

definition fixsfsi :: "float32 \<Rightarrow> fp_env \<Rightarrow> bits32 \<times> fp_env" where
  "fixsfsi a s = float32_to_int32_round_to_zero a s"

definition fixdfsi :: "float64 \<Rightarrow> fp_env \<Rightarrow> bits32 \<times> fp_env" where
  "fixdfsi a s = float64_to_int32_round_to_zero a s"

definition fixunssfsi :: "float32 \<Rightarrow> fp_env \<Rightarrow> bits32 \<times> fp_env" where
  "fixunssfsi a s = float32_to_uint32 a s"

definition fixunsdfsi :: "float64 \<Rightarrow> fp_env \<Rightarrow> bits32 \<times> fp_env" where
  "fixunsdfsi a s =
     (let (f32, s) = float64_to_float32 a s in float32_to_uint32 f32 s)"

definition floatsisf :: "bits32 \<Rightarrow> fp_env \<Rightarrow> float32 \<times> fp_env" where
  "floatsisf a s = int32_to_float32 a s"

definition floatsidf :: "bits32 \<Rightarrow> float64" where
  "floatsidf a = int32_to_float64 a"

definition floatunsisf :: "bits32 \<Rightarrow> fp_env \<Rightarrow> float32 \<times> fp_env" where
  "floatunsisf a s = uint32_to_float32 a s"

definition floatunsidf :: "bits32 \<Rightarrow> fp_env \<Rightarrow> float64 \<times> fp_env" where
  "floatunsidf a s =
     (let (tmp, s) = uint32_to_float32 a s in float32_to_float64 tmp s)"

end
