(* ===== verification/Float_Order.thy ===== *)
theory Float_Order
  imports Float32_Round Float64 Emulate_Wrappers
begin

text \<open>
  The comparisons of both formats.  A pattern's key is its magnitude bits with the sign of the
  number; the order of the keys is the order of the values.  The locale \<open>float_comparisons\<close> is the
  contract of a format's six comparison routines, interpreted on the single- and the
  double-precision routines; the properties of the routines and of the comparison operations of
  \<open>__emulate_*\<close> rest on it.
\<close>

section \<open>Magnitudes and order keys of the two formats\<close>

definition key32 :: "float32 \<Rightarrow> int" where
  "key32 a = (if extractFloat32Sign a then - mag32 a else mag32 a)"

definition mag64 :: "float64 \<Rightarrow> int" where
  "mag64 a = (uint (high a) mod 2 ^ 31) * 2 ^ 32 + uint (low a)"

definition key64 :: "float64 \<Rightarrow> int" where
  "key64 a = (if extractFloat64Sign a then - mag64 a else mag64 a)"

lemma uint_shl_1: "uint (c_shl a 1) = 2 * (uint a mod 2 ^ 31)" for a :: bits32
  using mod_mult_mult2 [of "uint a" 2 "2 ^ 31"] by (simp add: uint_c_shl)

lemma c_shl_or_1: "c_shl (a OR b) 1 = c_shl a 1 OR c_shl b 1" for a b :: bits32
  by (simp add: c_shl_def push_bit_or)

lemma or_word_eq_0: "a OR b = 0 \<longleftrightarrow> a = 0 \<and> b = 0" for a b :: "'a::len word"
  by (metis and_zero_eq word_ao_absorbs(1) or.left_neutral or.right_neutral)

lemma shl_1_eq_0: "c_shl a 1 = 0 \<longleftrightarrow> uint a mod 2 ^ 31 = 0" for a :: bits32
  using uint_shl_1 [of a] by (simp add: word_uint_eq_iff)

lemma float32_is_nan_iff: "float32_is_nan a \<longleftrightarrow> 0x7F800000 < mag32 a"
  by (simp add: float32_is_nan_def word_less_def uint_shl_1 mag32_def)

lemma float32_unordered_iff: "float32_unordered a b \<longleftrightarrow> float32_is_nan a \<or> float32_is_nan b"
proof -
  have "extractFloat32Exp a = 0xFF \<and> extractFloat32Frac a \<noteq> 0 \<longleftrightarrow> float32_is_nan a" for a
    using float32_ranges(1-3) [of a] uint_pos [of "extractFloat32Frac a"]
    by (auto simp: float32_is_nan_iff mag32_split)
  then show ?thesis by (simp add: float32_unordered_def)
qed

lemma extractFloat64Sign_iff: "extractFloat64Sign a \<longleftrightarrow> 2 ^ 31 \<le> uint (high a)"
  using float32_fields(3) [of "high a"] by (simp add: extractFloat64Sign_def extractFloat32Sign_def)

lemma uint_high: "uint (high a) = (if extractFloat64Sign a then 2 ^ 31 else 0) + uint (high a) mod 2 ^ 31"
  using uint_lt2p [of "high a"] int_mod_if_pos [of "uint (high a)" "2 ^ 31"] by (simp add: extractFloat64Sign_iff)

lemma float64_fields:
  "uint (extractFloat64Frac0 a) = uint (high a) mod 2 ^ 20"
  "extractFloat64Exp a = uint (high a) mod 2 ^ 31 div 2 ^ 20"
proof -
  show "uint (extractFloat64Frac0 a) = uint (high a) mod 2 ^ 20"
    using uint_and_mask [of "high a" 20] by (simp add: extractFloat64Frac0_def mask_eq_exp_minus_1)
  have "uint (high a) mod (2 ^ 20 * 2 ^ 11) = 2 ^ 20 * (uint (high a) div 2 ^ 20 mod 2 ^ 11) + uint (high a) mod 2 ^ 20"
    by (rule zmod_zmult2_eq) simp
  then have "uint (high a) mod 2 ^ 31 div 2 ^ 20 = uint (high a) div 2 ^ 20 mod 2 ^ 11" by simp
  then show "extractFloat64Exp a = uint (high a) mod 2 ^ 31 div 2 ^ 20"
    using uint_and_mask [of "c_shr (high a) 20" 11] by (simp add: extractFloat64Exp_def mask_eq_exp_minus_1 uint_c_shr)
qed

lemma float64_ranges:
  "0 \<le> extractFloat64Exp a" "extractFloat64Exp a \<le> 0x7FF" "uint (extractFloat64Frac0 a) < 2 ^ 20"
  "0 \<le> mag64 a" "mag64 a < 2 ^ 63"
proof -
  have "uint (high a) mod 2 ^ 31 < 2 ^ 11 * 2 ^ 20" by simp
  then show "0 \<le> extractFloat64Exp a" "extractFloat64Exp a \<le> 0x7FF" "uint (extractFloat64Frac0 a) < 2 ^ 20"
    using int_div_lt [of "uint (high a) mod 2 ^ 31" "2 ^ 11" "2 ^ 20"] by (simp_all add: float64_fields)
  have "uint (high a) mod 2 ^ 31 < 2 ^ 31" "0 \<le> uint (high a) mod 2 ^ 31" by simp_all
  then show "0 \<le> mag64 a" "mag64 a < 2 ^ 63" using uint_lt2p [of "low a"] by (simp_all add: mag64_def)
qed

lemma mag64_split:
  "mag64 a = extractFloat64Exp a * 2 ^ 52 + (uint (extractFloat64Frac0 a) * 2 ^ 32 + uint (extractFloat64Frac1 a))"
proof -
  have "uint (high a) mod 2 ^ 31 mod 2 ^ 20 = uint (high a) mod 2 ^ 20" by (rule mod_mod_cancel) simp
  then have "uint (high a) mod 2 ^ 31 = extractFloat64Exp a * 2 ^ 20 + uint (extractFloat64Frac0 a)"
    using div_mult_mod_eq [of "uint (high a) mod 2 ^ 31" "2 ^ 20"] by (simp add: float64_fields)
  then show ?thesis by (simp add: mag64_def extractFloat64Frac1_def)
qed

lemma float64_is_nan_iff: "float64_is_nan a \<longleftrightarrow> 0x7FF * 2 ^ 52 < mag64 a"
proof -
  define F where "F = uint (extractFloat64Frac0 a) * 2 ^ 32 + uint (extractFloat64Frac1 a)"
  have "0xFFE00000 \<le> c_shl (high a) 1 \<longleftrightarrow> extractFloat64Exp a = 0x7FF"
    using float64_ranges(1-3) [of a] by (auto simp: word_le_def uint_shl_1 float64_fields)
  moreover have "low a \<noteq> 0 \<or> high a AND 0x000FFFFF \<noteq> 0 \<longleftrightarrow> F \<noteq> 0"
    using uint_ge_0 [of "extractFloat64Frac0 a"] uint_ge_0 [of "low a"] add_nonneg_eq_0_iff [of "uint (extractFloat64Frac0 a) * 2 ^ 32" "uint (low a)"]
    by (auto simp: F_def extractFloat64Frac0_def extractFloat64Frac1_def word_uint_eq_iff)
  moreover have "0 \<le> F" "F < 2 ^ 52" 
    using float64_ranges(3) [of a] uint_lt2p [of "extractFloat64Frac1 a"] by (simp_all add: F_def)
  ultimately show ?thesis using float64_ranges(1,2) [of a] unfolding float64_is_nan_def mag64_split F_def [symmetric] by auto
qed

lemma float64_unordered_iff: "float64_unordered a b \<longleftrightarrow> float64_is_nan a \<or> float64_is_nan b"
proof -
  have "extractFloat64Exp a = 0x7FF \<and> extractFloat64Frac0 a OR extractFloat64Frac1 a \<noteq> 0 \<longleftrightarrow> float64_is_nan a" for a
  proof -
    have "0xFFE00000 \<le> c_shl (high a) 1 \<longleftrightarrow> extractFloat64Exp a = 0x7FF"
      using float64_ranges(1-3) [of a] by (auto simp: word_le_def uint_shl_1 float64_fields)
    then show ?thesis by (auto simp: float64_is_nan_def or_word_eq_0 extractFloat64Frac0_def extractFloat64Frac1_def)
  qed
  then show ?thesis by (simp add: float64_unordered_def)
qed

section \<open>The contract of the comparisons\<close>

text \<open>
  A comparison of two operands by the relation \<open>R\<close> on their keys.  With a NaN operand it is false; the
  invalid flag is raised, by the quiet comparisons only for a signaling NaN.
\<close>

definition comparison ::
  "('f \<Rightarrow> bool) \<Rightarrow> ('f \<Rightarrow> bool) \<Rightarrow> ('f \<Rightarrow> int) \<Rightarrow> bool \<Rightarrow> (int \<Rightarrow> int \<Rightarrow> bool) \<Rightarrow> 'f \<Rightarrow> 'f \<Rightarrow> fp_env \<Rightarrow> flag \<times> fp_env" where
  "comparison nan snan key quiet R a b s =
     (if nan a \<or> nan b then (False, raise_if (quiet \<longrightarrow> snan a \<or> snan b) float_flag_invalid s)
      else (R (key a) (key b), s))"

lemma raise_if_True: "raise_if True f s = float_raise f s"
  by (simp add: raise_if_def)

lemma float32_eq_iff: "a = b \<longleftrightarrow> extractFloat32Sign a = extractFloat32Sign b \<and> mag32 a = mag32 b"
  using uint_float32 [of a] uint_float32 [of b] by (metis word_uint_eq_iff)

lemma float32_ordered:
  "(a = b \<or> c_shl (a OR b) 1 = 0) \<longleftrightarrow> key32 a = key32 b"
  "(if extractFloat32Sign a \<noteq> extractFloat32Sign b then extractFloat32Sign a \<or> c_shl (a OR b) 1 = 0
    else a = b \<or> extractFloat32Sign a \<noteq> (a < b)) \<longleftrightarrow> key32 a \<le> key32 b"
  "(if extractFloat32Sign a \<noteq> extractFloat32Sign b then extractFloat32Sign a \<and> c_shl (a OR b) 1 \<noteq> 0
    else a \<noteq> b \<and> extractFloat32Sign a \<noteq> (a < b)) \<longleftrightarrow> key32 a < key32 b"
proof -
  have z: "c_shl (a OR b) 1 = 0 \<longleftrightarrow> mag32 a = 0 \<and> mag32 b = 0"
    by (simp add: c_shl_or_1 or_word_eq_0 shl_1_eq_0 mag32_def)
  note u = uint_float32 [of a] uint_float32 [of b] float32_ranges(4) [of a] float32_ranges(4) [of b]
    float32_ranges(5) [of a] float32_ranges(5) [of b]
  show "(a = b \<or> c_shl (a OR b) 1 = 0) \<longleftrightarrow> key32 a = key32 b"
    unfolding z float32_eq_iff [of a b] key32_def using u by auto
  show "(if extractFloat32Sign a \<noteq> extractFloat32Sign b then extractFloat32Sign a \<or> c_shl (a OR b) 1 = 0
    else a = b \<or> extractFloat32Sign a \<noteq> (a < b)) \<longleftrightarrow> key32 a \<le> key32 b"
    unfolding z float32_eq_iff [of a b] key32_def word_less_def using u by auto
  show "(if extractFloat32Sign a \<noteq> extractFloat32Sign b then extractFloat32Sign a \<and> c_shl (a OR b) 1 \<noteq> 0
    else a \<noteq> b \<and> extractFloat32Sign a \<noteq> (a < b)) \<longleftrightarrow> key32 a < key32 b"
    unfolding z float32_eq_iff [of a b] key32_def word_less_def using u by auto
qed

lemma val64_float64: "val64 (high a, low a) = (if extractFloat64Sign a then 2 ^ 63 else 0) + mag64 a"
  using uint_high [of a] by (simp add: val64_def mag64_def split: if_splits)

lemma float64_ordered:
  "low a = low b \<and> (high a = high b \<or> low a = 0 \<and> c_shl (high a OR high b) 1 = 0) \<longleftrightarrow> key64 a = key64 b"
  "(if extractFloat64Sign a \<noteq> extractFloat64Sign b
    then extractFloat64Sign a \<or> c_shl (high a OR high b) 1 OR low a OR low b = 0
    else if extractFloat64Sign a then le64 (high b) (low b) (high a) (low a)
    else le64 (high a) (low a) (high b) (low b)) \<longleftrightarrow> key64 a \<le> key64 b"
  "(if extractFloat64Sign a \<noteq> extractFloat64Sign b
    then extractFloat64Sign a \<and> c_shl (high a OR high b) 1 OR low a OR low b \<noteq> 0
    else if extractFloat64Sign a then lt64 (high b) (low b) (high a) (low a)
    else lt64 (high a) (low a) (high b) (low b)) \<longleftrightarrow> key64 a < key64 b"
proof -
  have m0: "mag64 x = 0 \<longleftrightarrow> uint (high x) mod 2 ^ 31 = 0 \<and> low x = 0" for x :: float64
  proof -
    have "0 \<le> uint (high x) mod 2 ^ 31 * 2 ^ 32" "0 \<le> uint (low x)" by simp_all
    then show ?thesis unfolding mag64_def word_uint_eq_iff unsigned_0 by (metis add_nonneg_eq_0_iff mult_eq_0_iff power_not_zero zero_neq_numeral)
  qed
  have z: "c_shl (high a OR high b) 1 OR low a OR low b = 0 \<longleftrightarrow> mag64 a = 0 \<and> mag64 b = 0"
    unfolding c_shl_or_1 or_word_eq_0 shl_1_eq_0 m0 by blast
  note u = val64_float64 [of a] val64_float64 [of b] float64_ranges(4) [of a] float64_ranges(4) [of b]
    float64_ranges(5) [of a] float64_ranges(5) [of b]
  have e: "low a = low b \<and> high a = high b \<longleftrightarrow> val64 (high a, low a) = val64 (high b, low b)"
    by (auto simp: val64_inject)
  have "low a = low b \<and> (high a = high b \<or> low a = 0 \<and> c_shl (high a OR high b) 1 = 0) \<longleftrightarrow>
    val64 (high a, low a) = val64 (high b, low b) \<or> mag64 a = 0 \<and> mag64 b = 0"
    unfolding e [symmetric] c_shl_or_1 or_word_eq_0 shl_1_eq_0 m0 by metis
  then show "low a = low b \<and> (high a = high b \<or> low a = 0 \<and> c_shl (high a OR high b) 1 = 0) \<longleftrightarrow> key64 a = key64 b"
    using u by (auto simp: key64_def)
  show "(if extractFloat64Sign a \<noteq> extractFloat64Sign b
    then extractFloat64Sign a \<or> c_shl (high a OR high b) 1 OR low a OR low b = 0
    else if extractFloat64Sign a then le64 (high b) (low b) (high a) (low a)
    else le64 (high a) (low a) (high b) (low b)) \<longleftrightarrow> key64 a \<le> key64 b"
    unfolding z val64_le64 key64_def using u by auto
  show "(if extractFloat64Sign a \<noteq> extractFloat64Sign b
    then extractFloat64Sign a \<and> c_shl (high a OR high b) 1 OR low a OR low b \<noteq> 0
    else if extractFloat64Sign a then lt64 (high b) (low b) (high a) (low a)
    else lt64 (high a) (low a) (high b) (low b)) \<longleftrightarrow> key64 a < key64 b"
    unfolding z val64_lt64 key64_def using u by auto
qed

text \<open>
  What a format promises its clients: the six comparisons are comparisons of keys.  The lemmas of the
  locale are what the entry points of the compiler rely on.
\<close>

locale float_comparisons =
  fixes nan snan :: "'f \<Rightarrow> bool" and key :: "'f \<Rightarrow> int"
    and eq le lt eq_signaling le_quiet lt_quiet :: "'f \<Rightarrow> 'f \<Rightarrow> fp_env \<Rightarrow> flag \<times> fp_env"
  assumes eq: "eq a b s = comparison nan snan key True (=) a b s"
    and le: "le a b s = comparison nan snan key False (\<le>) a b s"
    and lt: "lt a b s = comparison nan snan key False (<) a b s"
    and eq_signaling: "eq_signaling a b s = comparison nan snan key False (=) a b s"
    and le_quiet: "le_quiet a b s = comparison nan snan key True (\<le>) a b s"
    and lt_quiet: "lt_quiet a b s = comparison nan snan key True (<) a b s"
begin

lemmas results = eq le lt eq_signaling le_quiet lt_quiet comparison_def

lemma trichotomy:
  assumes "\<not> nan a" "\<not> nan b"
  shows "fst (lt a b s) \<and> \<not> fst (eq a b s) \<and> \<not> fst (lt b a s) \<or>
    \<not> fst (lt a b s) \<and> fst (eq a b s) \<and> \<not> fst (lt b a s) \<or>
    \<not> fst (lt a b s) \<and> \<not> fst (eq a b s) \<and> fst (lt b a s)"
  using assms by (auto simp: results)

lemma le_lt_or_eq: "fst (le a b s) \<longleftrightarrow> fst (lt a b s) \<or> fst (eq a b s)"
  by (auto simp: results)

lemma le_trans: "fst (le a b s) \<Longrightarrow> fst (le b c s) \<Longrightarrow> fst (le a c s)"
  by (auto simp: results split: if_splits)

lemma lt_trans: "fst (lt a b s) \<Longrightarrow> fst (lt b c s) \<Longrightarrow> fst (lt a c s)"
  by (auto simp: results split: if_splits)

lemma nan_false: "nan a \<or> nan b \<Longrightarrow> \<not> fst (eq a b s) \<and> \<not> fst (le a b s) \<and> \<not> fst (lt a b s)"
  by (auto simp: results)

lemma ordered_state: "\<not> nan a \<Longrightarrow> \<not> nan b \<Longrightarrow> snd (eq a b s) = s \<and> snd (le a b s) = s \<and> snd (lt a b s) = s"
  by (auto simp: results)

lemma quiet_agrees:
  "fst (eq_signaling a b s) = fst (eq a b s)" "fst (le_quiet a b s) = fst (le a b s)"
  "fst (lt_quiet a b s) = fst (lt a b s)"
  by (auto simp: results)

lemma not_lt_iff: "\<not> fst (lt a b s) \<longleftrightarrow> nan a \<or> nan b \<or> key b \<le> key a"
  by (auto simp: results)

lemma not_le_iff: "\<not> fst (le a b s) \<longleftrightarrow> nan a \<or> nan b \<or> key b < key a"
  by (auto simp: results)

end

interpretation single: float_comparisons float32_is_nan float32_is_signaling_nan key32
  float32_eq float32_le float32_lt float32_eq_signaling float32_le_quiet float32_lt_quiet
  by unfold_locales
    (simp_all add: comparison_def raise_if_True float32_unordered_iff Let_def float32_eq_def float32_le_def float32_lt_def
      float32_eq_signaling_def float32_le_quiet_def float32_lt_quiet_def float32_ordered [symmetric])

interpretation double: float_comparisons float64_is_nan float64_is_signaling_nan key64
  float64_eq float64_le float64_lt float64_eq_signaling float64_le_quiet float64_lt_quiet
  by unfold_locales
    (simp_all add: comparison_def raise_if_True float64_unordered_iff Let_def float64_eq_def float64_le_def float64_lt_def
      float64_eq_signaling_def float64_le_quiet_def float64_lt_quiet_def float64_ordered [symmetric])

section \<open>Keys and values\<close>

abbreviation abs64 :: "float64 \<Rightarrow> int" where "abs64 a \<equiv> fval 52 (mag64 a)"

text \<open>The value of a double-precision number in units of \<open>2 ^ -1074\<close>.\<close>

definition val_f64 :: "float64 \<Rightarrow> int" where
  "val_f64 a = (if extractFloat64Sign a then - abs64 a else abs64 a)"

definition finite64 :: "float64 \<Rightarrow> bool" where "finite64 a \<longleftrightarrow> extractFloat64Exp a \<noteq> 0x7FF"

lemma finite_not_nan: "finite32 a \<Longrightarrow> \<not> float32_is_nan a" "finite64 d \<Longrightarrow> \<not> float64_is_nan d"
  using float32_unordered_iff [of a a] float64_unordered_iff [of d d]
  by (auto simp: finite32_def finite64_def float32_unordered_def float64_unordered_def)

lemma key_val:
  fixes x y :: int
  assumes "0 \<le> x" "0 \<le> y"
  shows "(if c then - fval p x else fval p x) < (if d then - fval p y else fval p y) \<longleftrightarrow>
    (if c then - x else x) < (if d then - y else y)"
proof -
  have f0: "fval p 0 = 0" by (simp add: fval_def)
  have lt: "fval p u < fval p v \<longleftrightarrow> u < v" if "0 \<le> u" "0 \<le> v" for u v using that by (rule fval_less_iff)
  have pos: "0 < fval p x \<longleftrightarrow> 0 < x" "0 < fval p y \<longleftrightarrow> 0 < y" using lt [of 0 x] lt [of 0 y] assms f0 by auto
  have nn: "0 \<le> fval p x" "0 \<le> fval p y" using assms by (simp_all add: fval_nonneg)
  have mixed: "- u < v \<longleftrightarrow> 0 < u \<or> 0 < v" "\<not> u < - v" if "0 \<le> u" "0 \<le> v" for u v :: int using that by auto
  show ?thesis using lt [OF assms] lt [OF assms(2,1)] pos mixed [OF assms] mixed [OF nn] by (cases c; cases d) simp_all
qed

lemma key_order_values:
  "key32 a < key32 b \<longleftrightarrow> val32 a < val32 b" "key32 a \<le> key32 b \<longleftrightarrow> val32 a \<le> val32 b" "key32 a = key32 b \<longleftrightarrow> val32 a = val32 b"
  "key64 d < key64 e \<longleftrightarrow> val_f64 d < val_f64 e" "key64 d \<le> key64 e \<longleftrightarrow> val_f64 d \<le> val_f64 e" "key64 d = key64 e \<longleftrightarrow> val_f64 d = val_f64 e"
proof -
  have k: "key32 a < key32 b \<longleftrightarrow> val32 a < val32 b" for a b
    unfolding key32_def val32_def by (rule key_val [symmetric]) (rule float32_ranges)+
  have l: "key64 a < key64 b \<longleftrightarrow> val_f64 a < val_f64 b" for a b
    unfolding key64_def val_f64_def by (rule key_val [symmetric]) (rule float64_ranges)+
  show "key32 a < key32 b \<longleftrightarrow> val32 a < val32 b" "key32 a \<le> key32 b \<longleftrightarrow> val32 a \<le> val32 b" "key32 a = key32 b \<longleftrightarrow> val32 a = val32 b"
    using k [of a b] k [of b a] by auto
  show "key64 d < key64 e \<longleftrightarrow> val_f64 d < val_f64 e" "key64 d \<le> key64 e \<longleftrightarrow> val_f64 d \<le> val_f64 e" "key64 d = key64 e \<longleftrightarrow> val_f64 d = val_f64 e"
    using l [of d e] l [of e d] by auto
qed

section \<open>Properties\<close>

text \<open>
  C30. The single- and double-precision comparisons compare the numbers the patterns stand for: on
  finite operands \<open>eq\<close>, \<open>le\<close> and \<open>lt\<close> return whether the values are equal, at most, or less, the two
  zeros being equal, and leave the exception flags alone.
\<close>

theorem comparisons_by_value:
  assumes "finite32 a" "finite32 b" "finite64 d" "finite64 e"
  shows "float32_eq a b s = (val32 a = val32 b, s) \<and> float32_le a b s = (val32 a \<le> val32 b, s) \<and>
    float32_lt a b s = (val32 a < val32 b, s) \<and>
    float64_eq d e s = (val_f64 d = val_f64 e, s) \<and> float64_le d e s = (val_f64 d \<le> val_f64 e, s) \<and>
    float64_lt d e s = (val_f64 d < val_f64 e, s)"
  using finite_not_nan(1) [OF assms(1)] finite_not_nan(1) [OF assms(2)]
    finite_not_nan(2) [OF assms(3)] finite_not_nan(2) [OF assms(4)]
  by (simp add: single.results double.results key_order_values)

theorem comparisons_by_value_witness:
  "float32_eq 0x80000000 0 fp_init = (val32 0x80000000 = val32 0, fp_init) \<and> val32 0x80000000 = val32 0 \<and>
   float64_lt \<lparr>low = 5, high = 0x80000000\<rparr> \<lparr>low = 4, high = 0\<rparr> fp_init =
     (val_f64 \<lparr>low = 5, high = 0x80000000\<rparr> < val_f64 \<lparr>low = 4, high = 0\<rparr>, fp_init)"
proof -
  have "finite32 0x80000000" "finite32 0" "finite64 \<lparr>low = 5, high = 0x80000000\<rparr>" "finite64 \<lparr>low = 4, high = 0\<rparr>"
    "val32 0x80000000 = val32 0" by code_simp+
  then show ?thesis
    using comparisons_by_value [of "0x80000000" 0 "\<lparr>low = 5, high = 0x80000000\<rparr>" "\<lparr>low = 4, high = 0\<rparr>" fp_init] by simp
qed

text \<open>
  C31. Infinities and the other numbers are totally ordered by the comparisons: of two operands that
  are not NaN, exactly one of "less", "equal" and "greater" holds, \<open>le\<close> is "less or equal", and \<open>lt\<close> and
  \<open>le\<close> are transitive, in both formats.
\<close>

theorem comparisons_total_order:
  assumes "\<not> float32_is_nan a" "\<not> float32_is_nan b" "\<not> float64_is_nan d" "\<not> float64_is_nan e"
  shows "(fst (float32_lt a b s) \<and> \<not> fst (float32_eq a b s) \<and> \<not> fst (float32_lt b a s) \<or>
     \<not> fst (float32_lt a b s) \<and> fst (float32_eq a b s) \<and> \<not> fst (float32_lt b a s) \<or>
     \<not> fst (float32_lt a b s) \<and> \<not> fst (float32_eq a b s) \<and> fst (float32_lt b a s)) \<and>
    (fst (float64_lt d e s) \<and> \<not> fst (float64_eq d e s) \<and> \<not> fst (float64_lt e d s) \<or>
     \<not> fst (float64_lt d e s) \<and> fst (float64_eq d e s) \<and> \<not> fst (float64_lt e d s) \<or>
     \<not> fst (float64_lt d e s) \<and> \<not> fst (float64_eq d e s) \<and> fst (float64_lt e d s)) \<and>
    (fst (float32_le a b s) \<longleftrightarrow> fst (float32_lt a b s) \<or> fst (float32_eq a b s)) \<and>
    (fst (float64_le d e s) \<longleftrightarrow> fst (float64_lt d e s) \<or> fst (float64_eq d e s)) \<and>
    (\<forall>c. fst (float32_le a b s) \<longrightarrow> fst (float32_le b c s) \<longrightarrow> fst (float32_le a c s)) \<and>
    (\<forall>f. fst (float64_le d e s) \<longrightarrow> fst (float64_le e f s) \<longrightarrow> fst (float64_le d f s))"
  by (intro conjI allI impI single.trichotomy [OF assms(1,2)] double.trichotomy [OF assms(3,4)]
    single.le_lt_or_eq double.le_lt_or_eq) (erule (1) single.le_trans double.le_trans)+

theorem comparisons_total_order_witness:
  "\<not> fst (float32_lt 0x7F800000 0xFF800000 fp_init) \<and> fst (float32_lt 0xFF800000 0x7F800000 fp_init)"
proof -
  have n: "\<not> float32_is_nan 0x7F800000" "\<not> float32_is_nan 0xFF800000" "\<not> float64_is_nan \<lparr>low = 0, high = 0\<rparr>"
    "\<not> fst (float32_eq 0x7F800000 0xFF800000 fp_init)" "fst (float32_le 0xFF800000 0x7F800000 fp_init)" by code_simp+
  show ?thesis
    using comparisons_total_order [OF n(1,2,3,3), of fp_init] comparisons_total_order [OF n(2,1,3,3), of fp_init] n(4,5) by blast
qed

text \<open>
  C32. A NaN is unordered: with a NaN operand every comparison is false; \<open>le\<close>, \<open>lt\<close> and \<open>eq_signaling\<close> then
  raise the invalid exception, while \<open>eq\<close>, \<open>le_quiet\<close> and \<open>lt_quiet\<close> raise it for a signaling NaN only.
\<close>

theorem comparisons_nan:
  assumes "float32_is_nan a \<or> float32_is_nan b" "float64_is_nan d \<or> float64_is_nan e"
  shows "float32_le a b s = (False, float_raise float_flag_invalid s) \<and>
    float32_lt a b s = (False, float_raise float_flag_invalid s) \<and>
    float32_eq_signaling a b s = (False, float_raise float_flag_invalid s) \<and>
    float64_le d e s = (False, float_raise float_flag_invalid s) \<and>
    float64_lt d e s = (False, float_raise float_flag_invalid s) \<and>
    float64_eq_signaling d e s = (False, float_raise float_flag_invalid s) \<and>
    (\<forall>f \<in> {float32_eq, float32_le_quiet, float32_lt_quiet}. f a b s =
      (False, if float32_is_signaling_nan a \<or> float32_is_signaling_nan b then float_raise float_flag_invalid s else s)) \<and>
    (\<forall>f \<in> {float64_eq, float64_le_quiet, float64_lt_quiet}. f d e s =
      (False, if float64_is_signaling_nan d \<or> float64_is_signaling_nan e then float_raise float_flag_invalid s else s))"
  using assms by (auto simp: single.results double.results raise_if_def)

theorem comparisons_nan_witness:
  "float32_le 0x7FC00000 0 fp_init = (False, float_raise float_flag_invalid fp_init) \<and>
   float32_lt_quiet 0x7FC00000 0 fp_init = (False, fp_init)"
proof -
  have n: "float32_is_nan 0x7FC00000" "float64_is_nan \<lparr>low = 1, high = 0x7FF00000\<rparr>"
    "\<not> float32_is_signaling_nan 0x7FC00000" "\<not> float32_is_signaling_nan 0" by code_simp+
  then show ?thesis
    using comparisons_nan [of "0x7FC00000" 0 "\<lparr>low = 1, high = 0x7FF00000\<rparr>" "\<lparr>low = 0, high = 0\<rparr>" fp_init] by auto
qed

lemmas emulate_single_defs = emulate_EQF_def emulate_EQUF_def emulate_GEF_def emulate_GEUF_def emulate_GTF_def
  emulate_GTUF_def emulate_LEF_def emulate_LEUF_def emulate_LTF_def emulate_LTUF_def emulate_NEF_def emulate_NEUF_def
  emulate_ORDF_def emulate_UORDF_def compare_flag_def not_flag_def

lemmas emulate_double_defs = emulate_EQD_def emulate_EQUD_def emulate_GED_def emulate_GEUD_def emulate_GTD_def
  emulate_GTUD_def emulate_LED_def emulate_LEUD_def emulate_LTD_def emulate_LTUD_def emulate_NED_def emulate_NEUD_def
  emulate_ORDD_def emulate_UORDD_def compare_flag_def not_flag_def

lemma emulate_single_table:
  "let U = float32_is_nan a \<or> float32_is_nan b in
    fst (emulate_EQF a b s) = bit_of (\<not> U \<and> key32 a = key32 b) \<and>
    fst (emulate_EQUF a b s) = bit_of (U \<or> key32 a = key32 b) \<and>
    fst (emulate_NEF a b s) = bit_of (U \<or> key32 a \<noteq> key32 b) \<and>
    fst (emulate_NEUF a b s) = bit_of (U \<or> key32 a \<noteq> key32 b) \<and>
    fst (emulate_LEF a b s) = bit_of (\<not> U \<and> key32 a \<le> key32 b) \<and>
    fst (emulate_LEUF a b s) = bit_of (U \<or> key32 a \<le> key32 b) \<and>
    fst (emulate_LTF a b s) = bit_of (\<not> U \<and> key32 a < key32 b) \<and>
    fst (emulate_LTUF a b s) = bit_of (U \<or> key32 a < key32 b) \<and>
    fst (emulate_GEF a b s) = bit_of (U \<or> key32 b \<le> key32 a) \<and>
    fst (emulate_GEUF a b s) = bit_of (U \<or> key32 b \<le> key32 a) \<and>
    fst (emulate_GTF a b s) = bit_of (U \<or> key32 b < key32 a) \<and>
    fst (emulate_GTUF a b s) = bit_of (U \<or> key32 b < key32 a) \<and>
    emulate_ORDF a b = bit_of (\<not> U) \<and> emulate_UORDF a b = bit_of U"
  unfolding Let_def
  by (cases "float32_is_nan a"; cases "float32_is_nan b") (auto simp: emulate_single_defs single.results not_less not_le)

lemma emulate_double_table:
  "let U = float64_is_nan c \<or> float64_is_nan d in
    fst (emulate_EQD c d s) = bit_of (\<not> U \<and> key64 c = key64 d) \<and>
    fst (emulate_EQUD c d s) = bit_of (U \<or> key64 c = key64 d) \<and>
    fst (emulate_NED c d s) = bit_of (U \<or> key64 c \<noteq> key64 d) \<and>
    fst (emulate_NEUD c d s) = bit_of (U \<or> key64 c \<noteq> key64 d) \<and>
    fst (emulate_LED c d s) = bit_of (\<not> U \<and> key64 c \<le> key64 d) \<and>
    fst (emulate_LEUD c d s) = bit_of (U \<or> key64 c \<le> key64 d) \<and>
    fst (emulate_LTD c d s) = bit_of (\<not> U \<and> key64 c < key64 d) \<and>
    fst (emulate_LTUD c d s) = bit_of (U \<or> key64 c < key64 d) \<and>
    fst (emulate_GED c d s) = bit_of (U \<or> key64 d \<le> key64 c) \<and>
    fst (emulate_GEUD c d s) = bit_of (U \<or> key64 d \<le> key64 c) \<and>
    fst (emulate_GTD c d s) = bit_of (U \<or> key64 d < key64 c) \<and>
    fst (emulate_GTUD c d s) = bit_of (U \<or> key64 d < key64 c) \<and>
    emulate_ORDD c d = bit_of (\<not> U) \<and> emulate_UORDD c d = bit_of U"
  unfolding Let_def
  by (cases "float64_is_nan c"; cases "float64_is_nan d") (auto simp: emulate_double_defs double.results not_less not_le)

end
