(* ===== verification/Float64_Round.thy ===== *)
theory Float64_Round
  imports Float_Rounding Float_Order
begin

text \<open>
  Rounding and packing of double-precision numbers: \<open>shift64ExtraRightJamming\<close> keeps what rounding needs, and
  \<open>roundAndPackFloat64\<close> and \<open>normalizeRoundAndPackFloat64\<close> return the pattern of the rounded number.
\<close>

lemma val96_split: "val96 (a0, a1, a2) = val64 (a0, a1) * 2 ^ 32 + uint a2"
  by (simp add: val96_def val64_def)

lemma val96_split_high: "val96 (a0, a1, a2) = uint a0 * 2 ^ 64 + val64 (a1, a2)"
  by (simp add: val96_def val64_def)

lemma val64_nonneg: "0 \<le> val64 (a0, a1)"
  by (rule val64_less)

lemma val64_eq_0: "val64 (a0, a1) = 0 \<longleftrightarrow> a0 = 0 \<and> a1 = 0"
  using val64_inject [of a0 a1 0 0] by simp

lemma int_mod_mult_div: "0 < d \<Longrightarrow> x * d mod (c * d) div d = x mod c" for x c d :: int
  by (simp add: mult_mod_left [symmetric])

lemma shl_low_part:
  fixes a :: bits32
  assumes "0 < c" "c < 32"
  shows "uint (c_shl a ((- int c) AND 31)) = uint a mod 2 ^ c * 2 ^ (32 - c)"
proof -
  have n: "(- int c) AND 31 = int (32 - c)" using assms by (simp add: int_and_31 of_nat_diff zmod_zminus1_eq_if)
  have "(2::int) ^ 32 = 2 ^ c * 2 ^ (32 - c)" using assms by (simp flip: power_add)
  moreover have "uint (c_shl a (int (32 - c))) = uint a * 2 ^ (32 - c) mod 2 ^ 32" by (simp only: uint_c_shl of_nat_0_le_iff nat_int) simp
  ultimately show ?thesis unfolding n by (simp only: mult_mod_left)
qed

lemma jam_word_pieces:
  fixes a1 :: bits32
  assumes "0 < c" "c < 32" "H mod 2 ^ c = uint a1 mod 2 ^ c" "W \<longleftrightarrow> E \<noteq> 0"
  shows "H div 2 ^ c * 2 ^ 32 + uint (c_shl a1 ((- int c) AND 31) OR bit_of W) =
    (let u = H * 2 ^ (32 - c) in if E \<noteq> 0 \<and> even u then u + 1 else u)"
proof -
  have p: "(2::int) ^ 32 = 2 ^ c * 2 ^ (32 - c)" using assms(1,2) by (simp flip: power_add)
  have "H = H div 2 ^ c * 2 ^ c + uint a1 mod 2 ^ c" using div_mult_mod_eq [of H "2 ^ c"] assms(3) by simp
  then have u: "H * 2 ^ (32 - c) = H div 2 ^ c * 2 ^ 32 + uint a1 mod 2 ^ c * 2 ^ (32 - c)"
    unfolding p by (metis distrib_right mult.assoc)
  then have "even (H * 2 ^ (32 - c)) \<longleftrightarrow> even (uint a1 mod 2 ^ c * 2 ^ (32 - c))" by simp
  then show ?thesis unfolding uint_or_bit_of shl_low_part [OF assms(1,2)] Let_def assms(4) using u by auto
qed

lemma sticks_shift64ExtraRightJamming:
  assumes "0 \<le> count"
  shows "sticks 31 (val96 (shift64ExtraRightJamming a0 a1 a2 count)) (val96 (a0, a1, a2)) (2 ^ nat count)"
proof -
  define c where "c = nat count"
  have count: "count = int c" using assms by (simp add: c_def)
  consider "c = 0" | "0 < c" "c < 32" | "c = 32" | "32 < c" "c < 64" | "c = 64" | "64 < c" by linarith
  then show ?thesis
  proof cases
    case 1
    then show ?thesis using sticks_exact [of 1 31] by (simp add: count shift64ExtraRightJamming_def [unfolded Let_def])
  next
    case 2
    have "val64 (c_shr a0 count, c_shl a0 ((- count) AND 31) OR c_shr a1 count) = val64 (a0, a1) div 2 ^ c"
      using val64_shift64Right [of count a0 a1] 2 by (simp add: shift64Right_def count)
    moreover have "val64 (a0, a1) mod 2 ^ c = uint a1 mod 2 ^ c"
    proof -
      have "(2::int) ^ c dvd 2 ^ 32" using 2 by (intro le_imp_power_dvd) simp
      then show ?thesis by (simp add: val64_def mod_add_eq mod_eq_dvd_iff)
    qed
    ultimately have "val96 (shift64ExtraRightJamming a0 a1 a2 count) =
        (let u = val64 (a0, a1) * 2 ^ (32 - c) in if uint a2 \<noteq> 0 \<and> even u then u + 1 else u)"
      using jam_word_pieces [OF 2, of "val64 (a0, a1)" a1 "a2 \<noteq> 0" "uint a2"] 2
      by (simp add: shift64ExtraRightJamming_def [unfolded Let_def] val96_split count uint_0_iff)
    then show ?thesis using sticks_extra [of "val64 (a0, a1)" "uint a2" 0 c] uint_lt2p [of a2] 2 val64_nonneg
      by (simp add: val96_split count)
  next
    case 3
    have "val96 (shift64ExtraRightJamming a0 a1 a2 count) =
        (let u = val64 (a0, a1) * 2 ^ (32 - c) in if uint a2 \<noteq> 0 \<and> even u then u + 1 else u)"
      using 3 by (simp add: shift64ExtraRightJamming_def [unfolded Let_def] val96_split count uint_0_iff uint_or_bit_of Let_def val64_def)
    then show ?thesis using sticks_extra [of "val64 (a0, a1)" "uint a2" 0 c] uint_lt2p [of a2] 3 val64_nonneg
      by (simp add: val96_split count)
  next
    case 4
    define c' where "c' = c - 32"
    have c': "0 < c'" "c' < 32" "c = c' + 32" using 4 by (simp_all add: c'_def)
    have and31: "int c AND 31 = int c'" "(- int c) AND 31 = (- int c') AND 31"
      using c' by (simp_all add: int_and_31)
    have w: "a2 OR a1 \<noteq> 0 \<longleftrightarrow> val64 (a1, a2) \<noteq> 0" by (auto simp: or_word_eq_0 val64_eq_0)
    have "val96 (shift64ExtraRightJamming a0 a1 a2 count) =
        (let u = uint a0 * 2 ^ (32 - c') in if val64 (a1, a2) \<noteq> 0 \<and> even u then u + 1 else u)"
      using jam_word_pieces [OF c'(1,2), of "uint a0" a0 "a2 OR a1 \<noteq> 0" "val64 (a1, a2)"] 4 w
      by (simp add: shift64ExtraRightJamming_def [unfolded Let_def] val96_split and31 uint_c_shr count)
    then show ?thesis using sticks_extra [of "uint a0" "val64 (a1, a2)" 32 c'] val64_less [of "(a1, a2)"] c'
      by (simp add: val96_split_high c_def [symmetric])
  next
    case 5
    have w: "a2 OR a1 \<noteq> 0 \<longleftrightarrow> val64 (a1, a2) \<noteq> 0" by (auto simp: or_word_eq_0 val64_eq_0)
    have "val96 (shift64ExtraRightJamming a0 a1 a2 count) =
        (let u = uint a0 * 2 ^ (32 - 32) in if val64 (a1, a2) \<noteq> 0 \<and> even u then u + 1 else u)"
      using 5 w by (simp add: shift64ExtraRightJamming_def [unfolded Let_def] val96_split count uint_or_bit_of Let_def)
    then show ?thesis using sticks_extra [of "uint a0" "val64 (a1, a2)" 32 32] val64_less [of "(a1, a2)"] 5
      by (simp add: val96_split_high c_def [symmetric])
  next
    case 6
    have w: "a0 \<noteq> 0 \<or> a2 OR a1 \<noteq> 0 \<longleftrightarrow> val96 (a0, a1, a2) \<noteq> 0"
      using val64_nonneg [of a1 a2] by (auto simp: or_word_eq_0 val96_split_high add_nonneg_eq_0_iff uint_0_iff val64_eq_0)
    have "val96 (shift64ExtraRightJamming a0 a1 a2 count) = (if val96 (a0, a1, a2) \<noteq> 0 then 1 else 0)"
      unfolding w [symmetric] using 6 by (auto simp: shift64ExtraRightJamming_def [unfolded Let_def] count val96_split bit_of_def)
    moreover have "val96 (a0, a1, a2) < 2 ^ c * 2 ^ 31"
    proof -
      have "(2::int) ^ 65 \<le> 2 ^ c" using 6 by (intro power_increasing) simp_all
      then show ?thesis using val96_less(1) [of "(a0, a1, a2)"] by simp
    qed
    ultimately show ?thesis using val96_less(2) [of "(a0, a1, a2)"]
      by (intro sticksI [where q = 0 and r = "if val96 (a0, a1, a2) \<noteq> 0 then 1 else 0" and R = "val96 (a0, a1, a2)"]) (simp_all add: count)
  qed
qed

section \<open>Packing\<close>

definition bits_f64 :: "float64 \<Rightarrow> int" where "bits_f64 a = val64 (high a, low a)"

definition sign64 :: "bool \<Rightarrow> int" where "sign64 c = (if c then 2 ^ 63 else 0)"

definition float64_inf :: int where "float64_inf = 0x7FF * 2 ^ 52"

lemma high_part_lt:
  fixes a b c l :: int
  assumes "a * c + l < b * c" "0 \<le> l" "0 < c"
  shows "a < b"
proof (rule ccontr)
  assume "\<not> a < b"
  then have "b * c \<le> a * c" using assms(3) by (simp add: mult_right_mono)
  then show False using assms(1,2) by linarith
qed

lemma packFloat64_finite:
  assumes "0 \<le> zExp" "zExp * 2 ^ 52 + val64 (zSig0, zSig1) < 2 ^ 63"
  shows "bits_f64 (packFloat64 zSign zExp zSig0 zSig1) = sign64 zSign + (zExp * 2 ^ 52 + val64 (zSig0, zSig1))"
proof -
  have "(zExp * 2 ^ 20 + uint zSig0) * 2 ^ 32 + uint zSig1 < 2 ^ 31 * 2 ^ 32"
    using assms(2) by (simp add: val64_def algebra_simps)
  then have lt: "zExp * 2 ^ 20 + uint zSig0 < 2 ^ 31" by (rule high_part_lt) simp_all
  have "uint (c_shl (bit_of zSign) 31 + c_shl (word_of_int zExp) 20 + zSig0) =
      ((if zSign then 2 ^ 31 else 0) + (zExp * 2 ^ 20 + uint zSig0)) mod 2 ^ 32"
    by (simp add: uint_word_ariths uint_c_shl uint_bit_of uint_word_of_int mod_simps add.assoc)
  also have "\<dots> = (if zSign then 2 ^ 31 else 0) + (zExp * 2 ^ 20 + uint zSig0)"
    using lt assms(1) by (subst mod_pos_pos_trivial) auto
  finally show ?thesis by (simp add: packFloat64_def bits_f64_def val64_def sign64_def)
qed

lemma rne_div_word:
  fixes l :: bits32
  assumes "0 \<le> H"
  shows "rne_div (H * 2 ^ 32 + uint l) (2 ^ 32) =
    (if 2 ^ 31 \<le> uint l then H + 1 - (if uint l = 2 ^ 31 then (H + 1) mod 2 else 0) else H)"
proof -
  have "(H * 2 ^ 32 + uint l) div 2 ^ 32 = H" "(H * 2 ^ 32 + uint l) mod 2 ^ 32 = uint l"
    using uint_lt2p [of l] by simp_all
  then show ?thesis unfolding rne_div_def Let_def by (auto simp: mod_2_eq_odd)
qed

lemma double_word_0: "l + l = 0 \<longleftrightarrow> uint l = 0 \<or> uint l = 2 ^ 31" for l :: bits32
proof -
  have "uint (l + l) = (2 * uint l) mod 2 ^ 32" by (simp add: uint_word_ariths)
  then have "l + l = 0 \<longleftrightarrow> (2 * uint l) mod (2 * 2 ^ 31) = 0" by (simp add: word_uint_eq_iff)
  also have "\<dots> \<longleftrightarrow> uint l mod 2 ^ 31 = 0" by (subst mult_mod_right [symmetric]) simp
  also have "\<dots> \<longleftrightarrow> uint l = 0 \<or> uint l = 2 ^ 31"
    using uint_lt2p [of l] int_mod_if_pos [of "uint l" "2 ^ 31"] by auto
  finally show ?thesis .
qed

text \<open>The significand after the increment, with the tie broken to even.\<close>

definition rounded64 :: "bits32 \<Rightarrow> bits32 \<Rightarrow> bits32 \<Rightarrow> bits32 \<times> bits32" where
  "rounded64 zSig0 zSig1 zSig2 =
     (if sint zSig2 < 0
      then let (zSig0, zSig1) = add64 zSig0 zSig1 0 1 in (zSig0, zSig1 AND NOT (bit_of (zSig2 + zSig2 = 0)))
      else (zSig0, zSig1))"

lemma val64_rounded64:
  assumes "val64 (zSig0, zSig1) < 2 ^ 63"
  shows "val64 (rounded64 zSig0 zSig1 zSig2) = rne_div (val96 (zSig0, zSig1, zSig2)) (2 ^ 32)"
proof -
  obtain y0 y1 where y: "add64 zSig0 zSig1 0 1 = (y0, y1)" by fastforce
  have v: "val64 (y0, y1) = val64 (zSig0, zSig1) + 1" using val64_add64_exact [of zSig0 zSig1 0 1] assms by (simp add: y)
  have "val64 (y0, y1) = uint y1 + (uint y0 * 2 ^ 31) * 2" by (simp add: val64_def)
  then have "uint y1 mod 2 = val64 (y0, y1) mod 2" by (simp only: mod_mult_self1)
  then have "val64 (y0, y1 AND NOT (bit_of c)) = val64 (y0, y1) - (if c then val64 (y0, y1) mod 2 else 0)" for c
    by (simp add: val64_def uint_clear_low)
  then show ?thesis unfolding val96_split rne_div_word [OF val64_nonneg]
    by (auto simp: rounded64_def [unfolded double_word_0] y v sint32_neg_iff split: prod.splits)
qed

lemma roundAndPackFloat64_nearest:
  assumes "nearest_even s"
  shows "fst (roundAndPackFloat64 zSign zExp zSig0 zSig1 zSig2 s) =
    (if 0x7FD \<le> zExp mod 2 ^ 16 \<and> (0x7FD < zExp \<or> zExp = 0x7FD \<and> eq64 0x001FFFFF 0xFFFFFFFF zSig0 zSig1 \<and> sint zSig2 < 0)
     then packFloat64 zSign 0x7FF 0 0
     else let tiny = 0x7FD \<le> zExp mod 2 ^ 16 \<and> zExp < 0;
              (y0, y1, y2) = (if tiny then shift64ExtraRightJamming zSig0 zSig1 zSig2 (- zExp) else (zSig0, zSig1, zSig2));
              (r0, r1) = rounded64 y0 y1 y2
          in packFloat64 zSign (if tiny \<or> \<not> sint y2 < 0 \<and> r0 OR r1 = 0 then 0 else zExp) r0 r1)"
  unfolding roundAndPackFloat64_def assms Let_def rounded64_def
  by (cases "0x7FD \<le> zExp mod 2 ^ 16"; cases "zExp < 0") (auto split: prod.splits)

lemma roundAndPackFloat64_value:
  fixes zSig0 zSig1 zSig2 :: bits32
  defines "x \<equiv> val96 (zSig0, zSig1, zSig2)"
  assumes "nearest_even s" "x < 2 ^ 85" "- (2 ^ 15) \<le> zExp" "zExp < 2 ^ 15" "2 ^ 84 \<le> x \<or> zExp \<le> 0"
  shows "bits_f64 (fst (roundAndPackFloat64 zSign zExp zSig0 zSig1 zSig2 s)) = sign64 zSign + min (packed 52 32 zExp x) float64_inf"
proof -
  define H where "H = val64 (zSig0, zSig1)"
  have x: "x = H * 2 ^ 32 + uint zSig2" by (simp add: x_def H_def val96_split)
  have "H < 2 ^ 53" by (rule high_part_lt [of _ "2 ^ 32" "uint zSig2"]) (use assms(3) x in simp_all)
  then have H: "0 \<le> H" "H < 2 ^ 53" "H < 2 ^ 63" using val64_nonneg [of zSig0 zSig1] by (simp_all add: H_def)
  have special: "0x7FD \<le> zExp mod 2 ^ 16 \<longleftrightarrow> zExp < 0 \<or> 0x7FD \<le> zExp"
    using assms(4,5) int_mod_if_neg [of "2 ^ 16" zExp] by auto
  have full: "eq64 0x001FFFFF 0xFFFFFFFF zSig0 zSig1 \<longleftrightarrow> H = 2 ^ 53 - 1" by (auto simp: val64_eq64 H_def val64_def)
  have r: "rne_div x (2 ^ 32) = (if 2 ^ 31 \<le> uint zSig2 then H + 1 - (if uint zSig2 = 2 ^ 31 then (H + 1) mod 2 else 0) else H)"
    unfolding x by (rule rne_div_word [OF H(1)])
  have r_le: "rne_div x (2 ^ 32) \<le> 2 ^ 53" "0 \<le> rne_div x (2 ^ 32)" "2 ^ 84 \<le> x \<Longrightarrow> 2 ^ 52 \<le> rne_div x (2 ^ 32)"
    using assms(3) rne_div_le [of "2 ^ 32" x "2 ^ 53"] rne_div_ge [of "2 ^ 32" 0 x] rne_div_ge [of "2 ^ 32" "2 ^ 52" x] H(1) by (simp_all add: x)
  have r_lt: "rne_div x (2 ^ 32) < 2 ^ 53 \<longleftrightarrow> \<not> (H = 2 ^ 53 - 1 \<and> sint zSig2 < 0)"
  proof -
    have "(H + 1) mod 2 = 0" if "H = 2 ^ 53 - 1" using that by simp
    then show ?thesis using H(2) pos_mod_sign [of 2 "H + 1"] unfolding r sint32_neg_iff by auto
  qed
  note rp = roundAndPackFloat64_nearest [OF assms(2), of zSign zExp zSig0 zSig1 zSig2, unfolded special full]
  consider (over) "0x7FD < zExp \<or> zExp = 0x7FD \<and> H = 2 ^ 53 - 1 \<and> sint zSig2 < 0" | (tiny) "zExp < 0" |
    (normal) "0 \<le> zExp" "zExp < 0x7FD \<or> zExp = 0x7FD \<and> rne_div x (2 ^ 32) < 2 ^ 53" using r_lt by linarith
  then show ?thesis
  proof cases
    case over
    then have "fst (roundAndPackFloat64 zSign zExp zSig0 zSig1 zSig2 s) = packFloat64 zSign 0x7FF 0 0" unfolding rp by auto
    moreover have "bits_f64 (packFloat64 zSign 0x7FF 0 0) = sign64 zSign + float64_inf"
      by (subst packFloat64_finite) (simp_all add: float64_inf_def)
    moreover have "float64_inf \<le> packed 52 32 zExp x"
    proof -
      have "2 ^ 52 \<le> rne_div x (2 ^ 32)" "zExp = 0x7FD \<Longrightarrow> rne_div x (2 ^ 32) = 2 ^ 53" using over r_lt r_le assms(6) by auto
      then show ?thesis using over by (auto simp: packed_def float64_inf_def)
    qed
    ultimately show ?thesis by simp
  next
    case tiny
    obtain y0 y1 y2 where y: "shift64ExtraRightJamming zSig0 zSig1 zSig2 (- zExp) = (y0, y1, y2)" by (metis prod_cases3)
    obtain r0 r1 where rr: "rounded64 y0 y1 y2 = (r0, r1)" by fastforce
    have st: "sticks 31 (val96 (y0, y1, y2)) x (2 ^ nat (- zExp))"
      using sticks_shift64ExtraRightJamming [of "- zExp" zSig0 zSig1 zSig2] tiny by (simp add: y x_def)
    have "x < 2 ^ nat (- zExp) * 2 ^ 84"
    proof -
      have "(2::int) ^ 1 \<le> 2 ^ nat (- zExp)" using tiny by (intro power_increasing) simp_all
      then show ?thesis using assms(3) by simp
    qed
    then have y84: "val96 (y0, y1, y2) < 2 ^ 84" using sticks_le_iff [OF st, of 84] by simp
    have "val64 (y0, y1) < 2 ^ 52" by (rule high_part_lt [of _ "2 ^ 32" "uint y2"]) (use y84 in \<open>simp_all add: val96_split\<close>)
    then have v: "val64 (r0, r1) = rne_div (val96 (y0, y1, y2)) (2 ^ 32)" using val64_rounded64 [of y0 y1 y2] by (simp add: rr)
    have "rne_div (val96 (y0, y1, y2)) (2 ^ 32) \<le> 2 ^ 52" using y84 by (intro rne_div_le) simp_all
    moreover have "rne_div (val96 (y0, y1, y2)) (2 ^ 32) = packed 52 32 zExp x"
    proof -
      have "rne_div (val96 (y0, y1, y2)) (2 ^ 32) = rne_div x (2 ^ nat (- zExp) * 2 ^ 32)" by (rule sticks_rne [OF st]) simp_all
      also have "(2::int) ^ nat (- zExp) * 2 ^ 32 = 2 ^ (32 + nat (- zExp))" by (simp only: power_add mult.commute)
      finally show ?thesis unfolding packed_def using tiny by (simp only: if_True)
    qed
    moreover have "fst (roundAndPackFloat64 zSign zExp zSig0 zSig1 zSig2 s) = packFloat64 zSign 0 r0 r1"
      unfolding rp using tiny by (simp add: y rr)
    ultimately show ?thesis using v by (simp add: packFloat64_finite float64_inf_def)
  next
    case normal
    obtain r0 r1 where rr: "rounded64 zSig0 zSig1 zSig2 = (r0, r1)" by fastforce
    have v: "val64 (r0, r1) = rne_div x (2 ^ 32)" using val64_rounded64 [of zSig0 zSig1 zSig2] H(3) by (simp add: rr x_def H_def)
    have lt: "zExp * 2 ^ 52 + rne_div x (2 ^ 32) < float64_inf" using normal r_le by (auto simp: float64_inf_def)
    have zero: "zExp = 0" if "r0 OR r1 = 0"
    proof -
      have "val64 (r0, r1) = 0" using that by (simp add: or_word_eq_0)
      then show ?thesis using v r_le(3) assms(6) normal(1) by auto
    qed
    have "fst (roundAndPackFloat64 zSign zExp zSig0 zSig1 zSig2 s) = packFloat64 zSign zExp r0 r1"
      unfolding rp using normal r_lt zero by (auto simp: rr Let_def)
    then show ?thesis using lt normal(1) v by (simp add: packFloat64_finite float64_inf_def packed_def)
  qed
qed

section \<open>Rounding\<close>

definition round64 :: "int \<Rightarrow> int \<Rightarrow> int" where
  "round64 N D = min (round_mag 52 N D) float64_inf"

lemma round64_pack:
  assumes "nearest_even s" "0 < D" "0 \<le> N"
    "sticks 31 (val96 (zSig0, zSig1, zSig2)) N' D'" "0 < D'" "N' * (D * 2 ^ nat zExp) = N * 2 ^ (32 + nat (- zExp)) * D'"
    "val96 (zSig0, zSig1, zSig2) < 2 ^ 85" "- (2 ^ 15) \<le> zExp" "zExp < 2 ^ 15" "2 ^ 84 \<le> val96 (zSig0, zSig1, zSig2) \<or> zExp \<le> 0"
  shows "bits_f64 (fst (roundAndPackFloat64 zSign zExp zSig0 zSig1 zSig2 s)) = sign64 zSign + round64 N D"
proof -
  have "sticks 31 (val96 (zSig0, zSig1, zSig2)) (N * 2 ^ (32 + nat (- zExp))) (D * 2 ^ nat zExp)"
    using assms(2,5,6) by (intro sticks_cross [OF assms(4)]) simp_all
  from packed_round_mag [OF assms(2,3) this, of 52] have "packed 52 32 zExp (val96 (zSig0, zSig1, zSig2)) = round_mag 52 N D"
    using assms(7,10) by simp
  then show ?thesis using roundAndPackFloat64_value [OF assms(1,7-10)] by (simp add: round64_def)
qed

lemma val64_clz:
  fixes zSig0 zSig1 :: bits32
  defines "S \<equiv> val64 (zSig0, zSig1)" and "c \<equiv> countLeadingZeros32 zSig0"
  assumes "zSig0 \<noteq> 0"
  shows "2 ^ 63 \<le> S * 2 ^ nat c" "S * 2 ^ nat c < 2 ^ 64" "0 \<le> c" "c < 32"
proof -
  note b = clz32_bounds [of zSig0]
  show c: "0 \<le> c" "c < 32" using b assms(3) by (simp_all add: c_def)
  have S: "S * 2 ^ nat c = (uint zSig0 * 2 ^ nat c) * 2 ^ 32 + uint zSig1 * 2 ^ nat c" by (simp add: S_def val64_def distrib_right)
  have "2 ^ 31 * 2 ^ 32 \<le> (uint zSig0 * 2 ^ nat c) * 2 ^ 32" using b assms(3) by (simp add: c_def)
  moreover have "0 \<le> uint zSig1 * 2 ^ nat c" by simp
  ultimately have "2 ^ 31 * 2 ^ 32 \<le> S * 2 ^ nat c" unfolding S by linarith
  then show "2 ^ 63 \<le> S * 2 ^ nat c" by simp
  have "uint zSig0 * 2 ^ nat c < 2 ^ (32 - nat c) * 2 ^ nat c"
  proof -
    have "32 - nat c + nat c = 32" using c by simp
    then show ?thesis using b assms(3) by (simp add: c_def flip: power_add)
  qed
  then have "uint zSig0 < 2 ^ (32 - nat c)" by simp
  then have "uint zSig0 * 2 ^ 32 + uint zSig1 < 2 ^ (32 - nat c) * 2 ^ 32" using carry_lt [of "uint zSig0" _ "uint zSig1" "2 ^ 32"] uint_lt2p [of zSig1] by simp
  then have "S * 2 ^ nat c < 2 ^ (32 - nat c) * 2 ^ 32 * 2 ^ nat c" by (simp add: S_def val64_def)
  also have "\<dots> = 2 ^ (32 - nat c + 32 + nat c)" by (simp only: power_add)
  also have "32 - nat c + 32 + nat c = 64" using c by simp
  finally show "S * 2 ^ nat c < 2 ^ 64" .
qed

text \<open>The shift that brings the leading bit of a significand to its place.\<close>

lemma normalize64_shift:
  fixes zSig0 zSig1 :: bits32
  defines "S \<equiv> val64 (zSig0, zSig1)" and "c \<equiv> countLeadingZeros32 zSig0 - 11"
  assumes "zSig0 \<noteq> 0"
  obtains y0 y1 y2 where "(if 0 \<le> c then let (zSig0, zSig1) = shortShift64Left zSig0 zSig1 c in (zSig0, zSig1, 0)
      else shift64ExtraRightJamming zSig0 zSig1 0 (- c)) = (y0, y1, y2)"
    "sticks 31 (val96 (y0, y1, y2)) (S * 2 ^ (32 + nat c)) (2 ^ nat (- c))"
    "2 ^ 84 \<le> val96 (y0, y1, y2)" "val96 (y0, y1, y2) < 2 ^ 85"
proof -
  note z = val64_clz(1,2) [OF assms(3), of zSig1] val64_clz(3,4) [OF assms(3)]
  obtain y0 y1 y2 where y: "(if 0 \<le> c then let (zSig0, zSig1) = shortShift64Left zSig0 zSig1 c in (zSig0, zSig1, 0)
      else shift64ExtraRightJamming zSig0 zSig1 0 (- c)) = (y0, y1, y2)" by (metis prod_cases3)
  let ?N = "S * 2 ^ (32 + nat c)" and ?D = "2 ^ nat (- c) :: int"
  have scale: "?N * 2 ^ 11 = S * 2 ^ nat (countLeadingZeros32 zSig0) * 2 ^ (32 + nat (- c))"
  proof -
    have "32 + nat c + 11 = nat (countLeadingZeros32 zSig0) + (32 + nat (- c))" using z(3) by (simp add: c_def)
    then show ?thesis by (simp only: mult.assoc power_add [symmetric])
  qed
  have "2 ^ 63 * 2 ^ (32 + nat (- c)) \<le> ?N * 2 ^ 11" unfolding scale using z(1) by (simp add: S_def)
  then have lo: "?D * 2 ^ 84 \<le> ?N" by (simp add: power_add)
  have "?N * 2 ^ 11 < 2 ^ 64 * 2 ^ (32 + nat (- c))" unfolding scale using z(2) by (simp add: S_def)
  then have hi: "?N < ?D * 2 ^ 85" by (simp add: power_add)
  have st: "sticks 31 (val96 (y0, y1, y2)) ?N ?D"
  proof (cases "0 \<le> c")
    case True
    obtain w0 w1 where w: "shortShift64Left zSig0 zSig1 c = (w0, w1)" by fastforce
    have "S * 2 ^ nat c < 2 ^ 64"
    proof -
      have "S * 2 ^ nat c \<le> S * 2 ^ nat (countLeadingZeros32 zSig0)"
        using True val64_nonneg [of zSig0 zSig1] by (intro mult_left_mono power_increasing) (simp_all add: c_def S_def)
      then show ?thesis using z(2) by (simp add: S_def)
    qed
    then have "val64 (w0, w1) = S * 2 ^ nat c"
      using val64_shortShift64Left [of c zSig0 zSig1, unfolded w] True z(4) val64_nonneg [of zSig0 zSig1] by (simp add: S_def c_def)
    then have "val96 (y0, y1, y2) = ?N" using y True by (simp add: w val96_split power_add)
    then show ?thesis using sticks_exact [of 1 31 ?N] True by simp
  next
    case False
    then show ?thesis using sticks_shift64ExtraRightJamming [of "- c" zSig0 zSig1 0] y by (simp add: val96_split S_def)
  qed
  show ?thesis using that [OF y st] sticks_le_iff [OF st, of 84] sticks_le_iff [OF st, of 85] lo hi by simp
qed

lemma normalizeRoundAndPackFloat64_high:
  fixes zSig0 zSig1 :: bits32
  defines "S \<equiv> val64 (zSig0, zSig1)"
  assumes "nearest_even s" "0 < D" "0 \<le> N" "zSig0 \<noteq> 0" "- (2 ^ 14) \<le> zExp" "zExp < 2 ^ 14"
    and approx: "sticks 1 S (N * 2 ^ nat (- zExp)) (D * 2 ^ nat zExp) \<and> 2 ^ 60 \<le> S
      \<or> S * (D * 2 ^ nat zExp) = N * 2 ^ nat (- zExp)"
  shows "bits_f64 (fst (normalizeRoundAndPackFloat64 zSign zExp zSig0 zSig1 s)) = sign64 zSign + round64 N D"
proof -
  define c where "c = countLeadingZeros32 zSig0 - 11"
  note z = val64_clz(1,2) [OF assms(5), of zSig1] val64_clz(3,4) [OF assms(5)]
  obtain y0 y1 y2 where y: "(if 0 \<le> c then let (zSig0, zSig1) = shortShift64Left zSig0 zSig1 c in (zSig0, zSig1, 0)
      else shift64ExtraRightJamming zSig0 zSig1 0 (- c)) = (y0, y1, y2)"
    "sticks 31 (val96 (y0, y1, y2)) (S * 2 ^ (32 + nat c)) (2 ^ nat (- c))"
    "2 ^ 84 \<le> val96 (y0, y1, y2)" "val96 (y0, y1, y2) < 2 ^ 85"
    unfolding c_def S_def by (rule normalize64_shift [OF assms(5)])
  let ?N = "N * 2 ^ nat (- zExp)" and ?D = "D * 2 ^ nat zExp"
  have D: "0 < ?D" using assms(3) by simp
  have c: "- 11 \<le> c" "c \<le> 20" using z(3,4) by (simp_all add: c_def)
  have st: "sticks 31 (val96 (y0, y1, y2)) (?N * 2 ^ (32 + nat c)) (?D * 2 ^ nat (- c))"
    using approx
  proof
    assume "S * ?D = ?N"
    then have "S * 2 ^ (32 + nat c) * (?D * 2 ^ nat (- c)) = ?N * 2 ^ (32 + nat c) * 2 ^ nat (- c)"
      by (metis mult.assoc mult.commute)
    then show ?thesis using D by (intro sticks_cross [OF y(2)]) simp_all
  next
    assume a: "sticks 1 S ?N ?D \<and> 2 ^ 60 \<le> S"
    have "c \<le> - 7"
    proof (rule ccontr)
      assume "\<not> c \<le> - 7"
      then have "2 ^ 60 * 2 ^ 5 \<le> S * 2 ^ nat (countLeadingZeros32 zSig0)" using a by (intro mult_mono power_increasing) (simp_all add: c_def)
      then show False using z(2) by (simp add: S_def)
    qed
    then have n: "nat c = 0" "2 \<le> nat (- c)" by simp_all
    have "sticks (1 + 32) (S * 2 ^ 32) (?N * 2 ^ 32) ?D" by (rule sticks_mult) (use a D in simp_all)
    from sticks_trans [OF y(2) [unfolded n add_0_right] this _ D] show ?thesis using n by simp
  qed
  have "?N * 2 ^ (32 + nat c) * (D * 2 ^ nat (zExp - c)) = N * 2 ^ (32 + nat (- (zExp - c))) * (?D * 2 ^ nat (- c))"
  proof -
    have "nat (- zExp) + (32 + nat c) + nat (zExp - c) = (32 + nat (- (zExp - c))) + nat zExp + nat (- c)" by linarith
    then have "(2::int) ^ nat (- zExp) * 2 ^ (32 + nat c) * 2 ^ nat (zExp - c) = 2 ^ (32 + nat (- (zExp - c))) * 2 ^ nat zExp * 2 ^ nat (- c)"
      by (simp only: power_add [symmetric])
    then show ?thesis by (simp only: mult.assoc mult.left_commute mult.commute)
  qed
  from round64_pack [OF assms(2-4) st _ this, of zSign]
  have "bits_f64 (fst (roundAndPackFloat64 zSign (zExp - c) y0 y1 y2 s)) = sign64 zSign + round64 N D"
    using D y(3,4) c assms(6,7) by simp
  moreover have "normalizeRoundAndPackFloat64 zSign zExp zSig0 zSig1 s = roundAndPackFloat64 zSign (zExp - c) y0 y1 y2 s"
    by (simp only: normalizeRoundAndPackFloat64_def Let_def if_not_P [OF assms(5)] prod.case c_def [symmetric] y(1) [unfolded Let_def])
  ultimately show ?thesis by simp
qed

lemma normalizeRoundAndPackFloat64_round:
  fixes zSig0 zSig1 :: bits32
  defines "S \<equiv> val64 (zSig0, zSig1)"
  assumes "nearest_even s" "0 < D" "0 \<le> N" "S \<noteq> 0" "- (2 ^ 13) \<le> zExp" "zExp < 2 ^ 13"
    and approx: "sticks 1 S (N * 2 ^ nat (- zExp)) (D * 2 ^ nat zExp) \<and> 2 ^ 60 \<le> S
      \<or> S * (D * 2 ^ nat zExp) = N * 2 ^ nat (- zExp)"
  shows "bits_f64 (fst (normalizeRoundAndPackFloat64 zSign zExp zSig0 zSig1 s)) = sign64 zSign + round64 N D"
proof (cases "zSig0 = 0")
  case False
  then show ?thesis using assms by (intro normalizeRoundAndPackFloat64_high) simp_all
next
  case True
  have S: "S = uint zSig1" "S < 2 ^ 32" using True uint_lt2p [of zSig1] by (simp_all add: S_def)
  then have z1: "zSig1 \<noteq> 0" using assms(5) by auto
  have "S * (D * 2 ^ nat zExp) = N * 2 ^ nat (- zExp)" using approx S(2) by auto
  then have e: "(S * D) * 2 ^ nat zExp = N * 2 ^ nat (- zExp)" by (simp add: mult.assoc)
  have "(S * D) * 2 ^ (32 + nat (zExp - 32)) = N * 2 ^ nat (- (zExp - 32))" by (rule pow2_cross [OF e]) linarith
  then have "val64 (zSig1, 0) * (D * 2 ^ nat (zExp - 32)) = N * 2 ^ nat (- (zExp - 32))"
    by (simp add: S(1) val64_def power_add mult.assoc mult.left_commute)
  then have "bits_f64 (fst (normalizeRoundAndPackFloat64 zSign (zExp - 32) zSig1 0 s)) = sign64 zSign + round64 N D"
    using assms(6,7) by (intro normalizeRoundAndPackFloat64_high [OF assms(2-4) z1]) simp_all
  moreover have "normalizeRoundAndPackFloat64 zSign zExp zSig0 zSig1 s = normalizeRoundAndPackFloat64 zSign (zExp - 32) zSig1 0 s"
    using True z1 by (simp add: normalizeRoundAndPackFloat64_def)
  ultimately show ?thesis by simp
qed

end
