(* ===== verification/Float64_Arith.thy ===== *)
theory Float64_Arith
  imports Float64_Round
begin

text \<open>
  The bit patterns \<open>float64_add\<close> and \<open>float64_sub\<close> return, by significands aligned and rounded.
\<close>

section \<open>Significands\<close>

definition frac64 :: "float64 \<Rightarrow> int" where
  "frac64 a = val64 (extractFloat64Frac0 a, extractFloat64Frac1 a)"

definition sig64 :: "float64 \<Rightarrow> int" where
  "sig64 a = (if extractFloat64Exp a = 0 then 0 else 2 ^ 52) + frac64 a"

definition exp64 :: "float64 \<Rightarrow> int" where
  "exp64 a = (if extractFloat64Exp a = 0 then 1 else extractFloat64Exp a)"

lemma frac64_range: "0 \<le> frac64 a" "frac64 a < 2 ^ 52"
proof -
  show "0 \<le> frac64 a" by (simp add: frac64_def val64_nonneg)
  have "uint (extractFloat64Frac0 a) * 2 ^ 32 + uint (extractFloat64Frac1 a) < 2 ^ 20 * 2 ^ 32"
    using carry_lt [OF float64_ranges(3), of "uint (extractFloat64Frac1 a)" "2 ^ 32" a] uint_lt2p [of "extractFloat64Frac1 a"] by simp
  then show "frac64 a < 2 ^ 52" by (simp add: frac64_def val64_def)
qed

lemma mag64_frac: "mag64 a = extractFloat64Exp a * 2 ^ 52 + frac64 a"
  by (simp add: mag64_split frac64_def val64_def)

lemma bits_f64_split: "bits_f64 a = sign64 (extractFloat64Sign a) + mag64 a"
  by (simp add: bits_f64_def sign64_def val64_float64)

lemma abs64_sig: "abs64 a = sig64 a * 2 ^ nat (exp64 a - 1)"
proof (cases "extractFloat64Exp a = 0")
  case True
  then show ?thesis using frac64_range [of a] fval_small [of "mag64 a" 52] by (simp add: mag64_frac sig64_def exp64_def)
next
  case False
  then have "mag64 a = int (nat (extractFloat64Exp a - 1)) * 2 ^ 52 + sig64 a"
    using float64_ranges(1) [of a] by (simp add: mag64_frac sig64_def left_diff_distrib)
  then show ?thesis using False frac64_range [of a] fval_binade [of 52 "sig64 a" "nat (extractFloat64Exp a - 1)"]
    by (simp add: sig64_def exp64_def)
qed

lemma sig64_ranges:
  "0 \<le> sig64 a" "sig64 a < 2 ^ 53" "1 \<le> exp64 a" "exp64 a \<le> 0x7FF" "finite64 a \<Longrightarrow> exp64 a \<le> 0x7FE"
  "extractFloat64Exp a \<noteq> 0 \<Longrightarrow> 2 ^ 52 \<le> sig64 a" "extractFloat64Exp a = 0 \<Longrightarrow> sig64 a < 2 ^ 52"
  using float64_ranges(1,2) [of a] frac64_range [of a] by (auto simp: sig64_def exp64_def finite64_def)

lemma abs64_nonneg: "0 \<le> abs64 a"
  by (rule fval_nonneg) (rule float64_ranges)

lemma val64_or_implicit: "uint x < 2 ^ 20 \<Longrightarrow> val64 (x OR 0x00100000, y) = 2 ^ 52 + val64 (x, y)"
  "uint x < 2 ^ 21 \<Longrightarrow> val64 (x OR 0x00200000, y) = 2 ^ 53 + val64 (x, y)"
  "uint x < 2 ^ 30 \<Longrightarrow> val64 (x OR 0x40000000, y) = 2 ^ 62 + val64 (x, y)"
  using uint_or_exp [of x 20] uint_or_exp [of x 21] uint_or_exp [of x 30] by (simp_all add: val64_def)

lemma val64_high_lt: "val64 (x, y) < 2 ^ (32 + n) \<longleftrightarrow> uint x < 2 ^ n"
proof -
  have "uint x * 2 ^ 32 + uint y < 2 ^ n * 2 ^ 32 \<longleftrightarrow> uint x < 2 ^ n"
    using two_digit_iff [of "uint y" "2 ^ 32" 0 "uint x" "2 ^ n"] uint_lt2p [of y] by simp
  then show ?thesis by (simp add: val64_def power_add mult.commute)
qed

lemma abs64_scaled:
  assumes "exp64 b \<le> exp64 a"
  shows "abs64 a + abs64 b = (sig64 a * 2 ^ nat (exp64 a - exp64 b) + sig64 b) * 2 ^ nat (exp64 b - 1)"
    "abs64 a - abs64 b = (sig64 a * 2 ^ nat (exp64 a - exp64 b) - sig64 b) * 2 ^ nat (exp64 b - 1)"
proof -
  have "nat (exp64 a - 1) = nat (exp64 a - exp64 b) + nat (exp64 b - 1)" using assms sig64_ranges(3) [of b] by simp
  then show "abs64 a + abs64 b = (sig64 a * 2 ^ nat (exp64 a - exp64 b) + sig64 b) * 2 ^ nat (exp64 b - 1)"
    "abs64 a - abs64 b = (sig64 a * 2 ^ nat (exp64 a - exp64 b) - sig64 b) * 2 ^ nat (exp64 b - 1)"
    by (simp_all add: abs64_sig power_add algebra_simps)
qed

section \<open>Addition of magnitudes\<close>

text \<open>A significand one bit too long is shifted right before it is rounded.\<close>

lemma shift_round64:
  assumes "nearest_even s" "0 < D" "0 \<le> N" "sticks 31 (val96 (z0, z1, z2)) N' D'" "0 < D'"
    "N' * (D * 2 ^ nat zExp) = N * 2 ^ (32 + nat (- zExp)) * (D' * 2)" "2 ^ 85 \<le> val96 (z0, z1, z2)" "val96 (z0, z1, z2) < 2 ^ 86"
    "- (2 ^ 15) \<le> zExp" "zExp < 2 ^ 15"
  shows "bits_f64 (fst (let (y0, y1, y2) = shift64ExtraRightJamming z0 z1 z2 1 in roundAndPackFloat64 zSign zExp y0 y1 y2 s)) =
    sign64 zSign + round64 N D"
proof -
  obtain y0 y1 y2 where y: "shift64ExtraRightJamming z0 z1 z2 1 = (y0, y1, y2)" by (metis prod_cases3)
  have st: "sticks 31 (val96 (y0, y1, y2)) (val96 (z0, z1, z2)) (2 ^ 1)"
    using sticks_shift64ExtraRightJamming [of 1 z0 z1 z2] by (simp add: y)
  have "2 ^ 84 \<le> val96 (y0, y1, y2)" "val96 (y0, y1, y2) < 2 ^ 85"
    using sticks_le_iff [OF st, of 84] sticks_le_iff [OF st, of 85] assms(7,8) by simp_all
  moreover have st': "sticks 31 (val96 (y0, y1, y2)) N' (D' * 2 ^ 1)" by (rule sticks_trans [OF st assms(4)]) (use assms(5) in simp_all)
  ultimately have "bits_f64 (fst (roundAndPackFloat64 zSign zExp y0 y1 y2 s)) = sign64 zSign + round64 N D"
    using assms(5,6,9,10) by (intro round64_pack [OF assms(1,2,3) st']) simp_all
  then show ?thesis by (simp add: y)
qed

lemma high_word_lt: "z0 < 0x00200000 \<longleftrightarrow> val96 (z0, z1, z2) < 2 ^ 85"
proof -
  have "uint z0 * 2 ^ 64 + val64 (z1, z2) < 2 ^ 21 * 2 ^ 64 \<longleftrightarrow> uint z0 < 2 ^ 21"
    using two_digit_iff [of "val64 (z1, z2)" "2 ^ 64" 0 "uint z0" "2 ^ 21"] val64_less [of "(z1, z2)"] by simp
  then show ?thesis by (simp add: word_less_def val96_split_high)
qed

text \<open>A significand of 53 or 54 bits before the guard word, as a sum or a product leaves it.\<close>

lemma round_or_shift64:
  assumes "nearest_even s" "0 < D" "0 \<le> N" "sticks 31 (val96 (z0, z1, z2)) N' D'" "0 < D'"
    "N' * (D * 2 ^ nat zExp) = N * 2 ^ (32 + nat (- zExp)) * D'" "2 ^ 84 \<le> val96 (z0, z1, z2)" "val96 (z0, z1, z2) < 2 ^ 86"
    "- (2 ^ 14) \<le> zExp" "zExp < 2 ^ 14"
  shows "bits_f64 (fst (if z0 < 0x00200000 then roundAndPackFloat64 zSign zExp z0 z1 z2 s
      else let (y0, y1, y2) = shift64ExtraRightJamming z0 z1 z2 1 in roundAndPackFloat64 zSign (zExp + 1) y0 y1 y2 s)) =
    sign64 zSign + round64 N D"
proof (cases "z0 < 0x00200000")
  case True
  have "bits_f64 (fst (roundAndPackFloat64 zSign zExp z0 z1 z2 s)) = sign64 zSign + round64 N D"
    using True assms(7-10) by (intro round64_pack [OF assms(1-6)]) (simp_all add: high_word_lt [of z0 z1 z2])
  then show ?thesis using True by simp
next
  case False
  have e: "(N' * D) * 2 ^ nat zExp = (N * D') * 2 ^ (32 + nat (- zExp))" using assms(6) by (simp only: mult.assoc mult.commute mult.left_commute)
  have "(N' * D) * 2 ^ nat (zExp + 1) = (N * D') * 2 ^ Suc (32 + nat (- (zExp + 1)))" by (rule pow2_cross [OF e]) linarith
  then have "N' * (D * 2 ^ nat (zExp + 1)) = N * 2 ^ (32 + nat (- (zExp + 1))) * (D' * 2)"
    by (simp only: power_Suc mult.assoc mult.commute mult.left_commute)
  then have "bits_f64 (fst (let (y0, y1, y2) = shift64ExtraRightJamming z0 z1 z2 1 in roundAndPackFloat64 zSign (zExp + 1) y0 y1 y2 s)) =
      sign64 zSign + round64 N D"
    using False assms(7-10) by (intro shift_round64 [OF assms(1-5)]) (simp_all add: high_word_lt [of z0 z1 z2])
  then show ?thesis using False by simp
qed

lemma add_significands64:
  assumes "nearest_even s" "2 ^ 52 \<le> mA" "mA < 2 ^ 53" "0 \<le> mB" "mB < 2 ^ 53" "1 \<le> F" "int d + F \<le> 0x7FE"
    and st: "sticks 31 (val96 (z0, z1, z2)) ((mA * 2 ^ d + mB) * 2 ^ 32) (2 ^ d)"
  shows "bits_f64 (fst (if z0 < 0x00200000 then roundAndPackFloat64 zSign (int d + F - 1) z0 z1 z2 s
      else let (y0, y1, y2) = shift64ExtraRightJamming z0 z1 z2 1 in roundAndPackFloat64 zSign (int d + F) y0 y1 y2 s)) =
    sign64 zSign + round64 ((mA * 2 ^ d + mB) * 2 ^ nat (F - 1)) 1"
proof -
  let ?M = "mA * 2 ^ d + mB"
  have "2 ^ 52 * 2 ^ d \<le> mA * 2 ^ d" using assms(2) by simp
  then have "2 ^ 52 * 2 ^ d \<le> ?M" using assms(4) by linarith
  then have "(2 ^ 52 * 2 ^ d) * 2 ^ 32 \<le> ?M * 2 ^ 32" by (intro mult_right_mono) simp_all
  then have lo: "2 ^ d * 2 ^ 84 \<le> ?M * 2 ^ 32" by simp
  have "mB \<le> 2 ^ 53 * 2 ^ d" using assms(5) one_le_power [of "2::int" d] by (simp add: order_trans [of mB "2 ^ 53"])
  moreover have "mA * 2 ^ d < 2 ^ 53 * 2 ^ d" using assms(3) by simp
  ultimately have "?M < 2 * (2 ^ 53 * 2 ^ d)" by linarith
  then have "?M * 2 ^ 32 < 2 * (2 ^ 53 * 2 ^ d) * 2 ^ 32" by (intro mult_strict_right_mono) simp_all
  then have hi: "?M * 2 ^ 32 < 2 ^ d * 2 ^ 86" by simp
  have x: "2 ^ 84 \<le> val96 (z0, z1, z2)" "val96 (z0, z1, z2) < 2 ^ 86"
    using sticks_le_iff [OF st, of 84] sticks_le_iff [OF st, of 86] lo hi by simp_all
  have N: "0 \<le> ?M * 2 ^ nat (F - 1)" using assms(2,4) by simp
  have nd: "nat (int d + F - 1) = d + nat (F - 1)" "nat (- (int d + F - 1)) = 0"
    using assms(6) by (simp_all add: nat_add_distrib nat_diff_distrib)
  have "?M * 2 ^ 32 * (1 * 2 ^ nat (int d + F - 1)) = ?M * 2 ^ nat (F - 1) * 2 ^ (32 + nat (- (int d + F - 1))) * 2 ^ d"
    unfolding nd by (simp add: power_add)
  from round_or_shift64 [OF assms(1) zero_less_one N st _ this x, of zSign, unfolded diff_add_cancel] show ?thesis using assms(6,7) by simp
qed

lemma sig64_word:
  "val64 (if extractFloat64Exp a = 0 then extractFloat64Frac0 a else extractFloat64Frac0 a OR 0x00100000, extractFloat64Frac1 a) = sig64 a"
  using float64_ranges(3) [of a] by (simp add: val64_or_implicit sig64_def frac64_def)

text \<open>The shifted significand of the smaller operand.\<close>

lemma shifted_significand64:
  assumes "sticks 31 (val96 (h0, h1, h2)) (m * 2 ^ 32) (2 ^ d)" "0 \<le> m" "m < 2 ^ 53" "d = 0 \<Longrightarrow> m < 2 ^ 52"
  shows "val64 (h0, h1) < 2 ^ 52" "uint h0 < 2 ^ 20"
proof -
  have "m * 2 ^ 32 < 2 ^ d * 2 ^ 84"
  proof (cases "d = 0")
    case False
    then have "(2::int) ^ 1 * 2 ^ 84 \<le> 2 ^ d * 2 ^ 84" by (intro mult_right_mono power_increasing) simp_all
    then show ?thesis using assms(3) by simp
  qed (use assms(4) in simp)
  then have "val96 (h0, h1, h2) < 2 ^ 84" using sticks_le_iff [OF assms(1), of 84] by simp
  then have x: "val64 (h0, h1) * 2 ^ 32 + uint h2 < 2 ^ 52 * 2 ^ 32" by (simp add: val96_split)
  show v: "val64 (h0, h1) < 2 ^ 52" by (rule high_part_lt [OF x]) simp_all
  then show "uint h0 < 2 ^ 20" using val64_high_lt [of h0 h1 20] by simp
qed

lemma addFloat64Sigs_bigger:
  assumes "nearest_even s" "finite64 a" "finite64 b" "extractFloat64Exp b < extractFloat64Exp a"
  shows "bits_f64 (fst (addFloat64Sigs a b zSign s)) = sign64 zSign + round64 (abs64 a + abs64 b) 1"
    "bits_f64 (fst (addFloat64Sigs b a zSign s)) = sign64 zSign + round64 (abs64 a + abs64 b) 1"
proof -
  define d where "d = nat (exp64 a - exp64 b)"
  have ea: "extractFloat64Exp a \<noteq> 0" "extractFloat64Exp a \<noteq> 0x7FF" "exp64 a = extractFloat64Exp a"
    using assms(2,4) float64_ranges(1) [of b] by (auto simp: finite64_def exp64_def)
  have le: "exp64 b \<le> exp64 a" using assms(4) ea(1,3) float64_ranges(1) [of a] by (auto simp: exp64_def)
  have d: "int d = exp64 a - exp64 b" using le by (simp add: d_def)
  have d0: "sig64 b < 2 ^ 52" if "d = 0"
    using that d assms(4) ea(3) sig64_ranges(7) [of b] by (auto simp: exp64_def split: if_splits)
  note sr = sig64_ranges [of a] sig64_ranges [of b]
  have E: "int d + exp64 b \<le> 0x7FE" using d sr(5) assms(2) by simp
  define b0 where "b0 = (if extractFloat64Exp b = 0 then extractFloat64Frac0 b else extractFloat64Frac0 b OR 0x00100000)"
  obtain h0 h1 h2 where h: "shift64ExtraRightJamming b0 (extractFloat64Frac1 b) 0 (int d) = (h0, h1, h2)" by (metis prod_cases3)
  have sth: "sticks 31 (val96 (h0, h1, h2)) (sig64 b * 2 ^ 32) (2 ^ d)"
    using sticks_shift64ExtraRightJamming [of "int d" b0 "extractFloat64Frac1 b" 0, unfolded h] sig64_word [of b, folded b0_def] by (simp add: val96_split)
  note hr = shifted_significand64 [OF sth sr(8,9) d0]
  have "sticks 31 (sig64 a * 2 ^ 32 + val96 (h0, h1, h2)) (sig64 a * 2 ^ 32 * 2 ^ d + sig64 b * 2 ^ 32) (2 ^ d)"
    by (rule sticks_add [OF sth]) (simp_all add: dvd_mult)
  then have st: "sticks 31 (sig64 a * 2 ^ 32 + val96 (h0, h1, h2)) ((sig64 a * 2 ^ d + sig64 b) * 2 ^ 32) (2 ^ d)"
    by (simp add: distrib_right mult.assoc mult.commute [of "2 ^ d"])
  note core = add_significands64 [OF assms(1) sr(6) [OF ea(1)] sr(2,8,9,10) E, of _ _ _ zSign]
  have result: "sign64 zSign + round64 ((sig64 a * 2 ^ d + sig64 b) * 2 ^ nat (exp64 b - 1)) 1 = sign64 zSign + round64 (abs64 a + abs64 b) 1"
    using abs64_scaled(1) [OF le] by (simp add: d_def)
  have fa: "sig64 a = 2 ^ 52 + frac64 a" using ea(1) by (simp add: sig64_def)
  have eq: "int d + exp64 b = extractFloat64Exp a" using d ea(3) by simp
  show "bits_f64 (fst (addFloat64Sigs a b zSign s)) = sign64 zSign + round64 (abs64 a + abs64 b) 1"
  proof -
    obtain z0 z1 where z: "add64 (extractFloat64Frac0 a OR 0x00100000) (extractFloat64Frac1 a) h0 h1 = (z0, z1)" by fastforce
    have "val64 (z0, z1) = sig64 a + val64 (h0, h1)"
      using val64_add64_exact [of "extractFloat64Frac0 a OR 0x00100000" "extractFloat64Frac1 a" h0 h1] float64_ranges(3) [of a] frac64_range [of a] hr(1)
      by (simp add: z val64_or_implicit fa frac64_def [symmetric])
    then have "val96 (z0, z1, h2) = sig64 a * 2 ^ 32 + val96 (h0, h1, h2)" by (simp add: val96_split distrib_right)
    note c = core [of z0 z1 h2, unfolded this, OF st]
    have pair: "(if extractFloat64Exp b = 0 then (extractFloat64Exp a - extractFloat64Exp b - 1, extractFloat64Frac0 b)
        else (extractFloat64Exp a - extractFloat64Exp b, extractFloat64Frac0 b OR 0x00100000)) = (int d, b0)"
      using d ea(3) by (simp add: b0_def exp64_def)
    have "addFloat64Sigs a b zSign s = (if z0 < 0x00200000 then roundAndPackFloat64 zSign (int d + exp64 b - 1) z0 z1 h2 s
      else let (y0, y1, y2) = shift64ExtraRightJamming z0 z1 h2 1 in roundAndPackFloat64 zSign (int d + exp64 b) y0 y1 y2 s)"
      using assms(4) ea(2) unfolding eq by (simp add: addFloat64Sigs_def Let_def pair h z)
    then show ?thesis using c result by simp
  qed
  show "bits_f64 (fst (addFloat64Sigs b a zSign s)) = sign64 zSign + round64 (abs64 a + abs64 b) 1"
  proof -
    obtain z0 z1 where z: "add64 (h0 OR 0x00100000) h1 (extractFloat64Frac0 a) (extractFloat64Frac1 a) = (z0, z1)" by fastforce
    have "val64 (z0, z1) = sig64 a + val64 (h0, h1)"
      using val64_add64_exact [of "h0 OR 0x00100000" h1 "extractFloat64Frac0 a" "extractFloat64Frac1 a"] frac64_range [of a] hr
      by (simp add: z val64_or_implicit fa frac64_def [symmetric])
    then have "val96 (z0, z1, h2) = sig64 a * 2 ^ 32 + val96 (h0, h1, h2)" by (simp add: val96_split distrib_right)
    note c = core [of z0 z1 h2, unfolded this, OF st]
    have pair: "(if extractFloat64Exp b = 0 then (extractFloat64Exp b - extractFloat64Exp a + 1, extractFloat64Frac0 b)
        else (extractFloat64Exp b - extractFloat64Exp a, extractFloat64Frac0 b OR 0x00100000)) = (- int d, b0)"
      using d ea(3) by (simp add: b0_def exp64_def)
    have "addFloat64Sigs b a zSign s = (if z0 < 0x00200000 then roundAndPackFloat64 zSign (int d + exp64 b - 1) z0 z1 h2 s
      else let (y0, y1, y2) = shift64ExtraRightJamming z0 z1 h2 1 in roundAndPackFloat64 zSign (int d + exp64 b) y0 y1 y2 s)"
      using assms(4) ea(2) unfolding eq by (simp add: addFloat64Sigs_def Let_def pair h z)
    then show ?thesis using c result by simp
  qed
qed

lemma addFloat64Sigs_same:
  assumes "nearest_even s" "finite64 a" "extractFloat64Exp a = extractFloat64Exp b"
  shows "bits_f64 (fst (addFloat64Sigs a b zSign s)) = sign64 zSign + round64 (abs64 a + abs64 b) 1"
proof -
  note fr = frac64_range [of a] frac64_range [of b]
  obtain z0 z1 where z: "add64 (extractFloat64Frac0 a) (extractFloat64Frac1 a) (extractFloat64Frac0 b) (extractFloat64Frac1 b) = (z0, z1)" by fastforce
  have v: "val64 (z0, z1) = frac64 a + frac64 b"
    using val64_add64_exact [of "extractFloat64Frac0 a" "extractFloat64Frac1 a" "extractFloat64Frac0 b" "extractFloat64Frac1 b"] fr
    by (simp add: z frac64_def)
  have E: "exp64 b = exp64 a" using assms(3) by (simp add: exp64_def)
  show ?thesis
  proof (cases "extractFloat64Exp a = 0")
    case True
    then have "abs64 a + abs64 b = frac64 a + frac64 b" using assms(3) by (simp add: abs64_sig sig64_def exp64_def)
    moreover have "round_mag 52 (frac64 a + frac64 b) 1 = frac64 a + frac64 b" using fr by (intro round_mag_self) simp_all
    moreover have "fst (addFloat64Sigs a b zSign s) = packFloat64 zSign 0 z0 z1" using True assms(3) by (simp add: addFloat64Sigs_def Let_def z)
    ultimately show ?thesis using fr by (simp add: packFloat64_finite v round64_def float64_inf_def)
  next
    case False
    have "uint z0 < 2 ^ 21" using val64_high_lt [of z0 z1 21] fr v by simp
    then have x: "val96 (z0 OR 0x00200000, z1, 0) = (sig64 a + sig64 b) * 2 ^ 32"
      using False assms(3) by (simp add: val96_split val64_or_implicit v sig64_def)
    have N: "abs64 a + abs64 b = (sig64 a + sig64 b) * 2 ^ nat (exp64 a - 1)" by (simp add: abs64_sig E distrib_right)
    have nE: "nat (exp64 a) = Suc (nat (exp64 a - 1))" using sig64_ranges(3) [of a] by simp
    have st: "sticks 31 (val96 (z0 OR 0x00200000, z1, 0)) ((sig64 a + sig64 b) * 2 ^ 32 * 1) 1" unfolding x by (rule sticks_exact) simp
    note sr = sig64_ranges [of a] sig64_ranges [of b]
    have "bits_f64 (fst (let (y0, y1, y2) = shift64ExtraRightJamming (z0 OR 0x00200000) z1 0 1
        in roundAndPackFloat64 zSign (exp64 a) y0 y1 y2 s)) = sign64 zSign + round64 (abs64 a + abs64 b) 1"
      unfolding N using False assms(2,3) sr by (intro shift_round64 [OF assms(1) zero_less_one _ st]) (simp_all add: x nE)
    moreover have "exp64 a = extractFloat64Exp a" using False by (simp add: exp64_def)
    ultimately show ?thesis using False assms(2,3) by (simp add: addFloat64Sigs_def Let_def z finite64_def)
  qed
qed

lemma addFloat64Sigs_correct:
  assumes "nearest_even s" "finite64 a" "finite64 b"
  shows "bits_f64 (fst (addFloat64Sigs a b zSign s)) = sign64 zSign + round64 (abs64 a + abs64 b) 1"
  using addFloat64Sigs_bigger(1) [of s a b zSign] addFloat64Sigs_bigger(2) [of s b a zSign]
    addFloat64Sigs_same [of s a b zSign] assms
  by (cases "extractFloat64Exp a" "extractFloat64Exp b" rule: linorder_cases) (simp_all add: add.commute)

text \<open>\<open>shortShift64Left\<close> by ten makes room for the guard bits of a subtraction.\<close>

lemma val64_shl10:
  assumes "shortShift64Left (extractFloat64Frac0 a) (extractFloat64Frac1 a) 10 = (w0, w1)"
  shows "val64 (w0, w1) = frac64 a * 2 ^ 10" "uint w0 < 2 ^ 30"
proof -
  show v: "val64 (w0, w1) = frac64 a * 2 ^ 10"
    using val64_shortShift64Left [of 10 "extractFloat64Frac0 a" "extractFloat64Frac1 a"] frac64_range [of a]
    by (simp add: assms frac64_def [symmetric])
  show "uint w0 < 2 ^ 30" using val64_high_lt [of w0 w1 30] frac64_range [of a] by (simp add: v)
qed

lemma val64_sub64_exact:
  "val64 (b0, b1) \<le> val64 (a0, a1) \<Longrightarrow> val64 (sub64 a0 a1 b0 b1) = val64 (a0, a1) - val64 (b0, b1)"
  using val64_less [of "(a0, a1)"] val64_less [of "(b0, b1)"] by (simp add: val64_sub64 mod_pos_pos_trivial)

lemma sub_significands64:
  assumes "nearest_even s" "2 ^ 52 \<le> mA" "mA < 2 ^ 53" "0 \<le> mB" "mB < 2 ^ 53" "d = 0 \<Longrightarrow> mB < 2 ^ 52" "1 \<le> F" "int d + F \<le> 0x7FE"
    and S: "val64 (z0, z1) = mA * 2 ^ 10 - jam_div (mB * 2 ^ 10) (2 ^ d)"
  shows "bits_f64 (fst (normalizeRoundAndPackFloat64 zSign (int d + F - 1 - 10) z0 z1 s)) =
    sign64 zSign + round64 ((mA * 2 ^ d - mB) * 2 ^ nat (F - 1)) 1"
proof -
  let ?M = "mA * 2 ^ d - mB" and ?S = "val64 (z0, z1)" and ?e = "int d + F - 1 - 10"
  have "0 < ?S" "0 < ?M" and ap: "sticks 1 ?S (?M * 2 ^ 10) (2 ^ d) \<and> 2 ^ 61 \<le> ?S \<or> ?S * 2 ^ d = ?M * 2 ^ 10"
    using sub_significand_approx [of 52 mA mB d ?S 9] assms(2-6) S by simp_all
  have exps: "10 + nat ?e = nat (F - 1) + nat (- ?e) + d" using assms(7) by linarith
  then have sc: "?M * 2 ^ 10 * (1 * 2 ^ nat ?e) = ?M * 2 ^ nat (F - 1) * 2 ^ nat (- ?e) * 2 ^ d"
    by (simp only: mult.assoc mult_1 power_add [symmetric])
  have "sticks 1 ?S (?M * 2 ^ nat (F - 1) * 2 ^ nat (- ?e)) (1 * 2 ^ nat ?e) \<and> 2 ^ 60 \<le> ?S
      \<or> ?S * (1 * 2 ^ nat ?e) = ?M * 2 ^ nat (F - 1) * 2 ^ nat (- ?e)"
    using ap
  proof
    assume "sticks 1 ?S (?M * 2 ^ 10) (2 ^ d) \<and> 2 ^ 61 \<le> ?S"
    then show ?thesis using sticks_cross [of 1 ?S "?M * 2 ^ 10" "2 ^ d" "1 * 2 ^ nat ?e"] sc by simp
  next
    assume "?S * 2 ^ d = ?M * 2 ^ 10"
    then have "?S * 2 ^ nat ?e = ?M * 2 ^ (nat (F - 1) + nat (- ?e))" by (rule pow2_cross) (use exps in simp)
    then show ?thesis by (simp add: power_add mult.assoc)
  qed
  from normalizeRoundAndPackFloat64_round [OF assms(1) zero_less_one _ _ _ _ this, of zSign]
  show ?thesis using \<open>0 < ?S\<close> \<open>0 < ?M\<close> assms(7,8) by simp
qed

lemma subFloat64Sigs_bigger:
  assumes "nearest_even s" "finite64 a" "finite64 b" "extractFloat64Exp b < extractFloat64Exp a"
  shows "bits_f64 (fst (subFloat64Sigs a b zSign s)) = sign64 zSign + round64 (abs64 a - abs64 b) 1"
    "bits_f64 (fst (subFloat64Sigs b a zSign s)) = sign64 (\<not> zSign) + round64 (abs64 a - abs64 b) 1"
proof -
  define d where "d = nat (exp64 a - exp64 b)"
  have ea: "extractFloat64Exp a \<noteq> 0" "extractFloat64Exp a \<noteq> 0x7FF" "exp64 a = extractFloat64Exp a"
    using assms(2,4) float64_ranges(1) [of b] by (auto simp: finite64_def exp64_def)
  have le: "exp64 b \<le> exp64 a" using assms(4) ea(1,3) float64_ranges(1) [of a] by (auto simp: exp64_def)
  have d: "int d = exp64 a - exp64 b" using le by (simp add: d_def)
  have d0: "sig64 b < 2 ^ 52" if "d = 0"
    using that d assms(4) ea(3) sig64_ranges(7) [of b] by (auto simp: exp64_def split: if_splits)
  note sa = sig64_ranges [of a] and sb = sig64_ranges [of b]
  have E: "int d + exp64 b \<le> 0x7FE" using d sa(5) assms(2) by simp
  obtain a0 a1 where a: "shortShift64Left (extractFloat64Frac0 a) (extractFloat64Frac1 a) 10 = (a0, a1)" by fastforce
  obtain b0 b1 where b: "shortShift64Left (extractFloat64Frac0 b) (extractFloat64Frac1 b) 10 = (b0, b1)" by fastforce
  define c0 where "c0 = (if extractFloat64Exp b = 0 then b0 else b0 OR 0x40000000)"
  obtain h0 h1 where h: "shift64RightJamming c0 b1 (int d) = (h0, h1)" by fastforce
  obtain z0 z1 where z: "sub64 (a0 OR 0x40000000) a1 h0 h1 = (z0, z1)" by fastforce
  have va: "val64 (a0 OR 0x40000000, a1) = sig64 a * 2 ^ 10"
    using val64_shl10 [OF a] ea(1) by (simp add: val64_or_implicit sig64_def)
  have "val64 (c0, b1) = sig64 b * 2 ^ 10" using val64_shl10 [OF b] by (simp add: c0_def val64_or_implicit sig64_def)
  then have vh: "val64 (h0, h1) = jam_div (sig64 b * 2 ^ 10) (2 ^ d)"
    using val64_shift64RightJamming [of "int d" c0 b1] by (simp add: h jam_eq)
  have "jam_div (sig64 b * 2 ^ 10) (2 ^ d) < sig64 a * 2 ^ 10"
    using sub_significand_approx(1) [of 52 "sig64 a" "sig64 b" d _ 9, OF sa(6) [OF ea(1)] _ sb(1) _ d0 _ refl] sa(2) sb(2) by simp
  then have S: "val64 (z0, z1) = sig64 a * 2 ^ 10 - jam_div (sig64 b * 2 ^ 10) (2 ^ d)"
    using val64_sub64_exact [of h0 h1 "a0 OR 0x40000000" a1] by (simp add: z va vh)
  note core = sub_significands64 [OF assms(1) sa(6) [OF ea(1)] sa(2) sb(1,2) d0 sb(3) E S]
  have pair: "(if extractFloat64Exp b = 0 then (extractFloat64Exp a - extractFloat64Exp b - 1, b0)
      else (extractFloat64Exp a - extractFloat64Exp b, b0 OR 0x40000000)) = (int d, c0)"
    "(if extractFloat64Exp b = 0 then (extractFloat64Exp b - extractFloat64Exp a + 1, b0)
      else (extractFloat64Exp b - extractFloat64Exp a, b0 OR 0x40000000)) = (- int d, c0)"
    using d ea(3) by (simp_all add: c0_def exp64_def)
  have eq: "int d + exp64 b = extractFloat64Exp a" using d ea(3) by simp
  have "subFloat64Sigs a b zSign s = normalizeRoundAndPackFloat64 zSign (int d + exp64 b - 1 - 10) z0 z1 s"
    using assms(4) ea(2) unfolding eq by (simp add: subFloat64Sigs_def Let_def a b pair h z)
  then show "bits_f64 (fst (subFloat64Sigs a b zSign s)) = sign64 zSign + round64 (abs64 a - abs64 b) 1"
    using core abs64_scaled(2) [OF le] by (simp add: d_def)
  have "subFloat64Sigs b a zSign s = normalizeRoundAndPackFloat64 (\<not> zSign) (int d + exp64 b - 1 - 10) z0 z1 s"
    using assms(4) ea(2) unfolding eq by (simp add: subFloat64Sigs_def Let_def a b pair h z)
  then show "bits_f64 (fst (subFloat64Sigs b a zSign s)) = sign64 (\<not> zSign) + round64 (abs64 a - abs64 b) 1"
    using core abs64_scaled(2) [OF le] by (simp add: d_def)
qed

lemma round64_normalize:
  assumes "nearest_even s" "0 < M" "1 \<le> F" "F \<le> 0x7FE" "val64 (z0, z1) = M * 2 ^ 10"
  shows "bits_f64 (fst (normalizeRoundAndPackFloat64 zSign (F - 1 - 10) z0 z1 s)) = sign64 zSign + round64 (M * 2 ^ nat (F - 1)) 1"
proof -
  let ?e = "F - 1 - 10"
  have "10 + nat ?e = nat (F - 1) + nat (- ?e)" using assms(3) by linarith
  then have "val64 (z0, z1) * (1 * 2 ^ nat ?e) = M * 2 ^ nat (F - 1) * 2 ^ nat (- ?e)"
    by (simp only: assms(5) mult.assoc mult_1 power_add [symmetric])
  then show ?thesis
    using assms by (intro normalizeRoundAndPackFloat64_round [OF assms(1) zero_less_one]) simp_all
qed

lemma subFloat64Sigs_same:
  assumes "nearest_even s" "finite64 a" "extractFloat64Exp a = extractFloat64Exp b"
  shows "bits_f64 (fst (subFloat64Sigs a b zSign s)) =
    (if abs64 a = abs64 b then 0
     else sign64 (if abs64 b < abs64 a then zSign else \<not> zSign) + round64 \<bar>abs64 a - abs64 b\<bar> 1)"
proof -
  have E: "exp64 b = exp64 a" using assms(3) by (simp add: exp64_def)
  have diff: "sig64 a - sig64 b = frac64 a - frac64 b" using assms(3) by (simp add: sig64_def)
  have abs: "abs64 a - abs64 b = (sig64 a - sig64 b) * 2 ^ nat (exp64 a - 1)"
    "abs64 b < abs64 a \<longleftrightarrow> sig64 b < sig64 a" "abs64 a = abs64 b \<longleftrightarrow> sig64 a = sig64 b"
    by (simp_all add: abs64_sig E left_diff_distrib)
  obtain a0 a1 where a: "shortShift64Left (extractFloat64Frac0 a) (extractFloat64Frac1 a) 10 = (a0, a1)" by fastforce
  obtain b0 b1 where b: "shortShift64Left (extractFloat64Frac0 b) (extractFloat64Frac1 b) 10 = (b0, b1)" by fastforce
  note va = val64_shl10(1) [OF a] and vb = val64_shl10(1) [OF b]
  have core: "bits_f64 (fst (let (z0, z1) = sub64 x0 x1 y0 y1 in normalizeRoundAndPackFloat64 sg (exp64 x - 1 - 10) z0 z1 s)) =
      sign64 sg + round64 ((frac64 x - frac64 y) * 2 ^ nat (exp64 x - 1)) 1"
    if "frac64 y < frac64 x" "finite64 x" "val64 (x0, x1) = frac64 x * 2 ^ 10" "val64 (y0, y1) = frac64 y * 2 ^ 10" for sg x y x0 x1 y0 y1
  proof -
    obtain z0 z1 where z: "sub64 x0 x1 y0 y1 = (z0, z1)" by fastforce
    have "val64 (z0, z1) = (frac64 x - frac64 y) * 2 ^ 10"
      using val64_sub64_exact [of y0 y1 x0 x1] that by (simp add: z left_diff_distrib)
    then show ?thesis using round64_normalize [OF assms(1), of "frac64 x - frac64 y" "exp64 x" z0 z1 sg] that sig64_ranges(3,5) [of x] by (simp add: z)
  qed
  have fin: "extractFloat64Exp b \<noteq> 0x7FF" using assms(2,3) by (simp add: finite64_def)
  have lt: "a0 < b0 \<or> a0 = b0 \<and> a1 < b1 \<longleftrightarrow> frac64 a < frac64 b" "b0 < a0 \<or> b0 = a0 \<and> b1 < a1 \<longleftrightarrow> frac64 b < frac64 a"
    using val64_lt64 [of a0 a1 b0 b1] val64_lt64 [of b0 b1 a0 a1] by (simp_all add: va vb lt64_def)
  consider "frac64 a = frac64 b" | "frac64 b < frac64 a" | "frac64 a < frac64 b" by linarith
  then show ?thesis
  proof cases
    case 1
    then have "subFloat64Sigs a b zSign s = (packFloat64 (float_rounding_mode s = float_round_down) 0 0 0, s)"
      using assms(3) fin lt by (auto simp: subFloat64Sigs_def Let_def a b)
    then show ?thesis using 1 assms(1) diff packFloat64_finite [of 0 0 0] by (simp add: abs(3) sign64_def)
  next
    case 2
    then have "subFloat64Sigs a b zSign s = (let (z0, z1) = sub64 a0 a1 b0 b1 in normalizeRoundAndPackFloat64 zSign (exp64 a - 1 - 10) z0 z1 s)"
      using assms(3) fin lt by (auto simp: subFloat64Sigs_def Let_def a b exp64_def split: prod.splits)
    then show ?thesis using 2 core [of b a a0 a1 b0 b1 zSign] assms(2) va vb abs diff by (simp add: abs_if mult_less_0_iff)
  next
    case 3
    then have "subFloat64Sigs a b zSign s = (let (z0, z1) = sub64 b0 b1 a0 a1 in normalizeRoundAndPackFloat64 (\<not> zSign) (exp64 b - 1 - 10) z0 z1 s)"
      using assms(3) fin lt by (auto simp: subFloat64Sigs_def Let_def a b exp64_def split: prod.splits)
    moreover have "\<bar>abs64 a - abs64 b\<bar> = (frac64 b - frac64 a) * 2 ^ nat (exp64 b - 1)"
      using 3 by (simp add: abs(1) E abs_mult diff)
    ultimately show ?thesis using 3 core [of a b b0 b1 a0 a1 "\<not> zSign"] fin va vb abs(2,3) diff by (simp add: finite64_def)
  qed
qed

definition signed64 :: "bool \<Rightarrow> int \<Rightarrow> int \<Rightarrow> int" where
  "signed64 zeroSign V D = (if V = 0 then sign64 zeroSign else sign64 (V < 0) + round64 \<bar>V\<bar> D)"

lemma round64_0: "round64 0 1 = 0"
  using round_mag_self [of 0 52] by (simp add: round64_def float64_inf_def)

lemma signed64_pm: "0 \<le> A \<Longrightarrow> signed64 sg (if sg then - A else A) 1 = sign64 sg + round64 A 1"
  by (auto simp: signed64_def round64_0)

lemma subFloat64Sigs_correct:
  assumes "nearest_even s" "finite64 a" "finite64 b"
  shows "bits_f64 (fst (subFloat64Sigs a b zSign s)) =
    (if abs64 a = abs64 b then 0
     else sign64 (if abs64 b < abs64 a then zSign else \<not> zSign) + round64 \<bar>abs64 a - abs64 b\<bar> 1)"
proof -
  have mag: "abs64 x < abs64 y" if "extractFloat64Exp x < extractFloat64Exp y" for x y
  proof -
    have "extractFloat64Exp x * 2 ^ 52 + frac64 x < extractFloat64Exp y * 2 ^ 52"
      using that frac64_range [of x] by (intro carry_lt) simp_all
    then have "mag64 x < mag64 y" unfolding mag64_frac using frac64_range(1) [of y] by linarith
    then show ?thesis by (simp add: fval_less_iff float64_ranges)
  qed
  show ?thesis
  proof (cases "extractFloat64Exp a" "extractFloat64Exp b" rule: linorder_cases)
    case less
    then show ?thesis using subFloat64Sigs_bigger(2) [of s b a zSign] assms mag [OF less] by (simp add: abs_if)
  next
    case equal
    then show ?thesis by (rule subFloat64Sigs_same [OF assms(1,2)])
  next
    case greater
    then show ?thesis using subFloat64Sigs_bigger(1) [of s a b zSign] assms mag [OF greater] by (simp add: abs_if)
  qed
qed

lemma float64_add_bits:
  assumes "nearest_even s" "finite64 a" "finite64 b"
  shows "bits_f64 (fst (float64_add a b s)) = signed64 (extractFloat64Sign a \<and> extractFloat64Sign b) (val_f64 a + val_f64 b) 1"
proof (cases "extractFloat64Sign a = extractFloat64Sign b")
  case True
  then show ?thesis
    using addFloat64Sigs_correct [OF assms, of "extractFloat64Sign a"] abs64_nonneg [of a] abs64_nonneg [of b]
      signed64_pm [of "abs64 a + abs64 b" "extractFloat64Sign a"]
    by (simp add: float64_add_def val_f64_def split: if_splits)
next
  case False
  then show ?thesis
    using subFloat64Sigs_correct [OF assms, of "extractFloat64Sign a"]
    by (auto simp: float64_add_def val_f64_def signed64_def sign64_def abs_minus_commute)
qed

lemma float64_sub_bits:
  assumes "nearest_even s" "finite64 a" "finite64 b"
  shows "bits_f64 (fst (float64_sub a b s)) = signed64 (extractFloat64Sign a \<and> \<not> extractFloat64Sign b) (val_f64 a - val_f64 b) 1"
proof (cases "extractFloat64Sign a = extractFloat64Sign b")
  case True
  then show ?thesis
    using subFloat64Sigs_correct [OF assms, of "extractFloat64Sign a"]
    by (auto simp: float64_sub_def val_f64_def signed64_def sign64_def abs_minus_commute)
next
  case False
  then show ?thesis
    using addFloat64Sigs_correct [OF assms, of "extractFloat64Sign a"] abs64_nonneg [of a] abs64_nonneg [of b]
      signed64_pm [of "abs64 a + abs64 b" "extractFloat64Sign a"]
    by (simp add: float64_sub_def val_f64_def split: if_splits)
qed

end
