(* ===== verification/Float64_Muldiv.thy ===== *)
theory Float64_Muldiv
  imports Float64_Arith
begin

text \<open>
  The bit patterns \<open>float64_mul\<close> and \<open>float64_div\<close> return: the 128-bit product, and the quotient computed
  in two digits of 32 bits.
\<close>

section \<open>Multiplication\<close>

definition unpack64 :: "float64 \<Rightarrow> int \<times> bits32 \<times> bits32" where
  "unpack64 a = (if extractFloat64Exp a = 0 then normalizeFloat64Subnormal (extractFloat64Frac0 a) (extractFloat64Frac1 a)
     else (extractFloat64Exp a, extractFloat64Frac0 a, extractFloat64Frac1 a))"

lemma or_implicit64_set:
  assumes "2 ^ 52 \<le> val64 (S0, S1)" "val64 (S0, S1) < 2 ^ 53"
  shows "S0 OR 0x00100000 = S0"
proof -
  have "uint S0 < 2 ^ 21" using assms(2) val64_high_lt [of S0 S1 21] by simp
  moreover have "2 ^ 20 \<le> uint S0" using assms(1) val64_high_lt [of S0 S1 20] by simp
  ultimately have "uint S0 div 2 ^ 20 = 1" using div_mod_split(1) [of "uint S0" 1 "2 ^ 20" "uint S0 - 2 ^ 20"] by simp
  then have "bit (uint S0) 20" by (simp add: bit_iff_odd)
  then have "bit S0 20" by (simp only: bit_uint_iff)
  then show ?thesis using or_bit_set [of S0 20] by simp
qed

lemma abs64_0_iff: "abs64 a = 0 \<longleftrightarrow> extractFloat64Exp a = 0 \<and> extractFloat64Frac0 a = 0 \<and> extractFloat64Frac1 a = 0"
  using frac64_range(1) [of a] val64_eq_0 [of "extractFloat64Frac0 a" "extractFloat64Frac1 a"]
  by (auto simp: abs64_sig sig64_def frac64_def add_nonneg_eq_0_iff)

text \<open>The normalised significand of a subnormal number.\<close>

lemma normalizeFloat64Subnormal_value:
  fixes f0 f1 :: bits32
  defines "f \<equiv> val64 (f0, f1)"
  assumes "f \<noteq> 0" "f < 2 ^ 52" "normalizeFloat64Subnormal f0 f1 = (E, S0, S1)"
  shows "- 51 \<le> E \<and> E \<le> 0 \<and> val64 (S0, S1) = f * 2 ^ nat (1 - E) \<and> 2 ^ 52 \<le> val64 (S0, S1) \<and> val64 (S0, S1) < 2 ^ 53"
proof (cases "f0 = 0")
  case False
  define c where "c = countLeadingZeros32 f0 - 11"
  note z = val64_clz(1,2) [OF False, of f1]
  have "uint f0 < 2 ^ 20" using assms(3) val64_high_lt [of f0 f1 20] by (simp add: f_def)
  from clz32_word [OF False this] have cl: "12 \<le> countLeadingZeros32 f0" "countLeadingZeros32 f0 < 32" by simp_all
  have E: "E = 1 - c" "shortShift64Left f0 f1 c = (S0, S1)" using assms(4) False by (simp_all add: normalizeFloat64Subnormal_def c_def Let_def)
  have n: "nat (countLeadingZeros32 f0) = nat c + 11" using cl by (simp add: c_def)
  have b: "2 ^ 52 \<le> f * 2 ^ nat c" "f * 2 ^ nat c < 2 ^ 53" using z by (simp_all add: n f_def power_add)
  then have "val64 (S0, S1) = f * 2 ^ nat c"
    using val64_shortShift64Left [of c f0 f1, unfolded E(2)] cl val64_nonneg [of f0 f1] by (simp add: c_def f_def)
  then show ?thesis using b cl by (simp add: E c_def)
next
  case True
  define c where "c = countLeadingZeros32 f1 - 11"
  have f: "f = uint f1" using True by (simp add: f_def)
  have f1: "f1 \<noteq> 0" using assms(2) f by auto
  have cl: "0 \<le> countLeadingZeros32 f1" "countLeadingZeros32 f1 < 32" "2 ^ 31 \<le> uint f1 * 2 ^ nat (countLeadingZeros32 f1)"
    "uint f1 * 2 ^ nat (countLeadingZeros32 f1) < 2 ^ 32" using clz32_bounds [of f1] f1 by simp_all
  have E: "E = - c - 31" "(S0, S1) = (if c < 0 then (c_shr f1 (- c), c_shl f1 (c AND 31)) else (c_shl f1 c, 0))"
    using assms(4) True by (simp_all add: normalizeFloat64Subnormal_def c_def Let_def split: if_splits)
  have val: "val64 (S0, S1) = uint f1 * 2 ^ nat (c + 32)"
  proof (cases "c < 0")
    case True
    define k where "k = nat (- c)"
    have k: "0 < k" "k < 32" "c = - int k" using True cl by (simp_all add: k_def c_def)
    have "(2::int) ^ 32 = 2 ^ k * 2 ^ (32 - k)" using k by (simp flip: power_add)
    moreover have "uint f1 = uint f1 div 2 ^ k * 2 ^ k + uint f1 mod 2 ^ k" by (rule div_mult_mod_eq [symmetric])
    ultimately have "uint f1 div 2 ^ k * 2 ^ 32 + uint f1 mod 2 ^ k * 2 ^ (32 - k) = uint f1 * 2 ^ (32 - k)"
      by (metis distrib_right mult.assoc)
    then show ?thesis using E(2) k True by (simp add: val64_def shl_low_part uint_c_shr nat_diff_distrib)
  next
    case False
    then have "uint (c_shl f1 c) = uint f1 * 2 ^ nat c" using f1 by (intro uint_c_shl_clz) (simp_all add: c_def)
    then show ?thesis using E(2) False by (simp add: val64_def nat_add_distrib power_add)
  qed
  have "nat (c + 32) = nat (countLeadingZeros32 f1) + 21" using cl by (simp add: c_def)
  then show ?thesis using val cl by (simp add: E(1) f power_add c_def)
qed

lemma unpack64_value:
  assumes "finite64 a" "abs64 a \<noteq> 0" "unpack64 a = (E, S0, S1)"
  shows "2 ^ 52 \<le> val64 (S0 OR 0x00100000, S1)" "val64 (S0 OR 0x00100000, S1) < 2 ^ 53" "- 51 \<le> E" "E \<le> 0x7FE"
    "abs64 a * 2 ^ nat (1 - E) = val64 (S0 OR 0x00100000, S1) * 2 ^ nat (E - 1)"
    "val64 (S0, S1) mod 2 ^ 52 = val64 (S0 OR 0x00100000, S1) - 2 ^ 52"
proof -
  let ?m = "val64 (S0 OR 0x00100000, S1)"
  have "2 ^ 52 \<le> ?m \<and> ?m < 2 ^ 53 \<and> - 51 \<le> E \<and> E \<le> 0x7FE \<and> abs64 a * 2 ^ nat (1 - E) = ?m * 2 ^ nat (E - 1) \<and>
    val64 (S0, S1) mod 2 ^ 52 = ?m - 2 ^ 52"
  proof (cases "extractFloat64Exp a = 0")
    case False
    have E: "E = extractFloat64Exp a" "S0 = extractFloat64Frac0 a" "S1 = extractFloat64Frac1 a" using assms(3) False by (simp_all add: unpack64_def)
    have "?m = sig64 a" using False float64_ranges(3) [of a] by (simp add: E val64_or_implicit sig64_def frac64_def)
    moreover have "exp64 a = E" using False E by (simp add: exp64_def)
    moreover have "val64 (S0, S1) mod 2 ^ 52 = sig64 a - 2 ^ 52"
      using False frac64_range [of a] by (simp add: E sig64_def frac64_def [symmetric])
    ultimately show ?thesis using sig64_ranges [of a] False assms(1) abs64_sig [of a] by simp
  next
    case True
    have abs: "abs64 a = frac64 a" using True by (simp add: abs64_sig sig64_def exp64_def)
    have "normalizeFloat64Subnormal (extractFloat64Frac0 a) (extractFloat64Frac1 a) = (E, S0, S1)" using assms(3) True by (simp add: unpack64_def)
    from normalizeFloat64Subnormal_value [OF _ _ this, folded frac64_def]
    have v: "- 51 \<le> E" "E \<le> 0" "val64 (S0, S1) = frac64 a * 2 ^ nat (1 - E)" "2 ^ 52 \<le> val64 (S0, S1)" "val64 (S0, S1) < 2 ^ 53"
      using assms(2) abs frac64_range(2) [of a] by simp_all
    have "val64 (S0, S1) mod 2 ^ 52 = val64 (S0, S1) - 2 ^ 52"
      by (rule div_mod_split(2) [of _ 1]) (use v(4,5) in simp_all)
    then show ?thesis using v abs by (simp add: or_implicit64_set [OF v(4,5)])
  qed
  then show "2 ^ 52 \<le> ?m" "?m < 2 ^ 53" "- 51 \<le> E" "E \<le> 0x7FE" "abs64 a * 2 ^ nat (1 - E) = ?m * 2 ^ nat (E - 1)"
    "val64 (S0, S1) mod 2 ^ 52 = ?m - 2 ^ 52" by blast+
qed

text \<open>The leading bit of the multiplier is shifted out; the multiplicand is added in its place.\<close>

lemma product64:
  assumes "shortShift64Left b0 b1 12 = (c0, c1)" "mul64To128 a0 a1 c0 c1 = (p0, p1, p2, p3)" "add64 p0 p1 a0 a1 = (z0, z1)"
    "val64 (b0, b1) mod 2 ^ 52 = mb - 2 ^ 52" "val64 (a0, a1) < 2 ^ 53" "mb < 2 ^ 53"
  shows "sticks 1 (val96 (z0, z1, p2 OR bit_of (p3 \<noteq> 0))) (val64 (a0, a1) * mb * 2 ^ 12) (2 ^ 32)"
proof -
  let ?ma = "val64 (a0, a1)"
  have "val64 (c0, c1) = val64 (b0, b1) * 2 ^ 12 mod (2 ^ 52 * 2 ^ 12)"
    using val64_shortShift64Left [of 12 b0 b1] assms(1) by simp
  also have "\<dots> = (mb - 2 ^ 52) * 2 ^ 12" unfolding assms(4) [symmetric] by (rule mult_mod_left [symmetric])
  finally have c: "val64 (c0, c1) = (mb - 2 ^ 52) * 2 ^ 12" .
  have "?ma * val64 (c0, c1) = val128 (p0, p1, p2, p3)" using val128_mul64To128 [of a0 a1 c0 c1] assms(2) by simp
  then have p: "?ma * val64 (c0, c1) = val64 (p0, p1) * 2 ^ 64 + val64 (p2, p3)" by (simp add: val128_def val64_def)
  have "?ma * val64 (c0, c1) \<le> 2 ^ 53 * 2 ^ 64"
    using assms(5) val64_nonneg [of a0 a1] val64_less [of "(c0, c1)"] by (intro mult_mono) simp_all
  then have "val64 (p0, p1) * 2 ^ 64 + val64 (p2, p3) < (2 ^ 53 + 1) * 2 ^ 64" using p by simp
  then have "val64 (p0, p1) < 2 ^ 53 + 1" by (rule high_part_lt) (simp_all add: val64_nonneg)
  then have z: "val64 (z0, z1) = val64 (p0, p1) + ?ma" using val64_add64_exact [of p0 p1 a0 a1] assms(3,5) by simp
  have "?ma * mb * 2 ^ 12 = ?ma * val64 (c0, c1) + ?ma * 2 ^ 64" unfolding c by (simp add: algebra_simps)
  also have "\<dots> = val64 (z0, z1) * 2 ^ 32 * 2 ^ 32 + val64 (p2, p3)" unfolding p z by (simp add: algebra_simps)
  finally have eq: "?ma * mb * 2 ^ 12 = val64 (z0, z1) * 2 ^ 32 * 2 ^ 32 + val64 (p2, p3)" .
  have "sticks 1 (jam_div (val64 (p2, p3)) (2 ^ 32)) (val64 (p2, p3)) (2 ^ 32)" by (rule sticks_jam) simp_all
  from sticks_add [OF this, of "val64 (z0, z1) * 2 ^ 32"] show ?thesis
    unfolding eq by (simp add: val96_split uint_jam_low)
qed

lemma float64_mul_zero:
  assumes "finite64 a" "finite64 b" "abs64 a = 0 \<or> abs64 b = 0"
  shows "float64_mul a b s = (packFloat64 (extractFloat64Sign a \<noteq> extractFloat64Sign b) 0 0 0, s)"
proof -
  define z where "z c \<longleftrightarrow> extractFloat64Exp c = 0 \<and> extractFloat64Frac0 c OR extractFloat64Frac1 c = 0" for c
  have fin: "(extractFloat64Exp a = 0x7FF) = False" "(extractFloat64Exp b = 0x7FF) = False" using assms(1,2) by (simp_all add: finite64_def)
  obtain E S0 S1 where u: "unpack64 a = (E, S0, S1)" by (metis prod_cases3)
  have "z a \<or> z b" using assms(3) by (simp add: z_def abs64_0_iff or_word_eq_0)
  then show ?thesis
    by (cases "z a") (simp_all only: float64_mul_def Let_def fin z_def [symmetric] unpack64_def [symmetric] u prod.case if_True if_False simp_thms)
qed

lemma float64_mul_bits:
  assumes "nearest_even s" "finite64 a" "finite64 b"
  shows "bits_f64 (fst (float64_mul a b s)) =
    sign64 (extractFloat64Sign a \<noteq> extractFloat64Sign b) + round64 (abs64 a * abs64 b) (2 ^ 1074)"
proof (cases "abs64 a = 0 \<or> abs64 b = 0")
  case True
  have "round_mag 52 0 (2 ^ 1074) = 0" using round_mag_exp [of "2 ^ 1074" 0 52 0] by (simp add: rne_div_def)
  then have "round64 (abs64 a * abs64 b) (2 ^ 1074) = 0" using True by (auto simp: round64_def float64_inf_def)
  moreover have "bits_f64 (packFloat64 sg 0 0 0) = sign64 sg" for sg
    by (subst packFloat64_finite) simp_all
  moreover have "fst (float64_mul a b s) = packFloat64 (extractFloat64Sign a \<noteq> extractFloat64Sign b) 0 0 0"
    using float64_mul_zero [OF assms(2,3) True] by simp
  ultimately show ?thesis by simp
next
  case False
  define sg where "sg = (extractFloat64Sign a \<noteq> extractFloat64Sign b)"
  obtain Ea a0 a1 where ua: "unpack64 a = (Ea, a0, a1)" by (metis prod_cases3)
  obtain Eb b0 b1 where ub: "unpack64 b = (Eb, b0, b1)" by (metis prod_cases3)
  define ma mb where "ma = val64 (a0 OR 0x00100000, a1)" and "mb = val64 (b0 OR 0x00100000, b1)"
  have va: "2 ^ 52 \<le> ma" "ma < 2 ^ 53" "- 51 \<le> Ea" "Ea \<le> 0x7FE" "abs64 a * 2 ^ nat (1 - Ea) = ma * 2 ^ nat (Ea - 1)"
    using unpack64_value [OF assms(2) _ ua] False by (simp_all add: ma_def)
  have vb: "2 ^ 52 \<le> mb" "mb < 2 ^ 53" "- 51 \<le> Eb" "Eb \<le> 0x7FE" "abs64 b * 2 ^ nat (1 - Eb) = mb * 2 ^ nat (Eb - 1)" "val64 (b0, b1) mod 2 ^ 52 = mb - 2 ^ 52"
    using unpack64_value [OF assms(3) _ ub] False by (simp_all add: mb_def)
  obtain c0 c1 where c: "shortShift64Left b0 b1 12 = (c0, c1)" by fastforce
  obtain p0 p1 p2 p3 where p: "mul64To128 (a0 OR 0x00100000) a1 c0 c1 = (p0, p1, p2, p3)" by (metis prod_cases4)
  obtain z0 z1 where z: "add64 p0 p1 (a0 OR 0x00100000) a1 = (z0, z1)" by fastforce
  define z2 where "z2 = p2 OR bit_of (p3 \<noteq> 0)"
  have st: "sticks 31 (val96 (z0, z1, z2)) (ma * mb * 2 ^ 12) (2 ^ 32)"
    unfolding z2_def ma_def by (rule sticks_mono [OF product64 [OF c p z vb(6) _ vb(2)]]) (use va(2) in \<open>simp_all add: ma_def\<close>)
  have "2 ^ 52 * 2 ^ 52 \<le> ma * mb" using va vb by (intro mult_mono) simp_all
  moreover have "ma * mb < 2 ^ (53 + 53)" using va vb by (intro mult_less_pow) simp_all
  ultimately have x: "2 ^ 84 \<le> val96 (z0, z1, z2)" "val96 (z0, z1, z2) < 2 ^ 86"
    using sticks_le_iff [OF st, of 84] sticks_le_iff [OF st, of 86] by simp_all
  have fin: "(extractFloat64Exp a = 0x7FF) = False" "(extractFloat64Exp b = 0x7FF) = False" using assms(2,3) by (simp_all add: finite64_def)
  have nz: "(extractFloat64Exp a = 0 \<and> extractFloat64Frac0 a OR extractFloat64Frac1 a = 0) = False"
    "(extractFloat64Exp b = 0 \<and> extractFloat64Frac0 b OR extractFloat64Frac1 b = 0) = False" using False by (auto simp: abs64_0_iff or_word_eq_0)
  have "float64_mul a b s = (if 0x00200000 \<le> z0
      then let (y0, y1, y2) = shift64ExtraRightJamming z0 z1 z2 1 in roundAndPackFloat64 sg (Ea + Eb - 0x400 + 1) y0 y1 y2 s
      else roundAndPackFloat64 sg (Ea + Eb - 0x400) z0 z1 z2 s)"
    unfolding float64_mul_def Let_def
    by (simp only: fin nz if_False unpack64_def [symmetric] ua ub c p z prod.case sg_def z2_def)
  then have fm: "float64_mul a b s = (if z0 < 0x00200000 then roundAndPackFloat64 sg (Ea + Eb - 0x400) z0 z1 z2 s
      else let (y0, y1, y2) = shift64ExtraRightJamming z0 z1 z2 1 in roundAndPackFloat64 sg (Ea + Eb - 0x400 + 1) y0 y1 y2 s)"
    by (cases "z0 < 0x00200000") (simp_all only: not_less [symmetric] not_True_eq_False not_False_eq_True if_True if_False)
  let ?e = "Ea + Eb - 0x400"
  have "abs64 a * abs64 b * 2 ^ (32 + nat (- ?e) + 32) = ma * mb * 2 ^ (12 + 1074 + nat ?e)"
    by (rule scaled_product [OF va(5) vb(5)]) simp
  then have "ma * mb * 2 ^ 12 * (2 ^ 1074 * 2 ^ nat ?e) = abs64 a * abs64 b * 2 ^ (32 + nat (- ?e)) * 2 ^ 32"
    by (simp only: power_add mult.assoc)
  from round_or_shift64 [OF assms(1) _ _ st _ this x, of sg] show ?thesis
    using va(3,4) vb(3,4) abs64_nonneg [of a] abs64_nonneg [of b] unfolding fm sg_def by simp
qed

section \<open>Division\<close>

text \<open>One 32-bit digit of the quotient of two 64-bit numbers, estimated from the upper half of the divisor.\<close>

lemma div64_digit_estimate:
  fixes a0 a1 b0 b1 :: bits32
  defines "A \<equiv> val64 (a0, a1)" and "B \<equiv> val64 (b0, b1)"
  assumes "2 ^ 63 \<le> B" "A < B"
  shows "\<exists>e. estimateDiv64To32 a0 a1 b0 = Some e \<and> A * 2 ^ 32 div B \<le> uint e \<and> uint e \<le> A * 2 ^ 32 div B + 4"
proof -
  define q where "q = A * 2 ^ 32 div B"
  have B0: "0 < B" and A0: "0 \<le> A" using assms(3) val64_nonneg [of a0 a1] by (simp_all add: A_def)
  have Bs: "B = uint b0 * 2 ^ 32 + uint b1" "0 \<le> uint b1" "uint b1 < 2 ^ 32" using uint_lt2p [of b1] by (simp_all add: B_def val64_def)
  have b0: "2 ^ 31 \<le> uint b0" using assms(3) val64_high_lt [of b0 b1 31] by (simp add: B_def)
  have qB: "q * B \<le> A * 2 ^ 32" using le_div_iff_mult_le [OF B0, of q "A * 2 ^ 32"] by (simp add: q_def)
  have q0: "0 \<le> q" using A0 B0 by (simp add: q_def pos_imp_zdiv_nonneg_iff)
  show ?thesis
  proof (cases "b0 \<le> a0")
    case True
    have "uint b0 * 2 ^ 32 \<le> A" using True by (simp add: A_def val64_def word_le_def add_increasing2)
    then have "(2 ^ 32 - 5) * B \<le> A * 2 ^ 32" using Bs b0 by simp
    then have "2 ^ 32 - 5 \<le> q" using le_div_iff_mult_le [OF B0, of "2 ^ 32 - 5" "A * 2 ^ 32"] by (simp add: q_def)
    moreover have "\<not> 2 ^ 32 \<le> q" using le_div_iff_mult_le [OF B0, of "2 ^ 32" "A * 2 ^ 32"] assms(4) by (simp add: q_def)
    ultimately show ?thesis using True by (simp add: estimateDiv64To32_def q_def)
  next
    case False
    then obtain e where e: "estimateDiv64To32 a0 a1 b0 = Some e" "A div uint b0 \<le> uint e" "uint e \<le> A div uint b0 + 2"
      using estimateDiv64To32_bounds [OF b0, of a0 a1] by (auto simp: A_def not_le)
    define t where "t = A div uint b0"
    have ub: "0 < uint b0" using b0 by simp
    have tb: "t * uint b0 \<le> A" using le_div_iff_mult_le [OF ub, of t A] by (simp add: t_def)
    have "A < 2 ^ 32 * uint b0"
      using False two_digit_iff [of "uint a1" "2 ^ 32" 0 "uint a0" "uint b0"] uint_lt2p [of a1] by (simp add: A_def val64_def word_le_def)
    then have t32: "t < 2 ^ 32" "0 \<le> t" using le_div_iff_mult_le [OF ub, of "2 ^ 32" A] A0 ub by (simp_all add: t_def pos_imp_zdiv_nonneg_iff not_le [symmetric])
    have "t * uint b1 \<le> 2 ^ 32 * 2 ^ 32" using t32 Bs(2,3) by (intro mult_mono) simp_all
    then have "(t - 2) * B \<le> A * 2 ^ 32"
    proof -
      assume a: "t * uint b1 \<le> 2 ^ 32 * 2 ^ 32"
      have "(t - 2) * B = t * uint b0 * 2 ^ 32 + t * uint b1 - 2 * B" unfolding Bs(1) by (simp add: algebra_simps)
      also have "\<dots> \<le> A * 2 ^ 32 + 2 ^ 32 * 2 ^ 32 - 2 * B" using tb a by simp
      finally show ?thesis using assms(3) by simp
    qed
    then have hi: "t - 2 \<le> q" using le_div_iff_mult_le [OF B0, of "t - 2" "A * 2 ^ 32"] by (simp add: q_def)
    have "q * uint b0 * 2 ^ 32 \<le> q * B" unfolding Bs(1) using q0 Bs(2) by (simp add: algebra_simps)
    then have "q * uint b0 * 2 ^ 32 \<le> A * 2 ^ 32" using qB by linarith
    then have "q \<le> t" using le_div_iff_mult_le [OF ub, of q A] by (simp add: t_def)
    then show ?thesis using e hi by (intro exI [of _ e]) (simp add: q_def t_def)
  qed
qed

lemma signed_rem96_neg:
  assumes "val96 (r0, r1, r2) = V mod 2 ^ 96" "- (2 ^ 70) \<le> V" "V < 2 ^ 70"
  shows "sint r0 < 0 \<longleftrightarrow> V < 0"
proof -
  have "uint r0 * 2 ^ 64 + val64 (r1, r2) < 2 ^ 31 * 2 ^ 64 \<longleftrightarrow> uint r0 < 2 ^ 31"
    using two_digit_iff [of "val64 (r1, r2)" "2 ^ 64" 0 "uint r0" "2 ^ 31"] val64_less [of "(r1, r2)"] by simp
  then have "sint r0 < 0 \<longleftrightarrow> \<not> val96 (r0, r1, r2) < 2 ^ 95" unfolding val96_split_high using sint_neg_iff [of r0] by (simp add: not_less)
  then show ?thesis unfolding assms(1) using int_mod_if_neg [of "2 ^ 96" V] assms(2,3) by auto
qed

lemma float64_div_loop_returns:
  assumes "val96 (r0, r1, r2) = V mod 2 ^ 96" "- (2 ^ 70) \<le> V" "V < val64 (b0, b1)" "0 < val64 (b0, b1)"
  shows "\<exists>s0 s1 s2. float64_div_loop b0 b1 z r0 r1 r2 = Some (z + word_of_int (V div val64 (b0, b1)), s0, s1, s2) \<and>
    val96 (s0, s1, s2) = V mod val64 (b0, b1)"
  using assms
proof (induction "nat (- (V div val64 (b0, b1)))" arbitrary: V z r0 r1 r2 rule: less_induct)
  case less
  let ?B = "val64 (b0, b1)"
  have B: "0 < ?B" "?B < 2 ^ 64" using less.prems(4) val64_less by simp_all
  have neg: "sint r0 < 0 \<longleftrightarrow> V < 0"
    using less.prems(2,3) B by (intro signed_rem96_neg [OF less.prems(1)]) simp_all
  show ?case
  proof (cases "V < 0")
    case False
    then have "V div ?B = 0" "V mod ?B = V" "V mod 2 ^ 96 = V" using less.prems B by simp_all
    then show ?thesis using neg False less.prems(1) by (subst float64_div_loop.simps) simp
  next
    case True
    note step = neg_div_step [OF B(1) True]
    obtain s0 s1 s2 where s: "add96 r0 r1 r2 0 b0 b1 = (s0, s1, s2)" by (metis prod_cases3)
    have "val96 (s0, s1, s2) = (V + ?B) mod 2 ^ 96"
      using val96_add96 [of r0 r1 r2 0 b0 b1] less.prems(1) by (simp add: s mod_simps val96_split_high [of 0])
    moreover have "- (2 ^ 70) \<le> V + ?B" "V + ?B < ?B" using less.prems True B by simp_all
    ultimately obtain u0 u1 u2 where
      "float64_div_loop b0 b1 (z - 1) s0 s1 s2 = Some (z - 1 + word_of_int ((V + ?B) div ?B), u0, u1, u2)"
      "val96 (u0, u1, u2) = (V + ?B) mod ?B"
      using less.hyps [OF step(3) _ _ _ less.prems(4), of s0 s1 s2 "z - 1"] by blast
    then show ?thesis using neg True by (subst float64_div_loop.simps) (simp add: s step)
  qed
qed

lemma div64_digit_exact:
  fixes a0 a1 b0 b1 e :: bits32
  defines "A \<equiv> val64 (a0, a1)" and "B \<equiv> val64 (b0, b1)"
  assumes "2 ^ 63 \<le> B" "A < B" "A * 2 ^ 32 div B \<le> uint e" "uint e \<le> A * 2 ^ 32 div B + 4"
  shows "\<exists>t0 t1 t2 r0 r1 r2 z s1 s2. mul64By32To96 b0 b1 e = (t0, t1, t2) \<and> sub96 a0 a1 0 t0 t1 t2 = (r0, r1, r2) \<and>
    float64_div_loop b0 b1 e r0 r1 r2 = Some (z, 0, s1, s2) \<and> uint z = A * 2 ^ 32 div B \<and> val64 (s1, s2) = A * 2 ^ 32 mod B"
proof -
  define N q where "N = A * 2 ^ 32" and "q = N div B"
  have B0: "0 < B" and A0: "0 \<le> A" and B64: "B < 2 ^ 64" using assms(3) val64_nonneg [of a0 a1] val64_less [of "(b0, b1)"] by (simp_all add: A_def B_def)
  obtain t0 t1 t2 where t: "mul64By32To96 b0 b1 e = (t0, t1, t2)" by (metis prod_cases3)
  obtain r0 r1 r2 where r: "sub96 a0 a1 0 t0 t1 t2 = (r0, r1, r2)" by (metis prod_cases3)
  define V where "V = N - B * uint e"
  have v: "val96 (r0, r1, r2) = V mod 2 ^ 96"
    using val96_sub96 [of a0 a1 0 t0 t1 t2] val96_mul64By32To96 [of b0 b1 e] by (simp add: r t V_def N_def A_def B_def val96_split [of a0 a1 0])
  have Vd: "V div B = q - uint e" "V mod B = N mod B"
    using div_mult_self1 [of B N "- uint e"] mod_mult_self1 [of N "- uint e" B] B0 by (simp_all add: V_def q_def mult.commute)
  have NB: "N = q * B + N mod B" by (simp add: q_def)
  have m: "0 \<le> N mod B" "N mod B < B" using B0 by simp_all
  have "q * B \<le> uint e * B" "uint e * B \<le> (q + 4) * B" using assms(5,6) B0 by (auto intro: mult_right_mono simp: q_def N_def)
  then have Vb: "V < B" "- (4 * B) \<le> V" using NB m unfolding V_def distrib_right mult.commute [of B] by linarith+
  then have V70: "- (2 ^ 70) \<le> V" using B64 by simp
  from float64_div_loop_returns [OF v V70, of b0 b1 e] obtain s0 s1 s2 where
    s: "float64_div_loop b0 b1 e r0 r1 r2 = Some (e + word_of_int (q - uint e), s0, s1, s2)" "val96 (s0, s1, s2) = N mod B"
    using Vb(1) B0 Vd unfolding B_def by auto
  define z where "z = e + word_of_int (q - uint e)"
  have q0: "0 \<le> q" unfolding q_def using A0 B0 by (simp add: N_def pos_imp_zdiv_nonneg_iff)
  have "uint z = q mod 2 ^ 32" unfolding z_def uint_word_ariths uint_word_of_int by (simp add: mod_simps)
  then have z: "uint z = q" using q0 assms(5) uint_lt2p [of e] by (simp add: q_def N_def)
  have "uint s0 * 2 ^ 64 + val64 (s1, s2) < 1 * 2 ^ 64" using m B64 s(2) by (simp add: val96_split_high)
  then have "uint s0 < 1" by (rule high_part_lt) (simp_all add: val64_nonneg)
  then have "s0 = 0" using uint_pos [of s0] by linarith
  then have "val64 (s1, s2) = N mod B" using s(2) by (simp add: val96_split_high)
  then show ?thesis using t r s(1) [folded z_def] \<open>s0 = 0\<close> z unfolding N_def q_def by blast
qed

text \<open>The lower digit: the estimate is corrected only when its last bits could be wrong.\<close>

lemma div64_low_digit:
  fixes a0 a1 b0 b1 :: bits32
  defines "A \<equiv> val64 (a0, a1)" and "B \<equiv> val64 (b0, b1)"
  assumes "2 ^ 63 \<le> B" "A < B"
  shows "\<exists>z. (do {
      zSig1 \<leftarrow> estimateDiv64To32 a0 a1 b0;
      if zSig1 AND 0x3FF \<le> 4
      then let (term1, term2, term3) = mul64By32To96 b0 b1 zSig1; (rem1, rem2, rem3) = sub96 a0 a1 0 term1 term2 term3
           in do { (zSig1, rem1, rem2, rem3) \<leftarrow> float64_div_loop b0 b1 zSig1 rem1 rem2 rem3;
                   Some (zSig1 OR bit_of (rem1 OR rem2 OR rem3 \<noteq> 0)) }
      else Some zSig1 }) = Some z \<and> sticks 10 (uint z) (A * 2 ^ 32) B"
proof -
  define N where "N = A * 2 ^ 32"
  have B0: "0 < B" using assms(3) by simp
  obtain e where e: "estimateDiv64To32 a0 a1 b0 = Some e" "N div B \<le> uint e" "uint e \<le> N div B + 4"
    using div64_digit_estimate assms(3,4) unfolding A_def B_def N_def by blast
  have low: "uint (e AND 0x3FF) = uint e mod 2 ^ 10" using uint_and_mask [of e 10] by (simp add: mask_eq_exp_minus_1)
  show ?thesis
  proof (cases "e AND 0x3FF \<le> 4")
    case False
    then have "4 < uint e mod 2 ^ 10" using low by (simp add: word_le_def)
    then have "sticks 10 (uint e) N B" using e B0 by (intro sticks_estimate [where k = 4]) simp_all
    then show ?thesis using e(1) False by (auto simp: N_def)
  next
    case True
    obtain t0 t1 t2 r0 r1 r2 z s1 s2 where d: "mul64By32To96 b0 b1 e = (t0, t1, t2)" "sub96 a0 a1 0 t0 t1 t2 = (r0, r1, r2)"
      "float64_div_loop b0 b1 e r0 r1 r2 = Some (z, 0, s1, s2)" "uint z = N div B" "val64 (s1, s2) = N mod B"
      using div64_digit_exact [OF assms(3,4) [unfolded A_def B_def] e(2,3) [unfolded A_def B_def N_def]] unfolding A_def B_def N_def by blast
    have "0 OR s1 OR s2 \<noteq> 0 \<longleftrightarrow> N mod B \<noteq> 0" using d(5) val64_eq_0 [of s1 s2] by (simp add: or_word_eq_0)
    then have "uint (z OR bit_of (0 OR s1 OR s2 \<noteq> 0)) = jam_div N B" unfolding uint_or_bit_of d(4) jam_div_def Let_def by auto
    then have "sticks 10 (uint (z OR bit_of (0 OR s1 OR s2 \<noteq> 0))) N B" using sticks_jam [OF B0, of 10 N] by simp
    then show ?thesis using e(1) True d(1-3) by (intro exI [of _ "z OR bit_of (0 OR s1 OR s2 \<noteq> 0)"]) (simp add: N_def)
  qed
qed

lemma div64_significand:
  fixes a0 a1 b0 b1 :: bits32
  defines "A \<equiv> val64 (a0, a1)" and "B \<equiv> val64 (b0, b1)"
  assumes "2 ^ 63 \<le> B" "A < B" "B \<le> 2 * A"
  shows "\<exists>y0 y1 y2. (do {
      zSig0 \<leftarrow> estimateDiv64To32 a0 a1 b0;
      let (term0, term1, term2) = mul64By32To96 b0 b1 zSig0;
      let (rem0, rem1, rem2) = sub96 a0 a1 0 term0 term1 term2;
      (zSig0, rem0, rem1, rem2) \<leftarrow> float64_div_loop b0 b1 zSig0 rem0 rem1 rem2;
      zSig1 \<leftarrow> estimateDiv64To32 rem1 rem2 b0;
      zSig1 \<leftarrow>
        (if zSig1 AND 0x3FF \<le> 4
         then let (term1, term2, term3) = mul64By32To96 b0 b1 zSig1; (rem1, rem2, rem3) = sub96 rem1 rem2 0 term1 term2 term3
              in do { (zSig1, rem1, rem2, rem3) \<leftarrow> float64_div_loop b0 b1 zSig1 rem1 rem2 rem3;
                      Some (zSig1 OR bit_of (rem1 OR rem2 OR rem3 \<noteq> 0)) }
         else Some zSig1);
      let (zSig0, zSig1, zSig2) = shift64ExtraRightJamming zSig0 zSig1 0 11;
      Some (f zSig0 zSig1 zSig2) }) = Some (f y0 y1 y2) \<and>
    sticks 31 (val96 (y0, y1, y2)) (A * 2 ^ 96) (B * 2 ^ 11) \<and> 2 ^ 84 \<le> val96 (y0, y1, y2) \<and> val96 (y0, y1, y2) < 2 ^ 85"
proof -
  have B0: "0 < B" using assms(3) by simp
  obtain e where e: "estimateDiv64To32 a0 a1 b0 = Some e" "A * 2 ^ 32 div B \<le> uint e" "uint e \<le> A * 2 ^ 32 div B + 4"
    using div64_digit_estimate assms(3,4) unfolding A_def B_def by blast
  obtain t0 t1 t2 r0 r1 r2 z0 s1 s2 where d: "mul64By32To96 b0 b1 e = (t0, t1, t2)" "sub96 a0 a1 0 t0 t1 t2 = (r0, r1, r2)"
    "float64_div_loop b0 b1 e r0 r1 r2 = Some (z0, 0, s1, s2)" "uint z0 = A * 2 ^ 32 div B" "val64 (s1, s2) = A * 2 ^ 32 mod B"
    using div64_digit_exact [OF assms(3,4) [unfolded A_def B_def] e(2,3) [unfolded A_def B_def]] unfolding A_def B_def by blast
  have "val64 (s1, s2) < B" using d(5) B0 by simp
  with div64_low_digit [of b0 b1 s1 s2] obtain z1 where z1: "(do {
      zSig1 \<leftarrow> estimateDiv64To32 s1 s2 b0;
      if zSig1 AND 0x3FF \<le> 4
      then let (term1, term2, term3) = mul64By32To96 b0 b1 zSig1; (rem1, rem2, rem3) = sub96 s1 s2 0 term1 term2 term3
           in do { (zSig1, rem1, rem2, rem3) \<leftarrow> float64_div_loop b0 b1 zSig1 rem1 rem2 rem3;
                   Some (zSig1 OR bit_of (rem1 OR rem2 OR rem3 \<noteq> 0)) }
      else Some zSig1 }) = Some z1" "sticks 10 (uint z1) (val64 (s1, s2) * 2 ^ 32) B"
    using assms(3) unfolding B_def by blast
  obtain y0 y1 y2 where y: "shift64ExtraRightJamming z0 z1 0 11 = (y0, y1, y2)" by (metis prod_cases3)
  have N: "A * 2 ^ 64 = uint z0 * 2 ^ 32 * B + val64 (s1, s2) * 2 ^ 32"
  proof -
    have "A * 2 ^ 32 = uint z0 * B + val64 (s1, s2)" unfolding d(4,5) by (rule div_mult_mod_eq [symmetric])
    then have "A * 2 ^ 32 * 2 ^ 32 = (uint z0 * B + val64 (s1, s2)) * 2 ^ 32" by simp
    then show ?thesis by (simp add: algebra_simps)
  qed
  have "sticks 10 (uint z0 * 2 ^ 32 + uint z1) (A * 2 ^ 64) B"
    unfolding N by (rule sticks_add [OF z1(2) B0]) (simp add: dvd_mult)
  from sticks_mult [OF this B0, of 32] have st: "sticks 42 (val96 (z0, z1, 0)) (A * 2 ^ 96) B"
    by (simp add: val96_split val64_def mult.commute [of A])
  have "sticks 31 (val96 (y0, y1, y2)) (val96 (z0, z1, 0)) (2 ^ 11)" using sticks_shift64ExtraRightJamming [of 11 z0 z1 0] by (simp add: y)
  from sticks_trans [OF this st _ B0] have sy: "sticks 31 (val96 (y0, y1, y2)) (A * 2 ^ 96) (B * 2 ^ 11)" by simp
  have "2 ^ 84 \<le> val96 (y0, y1, y2)" "val96 (y0, y1, y2) < 2 ^ 85"
    using sticks_le_iff [OF sy, of 84] sticks_le_iff [OF sy, of 85] B0 assms(4,5) by simp_all
  moreover obtain e1 where e1: "estimateDiv64To32 s1 s2 b0 = Some e1" and low: "(if e1 AND 0x3FF \<le> 4
      then let (term1, term2, term3) = mul64By32To96 b0 b1 e1; (rem1, rem2, rem3) = sub96 s1 s2 0 term1 term2 term3
           in do { (zSig1, rem1, rem2, rem3) \<leftarrow> float64_div_loop b0 b1 e1 rem1 rem2 rem3;
                   Some (zSig1 OR bit_of (rem1 OR rem2 OR rem3 \<noteq> 0)) }
      else Some e1) = Some z1"
    using z1(1) unfolding bind_eq_Some_conv by blast
  ultimately show ?thesis
    using sy unfolding e(1) Let_def Option.bind.bind_lunit d(1-3) prod.case e1 low [unfolded Let_def] y by blast
qed

lemma float64_div_bits:
  assumes "nearest_even s" "finite64 a" "finite64 b" "abs64 b \<noteq> 0"
  shows "\<exists>z s'. float64_div a b s = Some (z, s') \<and> bits_f64 z =
    sign64 (extractFloat64Sign a \<noteq> extractFloat64Sign b) + round64 (abs64 a * 2 ^ 1074) (abs64 b)"
proof (cases "abs64 a = 0")
  case True
  have "0 < abs64 b" using assms(4) abs64_nonneg [of b] by simp
  then have "round_mag 52 0 (abs64 b) = 0" using round_mag_exp [of "abs64 b" 0 52 0] by (simp add: rne_div_def)
  then have "round64 (abs64 a * 2 ^ 1074) (abs64 b) = 0" using True by (auto simp: round64_def float64_inf_def)
  moreover have "bits_f64 (packFloat64 sg 0 0 0) = sign64 sg" for sg
    by (subst packFloat64_finite) simp_all
  moreover have "float64_div a b s = Some (packFloat64 (extractFloat64Sign a \<noteq> extractFloat64Sign b) 0 0 0, s)"
    using True assms(2,3,4) by (auto simp: float64_div_def Let_def finite64_def abs64_0_iff or_word_eq_0 split: prod.splits)
  ultimately show ?thesis by simp
next
  case False
  define sg where "sg = (extractFloat64Sign a \<noteq> extractFloat64Sign b)"
  obtain Ea u0 u1 where ua: "unpack64 a = (Ea, u0, u1)" by (metis prod_cases3)
  obtain Eb v0 v1 where ub: "unpack64 b = (Eb, v0, v1)" by (metis prod_cases3)
  define ma mb where "ma = val64 (u0 OR 0x00100000, u1)" and "mb = val64 (v0 OR 0x00100000, v1)"
  note va = unpack64_value(1-5) [OF assms(2) False ua, folded ma_def] and vb = unpack64_value(1-5) [OF assms(3,4) ub, folded mb_def]
  obtain x0 x1 where x: "shortShift64Left (u0 OR 0x00100000) u1 11 = (x0, x1)" by fastforce
  obtain b0 b1 where b: "shortShift64Left (v0 OR 0x00100000) v1 11 = (b0, b1)" by fastforce
  have X: "val64 (x0, x1) = ma * 2 ^ 11" and B: "val64 (b0, b1) = mb * 2 ^ 11"
    using val64_shortShift64Left [of 11 "u0 OR 0x00100000" u1] val64_shortShift64Left [of 11 "v0 OR 0x00100000" v1] va(1,2) vb(1,2)
    by (simp_all add: x b ma_def [symmetric] mb_def [symmetric])
  obtain a0 a1 i where pair: "(if le64 b0 b1 x0 x1 then (shift64Right x0 x1 1, Ea - Eb + 0x3FD + 1) else ((x0, x1), Ea - Eb + 0x3FD)) =
      ((a0, a1), Ea - Eb + 0x3FD + int i)" and A: "val64 (a0, a1) * 2 ^ i = ma * 2 ^ 11" and i: "i \<le> 1"
    and AB: "val64 (a0, a1) < val64 (b0, b1)" "val64 (b0, b1) \<le> 2 * val64 (a0, a1)"
  proof (cases "mb \<le> ma")
    case True
    obtain a0 a1 where h: "shift64Right x0 x1 1 = (a0, a1)" by fastforce
    have "val64 (a0, a1) = ma * 2 ^ 10" using val64_shift64Right [of 1 x0 x1] by (simp add: h X)
    then show thesis using that [of a0 a1 1] True va(1,2) vb(1,2) by (simp add: val64_le64 X B h)
  next
    case False
    then show thesis using that [of x0 x1 0] va(1,2) vb(1,2) by (simp add: val64_le64 X B)
  qed
  define rp where "rp = (\<lambda>y0 y1 y2. roundAndPackFloat64 sg (Ea - Eb + 0x3FD + int i) y0 y1 y2 s)"
  have nf: "(extractFloat64Exp a = 0x7FF) = False" "(extractFloat64Exp b = 0x7FF) = False"
    "(extractFloat64Exp a = 0 \<and> extractFloat64Frac0 a OR extractFloat64Frac1 a = 0) = False"
    "(extractFloat64Exp b = 0 \<and> extractFloat64Frac0 b OR extractFloat64Frac1 b = 0) = False"
    using assms(2-4) False by (auto simp: finite64_def abs64_0_iff or_word_eq_0)
  have B63: "2 ^ 63 \<le> val64 (b0, b1)" using vb(1) by (simp add: B)
  obtain y0 y1 y2 where y: "float64_div a b s = Some (rp y0 y1 y2)" "sticks 31 (val96 (y0, y1, y2)) (val64 (a0, a1) * 2 ^ 96) (val64 (b0, b1) * 2 ^ 11)"
    "2 ^ 84 \<le> val96 (y0, y1, y2)" "val96 (y0, y1, y2) < 2 ^ 85"
    using div64_significand [OF B63 AB, of rp, unfolded Let_def]
    unfolding float64_div_def Let_def nf if_False unpack64_def [symmetric] ua ub prod.case x b pair sg_def [symmetric] rp_def
    by blast
  let ?e = "Ea - Eb + 0x3FD + int i"
  have "val64 (a0, a1) * 2 ^ 96 * (abs64 b * 2 ^ nat ?e) * 2 ^ i = (val64 (a0, a1) * 2 ^ i) * abs64 b * 2 ^ (96 + nat ?e)" by (simp add: power_add)
  also have "\<dots> = ma * abs64 b * 2 ^ (11 + 96 + nat ?e)" unfolding A by (simp add: power_add)
  also have "\<dots> = abs64 a * mb * 2 ^ (1074 + (32 + nat (- ?e)) + 11 + 11 + i)"
    by (rule scaled_quotient [OF va(5) vb(5)]) simp
  also have "\<dots> = abs64 a * 2 ^ 1074 * 2 ^ (32 + nat (- ?e)) * (val64 (b0, b1) * 2 ^ 11) * 2 ^ i"
    unfolding B by (simp only: power_add mult.assoc mult.left_commute)
  finally have eq: "val64 (a0, a1) * 2 ^ 96 * (abs64 b * 2 ^ nat ?e) = abs64 a * 2 ^ 1074 * 2 ^ (32 + nat (- ?e)) * (val64 (b0, b1) * 2 ^ 11)"
    by (rule pow2_cancel_eq)
  have "bits_f64 (fst (rp y0 y1 y2)) = sign64 sg + round64 (abs64 a * 2 ^ 1074) (abs64 b)"
    unfolding rp_def
    by (rule round64_pack [OF assms(1) _ _ y(2) _ eq])
      (use B63 y(3,4) va(3,4) vb(3,4) i assms(4) abs64_nonneg [of a] abs64_nonneg [of b] in auto)
  then show ?thesis using y(1) by (cases "rp y0 y1 y2") (simp add: sg_def)
qed

end
