(* ===== verification/Float32_Arith.thy ===== *)
theory Float32_Arith
  imports Float32_Round
begin

text \<open>
  Addition, subtraction, multiplication and division of finite single-precision numbers return the
  correctly rounded result in the nearest-even mode, and the division's loops end.
\<close>

lemma jam_significand:
  assumes "0 \<le> m" "m < 2 ^ 24" "d = 0 \<Longrightarrow> m < 2 ^ 23"
  shows "0 \<le> jam_div (m * 2 ^ 6) (2 ^ d)" "jam_div (m * 2 ^ 6) (2 ^ d) < 2 ^ 29"
proof -
  have z: "sticks 1 (jam_div (m * 2 ^ 6) (2 ^ d)) (m * 2 ^ 6) (2 ^ d)" by (rule sticks_jam) simp_all
  have "m * 2 ^ 6 < 2 ^ d * 2 ^ 29"
  proof (cases "d = 0")
    case False
    then have "(2::int) ^ 1 \<le> 2 ^ d" by (intro power_increasing) simp_all
    then have "(2::int) ^ 1 * 2 ^ 29 \<le> 2 ^ d * 2 ^ 29" by (intro mult_right_mono) simp_all
    then show ?thesis using assms(2) by simp
  qed (use assms(3) in simp)
  then show "jam_div (m * 2 ^ 6) (2 ^ d) < 2 ^ 29" using sticks_le_iff [OF z, of 29] by simp
  show "0 \<le> jam_div (m * 2 ^ 6) (2 ^ d)" using jam_div_le(1) [of "m * 2 ^ 6" 30] assms(1,2) by simp
qed

lemma add_significands:
  assumes "nearest_even s" "2 ^ 23 \<le> mA" "mA < 2 ^ 24" "0 \<le> mB" "mB < 2 ^ 24" "d = 0 \<Longrightarrow> mB < 2 ^ 23"
    "1 \<le> F" "int d + F \<le> 0xFE" and S: "uint S = mA * 2 ^ 6 + jam_div (mB * 2 ^ 6) (2 ^ d)"
  shows "uint (fst (if sint (c_shl S 1) < 0 then roundAndPackFloat32 zSign (int d + F) S s
      else roundAndPackFloat32 zSign (int d + F - 1) (c_shl S 1) s)) =
    sign32 zSign + round32 ((mA * 2 ^ d + mB) * 2 ^ nat (F - 1)) 1"
proof -
  let ?z = "jam_div (mB * 2 ^ 6) (2 ^ d)" and ?N = "(mA * 2 ^ d + mB) * 2 ^ nat (F - 1)"
  have z: "sticks 1 ?z (mB * 2 ^ 6) (2 ^ d)" by (rule sticks_jam) simp_all
  note z_lt = jam_significand [of mB d, OF assms(4,5,6)]
  have st: "sticks 1 (uint S) (2 ^ 6 * (mA * 2 ^ d + mB)) (2 ^ d)"
  proof -
    have "sticks 1 (mA * 2 ^ 6 + ?z) (mA * 2 ^ 6 * 2 ^ d + mB * 2 ^ 6) (2 ^ d)"
      by (rule sticks_add [OF z]) simp_all
    then show ?thesis by (simp add: S algebra_simps)
  qed
  have S_lt: "2 ^ 29 \<le> uint S" "uint S < 2 ^ 31" using assms(2,3) z_lt by (simp_all add: S)
  have S2: "uint (c_shl S 1) = uint S * 2" using S_lt uint_lt2p [of S] by (simp add: uint_c_shl)
  have N: "0 \<le> ?N" using assms(2,4) by simp
  have d: "nat (int d + F) = d + nat F" "nat (int d + F - 1) = d + nat (F - 1)" "nat F = Suc (nat (F - 1))"
    using assms(7) by (simp_all add: nat_add_distrib nat_diff_distrib)
  show ?thesis
  proof (cases "sint (c_shl S 1) < 0")
    case True
    then have "2 ^ 30 \<le> uint S" by (simp add: sint_neg_iff S2)
    moreover have "uint (fst (roundAndPackFloat32 zSign (int d + F) S s)) = sign32 zSign + round32 ?N 1"
      using assms(7,8) S_lt calculation
      by (intro round32_pack [OF assms(1) _ N sticks_mono [OF st]]) (simp_all add: d power_add)
    ultimately show ?thesis using True by simp
  next
    case False
    then have lt: "uint S * 2 < 2 ^ 31" by (simp add: sint_neg_iff S2)
    have "sticks (1 + 1) (uint S * 2 ^ 1) (2 ^ 6 * (mA * 2 ^ d + mB) * 2 ^ 1) (2 ^ d)"
      by (rule sticks_mult [OF st]) simp
    then have st2: "sticks 2 (uint (c_shl S 1)) (2 ^ 7 * (mA * 2 ^ d + mB)) (2 ^ d)" by (simp add: S2 numeral_2_eq_2 [symmetric])
    have "uint (fst (roundAndPackFloat32 zSign (int d + F - 1) (c_shl S 1) s)) = sign32 zSign + round32 ?N 1"
      using assms(7,8) S_lt lt
      by (intro round32_pack [OF assms(1) _ N sticks_mono [OF st2]]) (simp_all add: d S2 power_add)
    then show ?thesis using False by simp
  qed
qed

definition sigword :: "float32 \<Rightarrow> int \<Rightarrow> bits32 \<Rightarrow> bits32" where
  "sigword a k implicit = (if extractFloat32Exp a = 0 then c_shl (extractFloat32Frac a) k
     else c_shl (extractFloat32Frac a) k OR implicit)"

lemma uint_frac_shl: "0 \<le> k \<Longrightarrow> k \<le> 8 \<Longrightarrow> uint (c_shl (extractFloat32Frac a) k) = uint (extractFloat32Frac a) * 2 ^ nat k"
proof -
  assume k: "0 \<le> k" "k \<le> 8"
  have "uint (extractFloat32Frac a) * 2 ^ nat k < 2 ^ (23 + 8)"
  proof -
    have "uint (extractFloat32Frac a) * 2 ^ nat k \<le> uint (extractFloat32Frac a) * 2 ^ 8"
      using k by (intro mult_left_mono power_increasing) simp_all
    also have "\<dots> < 2 ^ 23 * 2 ^ 8" using float32_ranges(3) [of a] by simp
    finally show ?thesis by simp
  qed
  then show ?thesis using k by (simp add: uint_c_shl)
qed

lemma uint_sigword:
  "uint (sigword a 6 0x20000000) = sig32 a * 2 ^ 6" "uint (sigword a 7 0x40000000) = sig32 a * 2 ^ 7"
  using float32_ranges(3) [of a]
  by (simp_all add: sigword_def sig32_def uint_or_implicit uint_frac_shl)

lemma abs32_scaled:
  assumes "exp32 b \<le> exp32 a"
  shows "abs32 a + abs32 b = (sig32 a * 2 ^ nat (exp32 a - exp32 b) + sig32 b) * 2 ^ nat (exp32 b - 1)"
    "abs32 a - abs32 b = (sig32 a * 2 ^ nat (exp32 a - exp32 b) - sig32 b) * 2 ^ nat (exp32 b - 1)"
proof -
  have "nat (exp32 a - 1) = nat (exp32 a - exp32 b) + nat (exp32 b - 1)"
    using assms sig32_ranges(3) [of b] by simp
  then show "abs32 a + abs32 b = (sig32 a * 2 ^ nat (exp32 a - exp32 b) + sig32 b) * 2 ^ nat (exp32 b - 1)"
    "abs32 a - abs32 b = (sig32 a * 2 ^ nat (exp32 a - exp32 b) - sig32 b) * 2 ^ nat (exp32 b - 1)"
    by (simp_all add: abs32_sig power_add algebra_simps)
qed

lemma addFloat32Sigs_bigger:
  assumes "nearest_even s" "finite32 a" "finite32 b" "extractFloat32Exp b < extractFloat32Exp a"
  shows "uint (fst (addFloat32Sigs a b zSign s)) = sign32 zSign + round32 (abs32 a + abs32 b) 1"
    "uint (fst (addFloat32Sigs b a zSign s)) = sign32 zSign + round32 (abs32 a + abs32 b) 1"
proof -
  define d where "d = nat (exp32 a - exp32 b)"
  have ea: "extractFloat32Exp a \<noteq> 0" "extractFloat32Exp a \<noteq> 0xFF" "exp32 a = extractFloat32Exp a"
    using assms(2,4) float32_ranges(1) [of b] by (auto simp: finite32_def exp32_def)
  have eb: "extractFloat32Exp b \<noteq> 0xFF" using assms(3) by (simp add: finite32_def)
  have le: "exp32 b \<le> exp32 a" using assms(4) ea(1,3) float32_ranges(1) [of a] by (auto simp: exp32_def)
  have d: "int d = exp32 a - exp32 b" using le by (simp add: d_def)
  define sh where "sh = shift32RightJamming (sigword b 6 0x20000000) (int d)"
  have sh: "uint sh = jam_div (sig32 b * 2 ^ 6) (2 ^ d)"
    by (simp add: sh_def shift32RightJamming_jam_div uint_sigword)
  have d0: "sig32 b < 2 ^ 23" if "d = 0"
    using that d assms(4) ea(3) sig32_ranges(7) [of b] by (auto simp: exp32_def split: if_splits)
  note core = add_significands [OF assms(1) sig32_ranges(6) [OF ea(1)] sig32_ranges(2) [of a]
      sig32_ranges(1,2) [of b] d0 sig32_ranges(3) [of b], of d _ zSign]
  have sh29: "uint sh < 2 ^ 29" unfolding sh by (rule jam_significand(2) [OF sig32_ranges(1,2) d0])
  have pair: "(if extractFloat32Exp b = 0
      then (extractFloat32Exp a - extractFloat32Exp b - 1, c_shl (extractFloat32Frac b) 6)
      else (extractFloat32Exp a - extractFloat32Exp b, c_shl (extractFloat32Frac b) 6 OR 0x20000000)) =
    (int d, sigword b 6 0x20000000)"
    using d ea(3) by (simp add: sigword_def exp32_def)
  have pair': "(if extractFloat32Exp b = 0
      then (extractFloat32Exp b - extractFloat32Exp a + 1, c_shl (extractFloat32Frac b) 6)
      else (extractFloat32Exp b - extractFloat32Exp a, c_shl (extractFloat32Frac b) 6 OR 0x20000000)) =
    (- int d, sigword b 6 0x20000000)"
    using d ea(3) by (simp add: sigword_def exp32_def)
  note sr = sig32_ranges [of a] sig32_ranges [of b]
  have "finite32 a" by fact
  then have E: "int d + exp32 b \<le> 0xFE" using d sr(5) by simp
  show "uint (fst (addFloat32Sigs a b zSign s)) = sign32 zSign + round32 (abs32 a + abs32 b) 1"
  proof -
    define S where "S = (c_shl (extractFloat32Frac a) 6 OR 0x20000000) + sh"
    have "uint S = sig32 a * 2 ^ 6 + jam_div (sig32 b * 2 ^ 6) (2 ^ d)"
      using sh29 uint_sigword(1) [of a] ea(1) sr(2) by (subst S_def, subst uint_plus_exact) (simp_all add: sigword_def sh)
    note c = core [OF _ E this]
    have "addFloat32Sigs a b zSign s = (if sint (c_shl S 1) < 0 then roundAndPackFloat32 zSign (int d + exp32 b) S s
      else roundAndPackFloat32 zSign (int d + exp32 b - 1) (c_shl S 1) s)"
      using assms(4) ea(2) d ea(3)
      by (simp add: addFloat32Sigs_def Let_def pair sh_def S_def)
    then show ?thesis using c abs32_scaled(1) [OF le] by (simp add: d_def)
  qed
  show "uint (fst (addFloat32Sigs b a zSign s)) = sign32 zSign + round32 (abs32 a + abs32 b) 1"
  proof -
    define S where "S = (sh OR 0x20000000) + c_shl (extractFloat32Frac a) 6"
    have "uint S = sig32 a * 2 ^ 6 + jam_div (sig32 b * 2 ^ 6) (2 ^ d)"
      using sh29 ea(1) sr(2) float32_ranges(3) [of a]
      by (subst S_def, subst uint_plus_exact) (simp_all add: uint_or_implicit uint_frac_shl sig32_def sh)
    note c = core [OF _ E this]
    have "addFloat32Sigs b a zSign s = (if sint (c_shl S 1) < 0 then roundAndPackFloat32 zSign (int d + exp32 b) S s
      else roundAndPackFloat32 zSign (int d + exp32 b - 1) (c_shl S 1) s)"
      using assms(4) ea(2) d ea(3)
      by (simp add: addFloat32Sigs_def Let_def pair' sh_def S_def)
    then show ?thesis using c abs32_scaled(1) [OF le] by (simp add: d_def)
  qed
qed

lemma addFloat32Sigs_same:
  assumes "nearest_even s" "finite32 a" "extractFloat32Exp a = extractFloat32Exp b"
  shows "uint (fst (addFloat32Sigs a b zSign s)) = sign32 zSign + round32 (abs32 a + abs32 b) 1"
proof -
  let ?f = "uint (extractFloat32Frac a) + uint (extractFloat32Frac b)"
  note fr = float32_ranges(3) [of a] float32_ranges(3) [of b]
  show ?thesis
  proof (cases "extractFloat32Exp a = 0")
    case True
    have "uint (c_shr (c_shl (extractFloat32Frac a) 6 + c_shl (extractFloat32Frac b) 6) 6) = ?f"
    proof -
      have "uint (c_shl (extractFloat32Frac a) 6 + c_shl (extractFloat32Frac b) 6) = ?f * 2 ^ 6"
        using fr by (subst uint_plus_exact) (simp_all add: uint_frac_shl)
      then show ?thesis by (simp add: uint_c_shr)
    qed
    moreover have "abs32 a + abs32 b = ?f" using True assms(3) by (simp add: abs32_sig sig32_def exp32_def)
    moreover have "round_mag 23 ?f 1 = ?f" using fr by (intro round_mag_self) simp_all
    ultimately show ?thesis using True assms(3) fr
      by (simp add: addFloat32Sigs_def Let_def packFloat32_finite round32_def sign32_def float32_inf_def)
  next
    case False
    define S where "S = 0x40000000 + c_shl (extractFloat32Frac a) 6 + c_shl (extractFloat32Frac b) 6"
    have S: "uint S = (sig32 a + sig32 b) * 2 ^ 6"
      using fr False assms(3) by (simp add: S_def uint_word_ariths uint_frac_shl sig32_def)
    have E: "exp32 a = extractFloat32Exp a" "exp32 b = exp32 a" using False assms(3) by (simp_all add: exp32_def)
    have N: "abs32 a + abs32 b = (sig32 a + sig32 b) * 2 ^ nat (exp32 a - 1)"
      by (simp add: abs32_sig E(2) distrib_right)
    have nE: "nat (exp32 a) = Suc (nat (exp32 a - 1))" using sig32_ranges(3) [of a] by simp
    have "uint (fst (roundAndPackFloat32 zSign (exp32 a) S s)) = sign32 zSign + round32 (abs32 a + abs32 b) 1"
      unfolding N using False assms(3) sig32_ranges [of a] sig32_ranges [of b] assms(2)
      by (intro round32_pack [OF assms(1) _ _ sticks_exact [of 1]]) (simp_all add: S nE)
    then show ?thesis using False assms(2,3)
      by (simp add: addFloat32Sigs_def Let_def S_def E finite32_def)
  qed
qed

lemma addFloat32Sigs_correct:
  assumes "nearest_even s" "finite32 a" "finite32 b"
  shows "uint (fst (addFloat32Sigs a b zSign s)) = sign32 zSign + round32 (abs32 a + abs32 b) 1"
  using addFloat32Sigs_bigger(1) [of s a b zSign] addFloat32Sigs_bigger(2) [of s b a zSign]
    addFloat32Sigs_same [of s a b zSign] assms
  by (cases "extractFloat32Exp a" "extractFloat32Exp b" rule: linorder_cases) (simp_all add: add.commute)

lemma sub_significands:
  assumes "nearest_even s" "2 ^ 23 \<le> mA" "mA < 2 ^ 24" "0 \<le> mB" "mB < 2 ^ 24" "d = 0 \<Longrightarrow> mB < 2 ^ 23"
    "1 \<le> F" "int d + F \<le> 0xFE" and S: "uint S = mA * 2 ^ 7 - jam_div (mB * 2 ^ 7) (2 ^ d)"
  shows "uint (fst (normalizeRoundAndPackFloat32 zSign (int d + F - 1) S s)) =
    sign32 zSign + round32 ((mA * 2 ^ d - mB) * 2 ^ nat (F - 1)) 1"
proof -
  let ?M = "mA * 2 ^ d - mB" and ?e = "int d + F - 1"
  have "0 < uint S" "0 < ?M" and ap: "sticks 1 (uint S) (?M * 2 ^ 7) (2 ^ d) \<and> 2 ^ 29 \<le> uint S \<or> uint S * 2 ^ d = ?M * 2 ^ 7"
    using sub_significand_approx [of 23 mA mB d "uint S" 6] assms(2-6) S by simp_all
  have S31: "uint S < 2 ^ 31" using jam_div_le(1) [of "mB * 2 ^ 7" 31 d] assms(3-5) by (simp add: S)
  have e: "nat ?e = d + nat (F - 1)" "nat (- ?e) = 0" using assms(7) by simp_all
  have "sticks 1 (uint S) (?M * 2 ^ nat (F - 1) * 2 ^ (7 + nat (- ?e))) (1 * 2 ^ nat ?e) \<and> 2 ^ 28 \<le> uint S
      \<or> uint S * (1 * 2 ^ nat ?e) = ?M * 2 ^ nat (F - 1) * 2 ^ (7 + nat (- ?e))"
    using ap
  proof
    assume a: "sticks 1 (uint S) (?M * 2 ^ 7) (2 ^ d) \<and> 2 ^ 29 \<le> uint S"
    have "?M * 2 ^ 7 * (1 * 2 ^ nat ?e) = ?M * 2 ^ nat (F - 1) * 2 ^ (7 + nat (- ?e)) * 2 ^ d"
      unfolding e by (simp only: power_add power_0 mult_1 mult_1_right mult.assoc mult.commute mult.left_commute)
    then show ?thesis using a sticks_cross [OF conjunct1 [OF a]] by simp
  next
    assume "uint S * 2 ^ d = ?M * 2 ^ 7"
    then have "uint S * 2 ^ nat ?e = ?M * 2 ^ (nat (F - 1) + 7)" unfolding e by (rule pow2_cross) simp
    then show ?thesis unfolding e by (simp add: power_add mult.assoc)
  qed
  moreover have "S \<noteq> 0" using \<open>0 < uint S\<close> by auto
  ultimately show ?thesis
    using normalizeRoundAndPackFloat32_round [OF assms(1) zero_less_one, of "?M * 2 ^ nat (F - 1)" S ?e zSign] \<open>0 < ?M\<close> S31 assms(7,8)
    by (simp add: sign32_def round32_def)
qed

lemma subFloat32Sigs_bigger:
  assumes "nearest_even s" "finite32 a" "finite32 b" "extractFloat32Exp b < extractFloat32Exp a"
  shows "uint (fst (subFloat32Sigs a b zSign s)) = sign32 zSign + round32 (abs32 a - abs32 b) 1"
    "uint (fst (subFloat32Sigs b a zSign s)) = sign32 (\<not> zSign) + round32 (abs32 a - abs32 b) 1"
proof -
  define d where "d = nat (exp32 a - exp32 b)"
  have ea: "extractFloat32Exp a \<noteq> 0" "extractFloat32Exp a \<noteq> 0xFF" "exp32 a = extractFloat32Exp a"
    using assms(2,4) float32_ranges(1) [of b] by (auto simp: finite32_def exp32_def)
  have le: "exp32 b \<le> exp32 a" using assms(4) ea(1,3) float32_ranges(1) [of a] by (auto simp: exp32_def)
  have d: "int d = exp32 a - exp32 b" using le by (simp add: d_def)
  have d0: "sig32 b < 2 ^ 23" if "d = 0"
    using that d assms(4) ea(3) sig32_ranges(7) [of b] by (auto simp: exp32_def split: if_splits)
  note sr = sig32_ranges [of a] sig32_ranges [of b]
  have E: "int d + exp32 b \<le> 0xFE" using d sr(5) assms(2) by simp
  define S where "S = (c_shl (extractFloat32Frac a) 7 OR 0x40000000) - shift32RightJamming (sigword b 7 0x40000000) (int d)"
  have sh: "uint (shift32RightJamming (sigword b 7 0x40000000) (int d)) = jam_div (sig32 b * 2 ^ 7) (2 ^ d)"
    by (simp add: shift32RightJamming_jam_div uint_sigword)
  have sa: "uint (c_shl (extractFloat32Frac a) 7 OR 0x40000000) = sig32 a * 2 ^ 7"
    using uint_sigword(2) [of a] ea(1) by (simp add: sigword_def)
  have "jam_div (sig32 b * 2 ^ 7) (2 ^ d) < 2 ^ 30"
    using jam_significand_lt(1) [of "sig32 b" 23 d 0 6] sig32_ranges(2) [of b] d0 by simp
  then have S: "uint S = sig32 a * 2 ^ 7 - jam_div (sig32 b * 2 ^ 7) (2 ^ d)"
    using uint_minus_borrow [of "c_shl (extractFloat32Frac a) 7 OR 0x40000000" "shift32RightJamming (sigword b 7 0x40000000) (int d)"] sr(6) ea(1)
    by (simp add: S_def sh sa word_less_def)
  note core = sub_significands [OF assms(1) sig32_ranges(6) [OF ea(1)] sig32_ranges(2) [of a]
      sig32_ranges(1,2) [of b] d0 sig32_ranges(3) [of b] E S]
  have pair: "(if extractFloat32Exp b = 0
      then (extractFloat32Exp a - extractFloat32Exp b - 1, c_shl (extractFloat32Frac b) 7)
      else (extractFloat32Exp a - extractFloat32Exp b, c_shl (extractFloat32Frac b) 7 OR 0x40000000)) =
    (int d, sigword b 7 0x40000000)"
    using d ea(3) by (simp add: sigword_def exp32_def)
  have pair': "(if extractFloat32Exp b = 0
      then (extractFloat32Exp b - extractFloat32Exp a + 1, c_shl (extractFloat32Frac b) 7)
      else (extractFloat32Exp b - extractFloat32Exp a, c_shl (extractFloat32Frac b) 7 OR 0x40000000)) =
    (- int d, sigword b 7 0x40000000)"
    using d ea(3) by (simp add: sigword_def exp32_def)
  have "subFloat32Sigs a b zSign s = normalizeRoundAndPackFloat32 zSign (int d + exp32 b - 1) S s"
    using assms(4) ea(2) d ea(3) by (simp add: subFloat32Sigs_def Let_def pair S_def)
  then show "uint (fst (subFloat32Sigs a b zSign s)) = sign32 zSign + round32 (abs32 a - abs32 b) 1"
    using core abs32_scaled(2) [OF le] by (simp add: d_def)
  have "subFloat32Sigs b a zSign s = normalizeRoundAndPackFloat32 (\<not> zSign) (int d + exp32 b - 1) S s"
    using assms(4) ea(2) d ea(3) by (simp add: subFloat32Sigs_def Let_def pair' S_def)
  then show "uint (fst (subFloat32Sigs b a zSign s)) = sign32 (\<not> zSign) + round32 (abs32 a - abs32 b) 1"
    using core abs32_scaled(2) [OF le] by (simp add: d_def)
qed

lemma subFloat32Sigs_same:
  assumes "nearest_even s" "finite32 a" "extractFloat32Exp a = extractFloat32Exp b"
  shows "uint (fst (subFloat32Sigs a b zSign s)) =
    (if abs32 a = abs32 b then 0
     else sign32 (if abs32 b < abs32 a then zSign else \<not> zSign) + round32 \<bar>abs32 a - abs32 b\<bar> 1)"
proof -
  have E: "exp32 b = exp32 a" using assms(3) by (simp add: exp32_def)
  have diff: "sig32 a - sig32 b = uint (extractFloat32Frac a) - uint (extractFloat32Frac b)"
    using assms(3) by (simp add: sig32_def)
  have abs: "abs32 a - abs32 b = (sig32 a - sig32 b) * 2 ^ nat (exp32 a - 1)"
    "abs32 b < abs32 a \<longleftrightarrow> sig32 b < sig32 a" "abs32 a = abs32 b \<longleftrightarrow> sig32 a = sig32 b"
    by (simp_all add: abs32_sig E left_diff_distrib)
  note fr = float32_ranges(3) [of a] float32_ranges(3) [of b]
  note sr = sig32_ranges [of a] sig32_ranges [of b]
  have cmp: "c_shl (extractFloat32Frac x) 7 < c_shl (extractFloat32Frac y) 7 \<longleftrightarrow>
      uint (extractFloat32Frac x) < uint (extractFloat32Frac y)" for x y
    by (simp add: word_less_def uint_frac_shl)
  have core: "uint (fst (normalizeRoundAndPackFloat32 sg (exp32 x - 1) (c_shl (extractFloat32Frac x) 7 - c_shl (extractFloat32Frac y) 7) s)) =
      sign32 sg + round32 ((sig32 x - sig32 y) * 2 ^ nat (exp32 x - 1)) 1"
    if "extractFloat32Exp x = extractFloat32Exp y" "sig32 y < sig32 x" "finite32 x" for sg x y
  proof -
    have "sig32 x - sig32 y = uint (extractFloat32Frac x) - uint (extractFloat32Frac y)"
      using that(1) by (simp add: sig32_def)
    then have S: "uint (c_shl (extractFloat32Frac x) 7 - c_shl (extractFloat32Frac y) 7) = (sig32 x - sig32 y) * 2 ^ 7"
      using uint_minus_borrow [of "c_shl (extractFloat32Frac x) 7" "c_shl (extractFloat32Frac y) 7"] that(2) cmp [of x y]
      by (simp add: uint_frac_shl left_diff_distrib)
    then have "c_shl (extractFloat32Frac x) 7 - c_shl (extractFloat32Frac y) 7 \<noteq> 0" using that(2) by auto
    then show ?thesis using that sig32_ranges [of x] sig32_ranges [of y]
      by (intro round32_normalize [OF assms(1)]) (simp_all add: S)
  qed
  have fin: "extractFloat32Exp b \<noteq> 0xFF" using assms(2,3) by (simp add: finite32_def)
  consider "sig32 a = sig32 b" | "sig32 b < sig32 a" | "sig32 a < sig32 b" by linarith
  then show ?thesis
  proof cases
    case 1
    then show ?thesis using assms(1,3) fin diff cmp [of a b] cmp [of b a]
      by (simp add: subFloat32Sigs_def Let_def abs packFloat32_def bit_of_def c_shl_def)
  next
    case 2
    then have "subFloat32Sigs a b zSign s = normalizeRoundAndPackFloat32 zSign (exp32 a - 1)
        (c_shl (extractFloat32Frac a) 7 - c_shl (extractFloat32Frac b) 7) s"
      using assms(3) fin diff cmp [of b a] by (simp add: subFloat32Sigs_def Let_def exp32_def)
    then show ?thesis using 2 core [of a b zSign] assms(2,3) abs by (simp add: abs_if mult_less_0_iff)
  next
    case 3
    then have "subFloat32Sigs a b zSign s = normalizeRoundAndPackFloat32 (\<not> zSign) (exp32 b - 1)
        (c_shl (extractFloat32Frac b) 7 - c_shl (extractFloat32Frac a) 7) s"
      using assms(3) fin diff cmp [of b a] cmp [of a b] by (simp add: subFloat32Sigs_def Let_def exp32_def)
    moreover have "\<bar>abs32 a - abs32 b\<bar> = (sig32 b - sig32 a) * 2 ^ nat (exp32 b - 1)"
      using 3 by (simp add: abs(1) E abs_mult)
    ultimately show ?thesis using 3 core [of b a "\<not> zSign"] assms(2,3) abs(2,3) by (simp add: finite32_def)
  qed
qed

definition signed32 :: "bool \<Rightarrow> int \<Rightarrow> int \<Rightarrow> int" where
  "signed32 zeroSign V D = (if V = 0 then sign32 zeroSign else sign32 (V < 0) + round32 \<bar>V\<bar> D)"

lemma abs32_nonneg: "0 \<le> abs32 a"
  by (intro fval_nonneg float32_ranges)

lemma round32_0: "round32 0 1 = 0"
  using round_mag_self [of 0 23] by (simp add: round32_def float32_inf_def)

lemma signed32_pm: "0 \<le> A \<Longrightarrow> signed32 sg (if sg then - A else A) 1 = sign32 sg + round32 A 1"
  by (auto simp: signed32_def round32_0)

lemma subFloat32Sigs_correct:
  assumes "nearest_even s" "finite32 a" "finite32 b"
  shows "uint (fst (subFloat32Sigs a b zSign s)) =
    (if abs32 a = abs32 b then 0
     else sign32 (if abs32 b < abs32 a then zSign else \<not> zSign) + round32 \<bar>abs32 a - abs32 b\<bar> 1)"
proof -
  have mag: "abs32 x < abs32 y" if "extractFloat32Exp x < extractFloat32Exp y" for x y
  proof -
    have "extractFloat32Exp x * 2 ^ 23 + uint (extractFloat32Frac x) < extractFloat32Exp y * 2 ^ 23"
      using that float32_ranges(3) [of x] by (intro carry_lt) simp_all
    then have "mag32 x < mag32 y" unfolding mag32_split using uint_ge_0 [of "extractFloat32Frac y"] by linarith
    then show ?thesis by (simp add: fval_less_iff float32_ranges)
  qed
  show ?thesis
  proof (cases "extractFloat32Exp a" "extractFloat32Exp b" rule: linorder_cases)
    case less
    then show ?thesis using subFloat32Sigs_bigger(2) [of s b a zSign] assms mag [OF less] by (simp add: abs_if)
  next
    case equal
    then show ?thesis by (rule subFloat32Sigs_same [OF assms(1,2)])
  next
    case greater
    then show ?thesis using subFloat32Sigs_bigger(1) [of s a b zSign] assms mag [OF greater] by (simp add: abs_if)
  qed
qed

lemma float32_add_bits:
  assumes "nearest_even s" "finite32 a" "finite32 b"
  shows "uint (fst (float32_add a b s)) =
    signed32 (extractFloat32Sign a \<and> extractFloat32Sign b) (val32 a + val32 b) 1"
proof (cases "extractFloat32Sign a = extractFloat32Sign b")
  case True
  then show ?thesis
    using addFloat32Sigs_correct [OF assms, of "extractFloat32Sign a"] abs32_nonneg [of a] abs32_nonneg [of b]
      signed32_pm [of "abs32 a + abs32 b" "extractFloat32Sign a"]
    by (simp add: float32_add_def val32_def split: if_splits)
next
  case False
  then show ?thesis
    using subFloat32Sigs_correct [OF assms, of "extractFloat32Sign a"]
    by (auto simp: float32_add_def val32_def signed32_def sign32_def abs_minus_commute)
qed

lemma float32_sub_bits:
  assumes "nearest_even s" "finite32 a" "finite32 b"
  shows "uint (fst (float32_sub a b s)) =
    signed32 (extractFloat32Sign a \<and> \<not> extractFloat32Sign b) (val32 a - val32 b) 1"
proof (cases "extractFloat32Sign a = extractFloat32Sign b")
  case True
  then show ?thesis
    using subFloat32Sigs_correct [OF assms, of "extractFloat32Sign a"]
    by (auto simp: float32_sub_def val32_def signed32_def sign32_def abs_minus_commute)
next
  case False
  then show ?thesis
    using addFloat32Sigs_correct [OF assms, of "extractFloat32Sign a"] abs32_nonneg [of a] abs32_nonneg [of b]
      signed32_pm [of "abs32 a + abs32 b" "extractFloat32Sign a"]
    by (simp add: float32_sub_def val32_def split: if_splits)
qed

definition unpack32 :: "float32 \<Rightarrow> int \<times> bits32" where
  "unpack32 a = (if extractFloat32Exp a = 0 then normalizeFloat32Subnormal (extractFloat32Frac a)
     else (extractFloat32Exp a, extractFloat32Frac a))"

lemma or_implicit_set:
  fixes S :: bits32
  assumes "2 ^ 23 \<le> uint S" "uint S < 2 ^ 24"
  shows "S OR 0x00800000 = S"
proof -
  have "uint S div 2 ^ 23 = 1" using div_mod_split(1) [of "uint S" 1 "2 ^ 23" "uint S - 2 ^ 23"] assms by simp
  then have "bit (uint S) 23" by (simp add: bit_iff_odd)
  then have "bit S 23" by (simp only: bit_uint_iff)
  then show ?thesis using or_bit_set [of S 23] by simp
qed

lemma abs32_0_iff: "abs32 a = 0 \<longleftrightarrow> extractFloat32Exp a = 0 \<and> extractFloat32Frac a = 0"
  using float32_ranges(3) [of a] by (auto simp: abs32_sig sig32_def uint_0_iff add_nonneg_eq_0_iff)

text \<open>The normalised significand of a subnormal number.\<close>

lemma normalizeFloat32Subnormal_value:
  assumes "f \<noteq> 0" "uint f < 2 ^ 23" "normalizeFloat32Subnormal f = (E, S)"
  shows "- 22 \<le> E \<and> E \<le> 0 \<and> uint S = uint f * 2 ^ nat (1 - E) \<and> 2 ^ 23 \<le> uint S \<and> uint S < 2 ^ 24"
proof -
  define c where "c = countLeadingZeros32 f - 8"
  note cl = clz32_word [OF assms(1,2)]
  have c: "1 \<le> c" "c \<le> 23" using cl by (simp_all add: c_def)
  have E: "E = 1 - c" "S = c_shl f c" using assms(3) by (simp_all add: normalizeFloat32Subnormal_def c_def Let_def)
  have S: "uint S = uint f * 2 ^ nat c" unfolding E using assms(1) c by (intro uint_c_shl_clz) (simp_all add: c_def)
  have "nat (countLeadingZeros32 f) = nat c + 8" using c by (simp add: c_def)
  then have "uint f * 2 ^ nat (countLeadingZeros32 f) = uint S * 2 ^ 8" by (simp add: S power_add)
  then show ?thesis using cl(3,4) c S by (simp add: E)
qed

lemma unpack32_value:
  assumes "finite32 a" "abs32 a \<noteq> 0" "unpack32 a = (E, S)"
  shows "2 ^ 23 \<le> uint (S OR 0x00800000)" "uint (S OR 0x00800000) < 2 ^ 24" "- 22 \<le> E" "E \<le> 0xFE"
    "abs32 a * 2 ^ nat (1 - E) = uint (S OR 0x00800000) * 2 ^ nat (E - 1)"
proof -
  define f where "f = extractFloat32Frac a"
  have "2 ^ 23 \<le> uint (S OR 0x00800000) \<and> uint (S OR 0x00800000) < 2 ^ 24 \<and> - 22 \<le> E \<and> E \<le> 0xFE \<and>
    abs32 a * 2 ^ nat (1 - E) = uint (S OR 0x00800000) * 2 ^ nat (E - 1)"
  proof (cases "extractFloat32Exp a = 0")
    case False
    have E: "E = extractFloat32Exp a" "S = extractFloat32Frac a" using assms(3) False by (simp_all add: unpack32_def)
    have "uint (S OR 0x00800000) = sig32 a" using False float32_ranges(3) [of a] by (simp add: E uint_or_implicit sig32_def)
    moreover have "exp32 a = E" using False E by (simp add: exp32_def)
    ultimately show ?thesis using sig32_ranges [of a] False assms(1) abs32_sig [of a] by simp
  next
    case True
    have f: "uint f < 2 ^ 23" unfolding f_def by (rule float32_ranges)
    have abs: "abs32 a = uint f" using True by (simp add: abs32_sig sig32_def exp32_def f_def)
    have fz: "f \<noteq> 0" using assms(2) abs by auto
    have "normalizeFloat32Subnormal f = (E, S)" using assms(3) True by (simp add: unpack32_def f_def)
    from normalizeFloat32Subnormal_value [OF fz f this]
    have E: "- 22 \<le> E" "E \<le> 0" and S: "uint S = uint f * 2 ^ nat (1 - E)" and b: "2 ^ 23 \<le> uint S" "uint S < 2 ^ 24" by simp_all
    have "S OR 0x00800000 = S" by (rule or_implicit_set [OF b])
    then show ?thesis using b E abs S by simp
  qed
  then show "2 ^ 23 \<le> uint (S OR 0x00800000)" "uint (S OR 0x00800000) < 2 ^ 24" "- 22 \<le> E" "E \<le> 0xFE"
    "abs32 a * 2 ^ nat (1 - E) = uint (S OR 0x00800000) * 2 ^ nat (E - 1)" by blast+
qed

lemma uint_shl_sig:
  assumes "uint w < 2 ^ 24" "0 \<le> k" "k \<le> 8"
  shows "uint (c_shl (w :: bits32) k) = uint w * 2 ^ nat k"
proof -
  have "uint w * 2 ^ nat k \<le> uint w * 2 ^ 8" using assms by (intro mult_left_mono power_increasing) simp_all
  then have "uint w * 2 ^ nat k < 2 ^ 32" using assms(1) by simp
  then show ?thesis using assms by (simp add: uint_c_shl)
qed

lemma mul_exponents:
  fixes ma mb va vb Ea Eb :: int
  assumes "va * 2 ^ nat (1 - Ea) = ma * 2 ^ nat (Ea - 1)" "vb * 2 ^ nat (1 - Eb) = mb * 2 ^ nat (Eb - 1)"
    "e = Ea + Eb - 0x7F - int i"
  shows "(ma * mb * 2 ^ 15) * 2 ^ i * (2 ^ 149 * 2 ^ nat e) = va * vb * 2 ^ (7 + nat (- e)) * 2 ^ 32"
proof -
  have "va * vb * 2 ^ (7 + nat (- e) + 32) = ma * mb * 2 ^ (15 + i + 149 + nat e)"
    by (rule scaled_product [OF assms(1,2)]) (use assms(3) in linarith)
  then show ?thesis by (simp add: power_add)
qed

lemma float32_mul_bits:
  assumes "nearest_even s" "finite32 a" "finite32 b"
  shows "uint (fst (float32_mul a b s)) =
    sign32 (extractFloat32Sign a \<noteq> extractFloat32Sign b) + round32 (abs32 a * abs32 b) (2 ^ 149)"
proof (cases "abs32 a = 0 \<or> abs32 b = 0")
  case True
  have "round_mag 23 0 (2 ^ 149) = 0" using round_mag_exp [of "2 ^ 149" 0 23 0] by (simp add: rne_div_def)
  then have "round32 (abs32 a * abs32 b) (2 ^ 149) = 0" using True by (auto simp: round32_def float32_inf_def)
  moreover have "uint (packFloat32 sg 0 0) = sign32 sg" for sg
    by (subst packFloat32_finite) (simp_all add: sign32_def)
  moreover have "fst (float32_mul a b s) = packFloat32 (extractFloat32Sign a \<noteq> extractFloat32Sign b) 0 0"
    using True assms(2,3) by (auto simp: float32_mul_def Let_def finite32_def abs32_0_iff split: prod.splits)
  ultimately show ?thesis by simp
next
  case False
  define sg where "sg = (extractFloat32Sign a \<noteq> extractFloat32Sign b)"
  obtain Ea Sa where ua: "unpack32 a = (Ea, Sa)" by fastforce
  obtain Eb Sb where ub: "unpack32 b = (Eb, Sb)" by fastforce
  note va = unpack32_value [OF assms(2) _ ua] and vb = unpack32_value [OF assms(3) _ ub]
  define ma mb where "ma = uint (Sa OR 0x00800000)" and "mb = uint (Sb OR 0x00800000)"
  have m: "2 ^ 23 \<le> ma" "ma < 2 ^ 24" "2 ^ 23 \<le> mb" "mb < 2 ^ 24"
    using False va(1,2) vb(1,2) by (simp_all add: ma_def mb_def)
  obtain z0 z1 where z: "mul32To64 (c_shl (Sa OR 0x00800000) 7) (c_shl (Sb OR 0x00800000) 8) = (z0, z1)" by fastforce
  define P where "P = ma * mb * 2 ^ 15"
  have P: "val64 (z0, z1) = P"
    using val64_mul32To64 [of "c_shl (Sa OR 0x00800000) 7" "c_shl (Sb OR 0x00800000) 8"] m
    by (simp add: z P_def uint_shl_sig ma_def mb_def)
  define zs where "zs = z0 OR bit_of (z1 \<noteq> 0)"
  have st: "sticks 1 (uint zs) P (2 ^ 32)" unfolding zs_def uint_jam_low P by (rule sticks_jam) simp_all
  have "2 ^ 23 * 2 ^ 23 \<le> ma * mb" using m by (intro mult_mono) simp_all
  moreover have "ma * mb < 2 ^ (24 + 24)" using m by (intro mult_less_pow) simp_all
  ultimately have zs: "2 ^ 29 \<le> uint zs" "uint zs < 2 ^ 31"
    using sticks_le_iff [OF st, of 29] sticks_le_iff [OF st, of 31] by (simp_all add: P_def)
  have zs2: "uint (c_shl zs 1) = uint zs * 2" using zs by (simp add: uint_c_shl)
  have fm: "float32_mul a b s = (if 0 \<le> sint (c_shl zs 1) then roundAndPackFloat32 sg (Ea + Eb - 0x7F - 1) (c_shl zs 1) s
      else roundAndPackFloat32 sg (Ea + Eb - 0x7F) zs s)"
    using False assms(2,3) z ua ub
    by (auto simp: float32_mul_def Let_def finite32_def abs32_0_iff unpack32_def [symmetric] sg_def zs_def split: prod.splits)
  have N: "0 \<le> abs32 a * abs32 b" by (simp add: abs32_nonneg)
  have E: "- 22 \<le> Ea" "Ea \<le> 0xFE" "- 22 \<le> Eb" "Eb \<le> 0xFE" using False va(3,4) vb(3,4) by simp_all
  have rel: "abs32 a * 2 ^ nat (1 - Ea) = ma * 2 ^ nat (Ea - 1)" "abs32 b * 2 ^ nat (1 - Eb) = mb * 2 ^ nat (Eb - 1)"
    using False va(5) vb(5) by (simp_all add: ma_def mb_def)
  show ?thesis
  proof (cases "0 \<le> sint (c_shl zs 1)")
    case True
    then have lt: "uint zs * 2 < 2 ^ 31" using sint_neg_iff [of "c_shl zs 1"] by (simp add: zs2)
    have st2: "sticks 2 (uint (c_shl zs 1)) (P * 2 ^ 1) (2 ^ 32)" using sticks_mult [OF st, of 1] by (simp add: zs2 numeral_2_eq_2 [symmetric])
    have "uint (fst (roundAndPackFloat32 sg (Ea + Eb - 0x7F - 1) (c_shl zs 1) s)) = sign32 sg + round32 (abs32 a * abs32 b) (2 ^ 149)"
      using E zs lt mul_exponents [OF rel, of _ 1] unfolding P_def
      by (intro round32_pack [OF assms(1) _ N sticks_mono [OF st2 [unfolded P_def]]]) (simp_all add: zs2)
    then show ?thesis using True fm by (simp add: sg_def)
  next
    case False
    then have ge: "2 ^ 30 \<le> uint zs" using sint_neg_iff [of "c_shl zs 1"] by (simp add: zs2)
    have "uint (fst (roundAndPackFloat32 sg (Ea + Eb - 0x7F) zs s)) = sign32 sg + round32 (abs32 a * abs32 b) (2 ^ 149)"
      using E zs ge mul_exponents [OF rel, of _ 0] unfolding P_def
      by (intro round32_pack [OF assms(1) _ N sticks_mono [OF st [unfolded P_def]]]) simp_all
    then show ?thesis using False fm by (simp add: sg_def)
  qed
qed

lemma float32_div_loop_returns:
  assumes "val64 (rem0, rem1) = V mod 2 ^ 64" "- (2 ^ 62) \<le> V" "V < uint b" "b \<noteq> 0"
  shows "\<exists>r0 r1. float32_div_loop b z rem0 rem1 =
      Some (z + word_of_int (V div uint b), r0, r1) \<and> val64 (r0, r1) = V mod uint b"
  using assms
proof (induction "nat (- (V div uint b))" arbitrary: V z rem0 rem1 rule: less_induct)
  case less
  have B: "0 < uint b" "uint b < 2 ^ 32" using uint_lt2p [of b] uint_pos [OF less.prems(4)] by simp_all
  have neg: "sint rem0 < 0 \<longleftrightarrow> V < 0"
    using less.prems(2,3) B by (intro signed_rem_neg [OF less.prems(1)]) simp_all
  show ?case
  proof (cases "V < 0")
    case False
    then have "V div uint b = 0" "V mod uint b = V" "V mod 2 ^ 64 = V" using less.prems B by simp_all
    then show ?thesis using neg False less.prems(1) by (subst float32_div_loop.simps) simp
  next
    case True
    note step = neg_div_step [OF B(1) True]
    obtain s0 s1 where s: "add64 rem0 rem1 0 b = (s0, s1)" by fastforce
    have "val64 (s0, s1) = (V + uint b) mod 2 ^ 64"
      using val64_add64 [of rem0 rem1 0 b] less.prems(1) by (simp add: s mod_simps)
    moreover have "- (2 ^ 62) \<le> V + uint b" "V + uint b < uint b" using less.prems True B by simp_all
    ultimately obtain r0 r1 where
      "float32_div_loop b (z - 1) s0 s1 = Some (z - 1 + word_of_int ((V + uint b) div uint b), r0, r1)"
      "val64 (r0, r1) = (V + uint b) mod uint b"
      using less.hyps [OF step(3) _ _ _ less.prems(4), of s0 s1 "z - 1"] by blast
    then show ?thesis using neg True by (subst float32_div_loop.simps) (simp add: s step)
  qed
qed

text \<open>The significand \<open>float32_div\<close> hands to the rounding.\<close>

lemma div_significand:
  assumes "2 ^ 31 \<le> uint B" "A < B" "2 * uint A < uint B" "uint B \<le> 4 * uint A"
  shows "\<exists>z. (do {
      zSig \<leftarrow> estimateDiv64To32 A 0 B;
      if zSig AND 0x3F \<le> 2
      then let (term0, term1) = mul32To64 B zSig; (rem0, rem1) = sub64 A 0 term0 term1
           in do { (zSig, rem0, rem1) \<leftarrow> float32_div_loop B zSig rem0 rem1;
                   Some (f (zSig OR bit_of (rem1 \<noteq> 0))) }
      else Some (f zSig) }) = Some (f z) \<and>
    sticks 6 (uint z) (uint A * 2 ^ 32) (uint B) \<and> 2 ^ 30 \<le> uint z \<and> uint z < 2 ^ 31"
proof -
  define N q where "N = uint A * 2 ^ 32" and "q = N div uint B"
  have B0: "0 < uint B" using assms(1) by simp
  have vA: "val64 (A, 0) = N" by (simp add: val64_def N_def)
  obtain e where e: "estimateDiv64To32 A 0 B = Some e" "q \<le> uint e" "uint e \<le> q + 2"
    using estimateDiv64To32_bounds [OF assms(1,2), of 0] unfolding vA q_def by blast
  have low: "uint (e AND 0x3F) = uint e mod 2 ^ 6" using uint_and_mask [of e 6] by (simp add: mask_eq_exp_minus_1)
  have range: "2 ^ 30 \<le> uint z \<and> uint z < 2 ^ 31" if "sticks 6 (uint z) N (uint B)" for z :: bits32
    using sticks_le_iff [OF that B0, of 30] sticks_le_iff [OF that B0, of 31] assms(3,4) by (simp add: N_def)
  show ?thesis
  proof (cases "e AND 0x3F \<le> 2")
    case False
    then have "2 < uint e mod 2 ^ 6" using low by (simp add: word_le_def)
    then have "sticks 6 (uint e) N (uint B)" using e B0 by (intro sticks_estimate [where k = 2]) (simp_all add: q_def)
    then show ?thesis using e(1) False range [of e] by (auto simp: N_def)
  next
    case True
    obtain t0 t1 where t: "mul32To64 B e = (t0, t1)" by fastforce
    obtain r0 r1 where r: "sub64 A 0 t0 t1 = (r0, r1)" by fastforce
    define V where "V = N - uint B * uint e"
    have v: "val64 (r0, r1) = V mod 2 ^ 64"
      using val64_sub64 [of A 0 t0 t1] val64_mul32To64 [of B e] by (simp add: r t vA V_def)
    have Vd: "V div uint B = q - uint e" "V mod uint B = N mod uint B"
      using div_mult_self1 [of "uint B" N "- uint e"] mod_mult_self1 [of N "- uint e" "uint B"] B0
      by (simp_all add: V_def q_def mult.commute)
    have NB: "N = q * uint B + N mod uint B" by (simp add: q_def)
    have m: "0 \<le> N mod uint B" "N mod uint B < uint B" using B0 by simp_all
    have "q * uint B \<le> uint e * uint B" "uint e * uint B \<le> (q + 2) * uint B" using e B0 by (auto intro: mult_right_mono)
    then have Vb: "V < uint B" "- (2 * uint B) \<le> V" using NB m unfolding V_def distrib_right mult.commute [of "uint B"] by linarith+
    then have V62: "- (2 ^ 62) \<le> V" using uint_lt2p [of B] by simp
    have "B \<noteq> 0" using B0 by auto
    from float32_div_loop_returns [OF v V62 Vb(1) this, of e] obtain s0 s1 where
      s: "float32_div_loop B e r0 r1 = Some (e + word_of_int (q - uint e), s0, s1)" "val64 (s0, s1) = N mod uint B"
      unfolding Vd by blast
    define z where "z = e + word_of_int (q - uint e)"
    have q0: "0 \<le> q" unfolding q_def using B0 by (simp add: N_def pos_imp_zdiv_nonneg_iff)
    have "uint z = q mod 2 ^ 32" unfolding z_def uint_word_ariths uint_word_of_int by (simp add: mod_simps)
    then have z: "uint z = q" using q0 e(2) uint_lt2p [of e] by simp
    have "N mod uint B < 2 ^ 32" using m uint_lt2p [of B] by simp
    then have "uint s0 < 1" using s(2) two_digit_iff [of "uint s1" "2 ^ 32" 0 "uint s0" 1] uint_lt2p [of s1]
      by (simp add: val64_def)
    then have "s0 = 0" using uint_pos [of s0] by linarith
    then have "s1 \<noteq> 0 \<longleftrightarrow> N mod uint B \<noteq> 0" using s(2) by (simp add: val64_def word_uint_eq_iff)
    then have "uint (z OR bit_of (s1 \<noteq> 0)) = jam_div N (uint B)" by (simp add: uint_or_bit_of z jam_div_def q_def)
    then have "sticks 6 (uint (z OR bit_of (s1 \<noteq> 0))) N (uint B)" using sticks_jam [OF B0, of 6 N] by simp
    then show ?thesis using e(1) True range t r s(1) by (intro exI [of _ "z OR bit_of (s1 \<noteq> 0)"]) (simp add: N_def z_def)
  qed
qed

lemma div_exponents:
  fixes ma mb va vb Ea Eb A :: int
  assumes "va * 2 ^ nat (1 - Ea) = ma * 2 ^ nat (Ea - 1)" "vb * 2 ^ nat (1 - Eb) = mb * 2 ^ nat (Eb - 1)"
    "e = Ea - Eb + 0x7D + int i" "A * 2 ^ i = ma * 2 ^ 7"
  shows "A * 2 ^ 32 * (vb * 2 ^ nat e) = va * 2 ^ 149 * 2 ^ (7 + nat (- e)) * (mb * 2 ^ 8)"
proof -
  have "A * 2 ^ 32 * (vb * 2 ^ nat e) * 2 ^ i = (A * 2 ^ i) * vb * 2 ^ (32 + nat e)" by (simp add: power_add)
  also have "\<dots> = ma * vb * 2 ^ (7 + 32 + nat e)" unfolding assms(4) by (simp add: power_add)
  also have "\<dots> = va * mb * 2 ^ (149 + (7 + nat (- e)) + 8 + i)"
    by (rule scaled_quotient [OF assms(1,2)]) (use assms(3) in linarith)
  also have "\<dots> = va * 2 ^ 149 * 2 ^ (7 + nat (- e)) * (mb * 2 ^ 8) * 2 ^ i" by (simp add: power_add)
  finally show ?thesis by (rule pow2_cancel_eq)
qed

lemma float32_div_bits:
  assumes "nearest_even s" "finite32 a" "finite32 b" "abs32 b \<noteq> 0"
  shows "\<exists>z s'. float32_div a b s = Some (z, s') \<and> uint z =
    sign32 (extractFloat32Sign a \<noteq> extractFloat32Sign b) + round32 (abs32 a * 2 ^ 149) (abs32 b)"
proof (cases "abs32 a = 0")
  case True
  have "0 < abs32 b" using assms(4) abs32_nonneg [of b] by simp
  then have "round_mag 23 0 (abs32 b) = 0" using round_mag_exp [of "abs32 b" 0 23 0] by (simp add: rne_div_def)
  then have "round32 (abs32 a * 2 ^ 149) (abs32 b) = 0" using True by (auto simp: round32_def float32_inf_def)
  moreover have "uint (packFloat32 sg 0 0) = sign32 sg" for sg
    by (subst packFloat32_finite) (simp_all add: sign32_def)
  moreover have "float32_div a b s = Some (packFloat32 (extractFloat32Sign a \<noteq> extractFloat32Sign b) 0 0, s)"
    using True assms(2,3,4) by (auto simp: float32_div_def Let_def finite32_def abs32_0_iff split: prod.splits)
  ultimately show ?thesis by simp
next
  case False
  define sg where "sg = (extractFloat32Sign a \<noteq> extractFloat32Sign b)"
  obtain Ea Sa where ua: "unpack32 a = (Ea, Sa)" by fastforce
  obtain Eb Sb where ub: "unpack32 b = (Eb, Sb)" by fastforce
  note va = unpack32_value [OF assms(2) False ua] and vb = unpack32_value [OF assms(3,4) ub]
  define ma mb where "ma = uint (Sa OR 0x00800000)" and "mb = uint (Sb OR 0x00800000)"
  have m: "2 ^ 23 \<le> ma" "ma < 2 ^ 24" "2 ^ 23 \<le> mb" "mb < 2 ^ 24"
    using va(1,2) vb(1,2) by (simp_all add: ma_def mb_def)
  define A0 B where "A0 = c_shl (Sa OR 0x00800000) 7" and "B = c_shl (Sb OR 0x00800000) 8"
  have A0: "uint A0 = ma * 2 ^ 7" and B: "uint B = mb * 2 ^ 8"
    using m by (simp_all add: A0_def B_def ma_def mb_def uint_shl_sig)
  have cond: "B \<le> A0 + A0 \<longleftrightarrow> mb \<le> ma"
    using m uint_plus_exact [of A0 A0] by (simp add: word_le_def A0 B)
  define A i where "A = (if B \<le> A0 + A0 then c_shr A0 1 else A0)" and "i = (if B \<le> A0 + A0 then 1 else 0 :: nat)"
  have A: "uint A * 2 ^ i = ma * 2 ^ 7" by (auto simp: A_def i_def A0 uint_c_shr)
  have B31: "2 ^ 31 \<le> uint B" using m by (simp add: B)
  have AB: "2 * uint A < uint B" "uint B \<le> 4 * uint A"
    using m cond by (auto simp: A_def A0 B uint_c_shr)
  then have "A < B" by (simp add: word_less_def)
  define rp where "rp = (\<lambda>z. roundAndPackFloat32 sg (Ea - Eb + 0x7D + int i) z s)"
  have pair: "(if B \<le> A0 + A0 then (c_shr A0 1, Ea - Eb + 0x7D + 1) else (A0, Ea - Eb + 0x7D)) = (A, Ea - Eb + 0x7D + int i)"
    by (simp add: A_def i_def)
  have nf: "(extractFloat32Exp a = 0xFF) = False" "(extractFloat32Exp b = 0xFF) = False"
    "(extractFloat32Exp a = 0 \<and> extractFloat32Frac a = 0) = False" "(extractFloat32Exp b = 0 \<and> extractFloat32Frac b = 0) = False"
    using assms(2-4) False by (simp_all add: finite32_def abs32_0_iff)
  have fd: "float32_div a b s = (do {
      zSig \<leftarrow> estimateDiv64To32 A 0 B;
      if zSig AND 0x3F \<le> 2
      then let (term0, term1) = mul32To64 B zSig; (rem0, rem1) = sub64 A 0 term0 term1
           in do { (zSig, rem0, rem1) \<leftarrow> float32_div_loop B zSig rem0 rem1;
                   Some (rp (zSig OR bit_of (rem1 \<noteq> 0))) }
      else Some (rp zSig) })"
    by (simp only: float32_div_def Let_def unpack32_def [symmetric] ua ub prod.case nf if_False
        A0_def [symmetric] B_def [symmetric] sg_def [symmetric] pair rp_def)
  obtain z where z: "float32_div a b s = Some (rp z)"
    "sticks 6 (uint z) (uint A * 2 ^ 32) (uint B)" "2 ^ 30 \<le> uint z" "uint z < 2 ^ 31"
    using div_significand [OF B31 \<open>A < B\<close> AB, of rp] unfolding fd [symmetric] by blast
  have "uint (fst (roundAndPackFloat32 sg (Ea - Eb + 0x7D + int i) z s)) = sign32 sg + round32 (abs32 a * 2 ^ 149) (abs32 b)"
  proof (rule round32_pack [OF assms(1) _ _ z(2)])
    show "uint A * 2 ^ 32 * (abs32 b * 2 ^ nat (Ea - Eb + 0x7D + int i)) =
        abs32 a * 2 ^ 149 * 2 ^ (7 + nat (- (Ea - Eb + 0x7D + int i))) * uint B"
      unfolding B using va(5) vb(5) A by (intro div_exponents) (simp_all add: ma_def mb_def)
    show "0 < abs32 b" using assms(4) abs32_nonneg [of b] by simp
  qed (use B31 z(3,4) va(3,4) vb(3,4) abs32_nonneg [of a] in \<open>auto simp: i_def\<close>)
  then show ?thesis using z(1) by (cases "rp z") (simp add: sg_def rp_def)
qed

end
