(* ===== verification/Float_Format.thy ===== *)
theory Float_Format
  imports Float_Rounding
begin

text \<open>
  What the two formats and their arithmetic have in common, as interfaces: a binary format with \<open>p\<close> fraction
  and \<open>w\<close> exponent bits, and arithmetic on it that returns correctly rounded bit patterns.  What follows from
  correct rounding is proved here once; the theories of both formats interpret the interfaces.
\<close>

locale binary_format =
  fixes bits :: "'f \<Rightarrow> int" and negative :: "'f \<Rightarrow> bool" and mag :: "'f \<Rightarrow> int" and finite_number :: "'f \<Rightarrow> bool"
    and val :: "'f \<Rightarrow> int" and sign :: "bool \<Rightarrow> int" and rounded :: "int \<Rightarrow> int \<Rightarrow> int" and p :: nat and w :: nat
  assumes bits_split: "bits a = sign (negative a) + mag a"
    and mag_nonneg: "0 \<le> mag a"
    and mag_less: "mag a < 2 ^ (p + w)"
    and finite_iff: "finite_number a \<longleftrightarrow> mag a < (2 ^ w - 1) * 2 ^ p"
    and val_mag: "val a = (if negative a then - fval p (mag a) else fval p (mag a))"
    and sign_bit: "sign c = (if c then 2 ^ (p + w) else 0)"
    and rounded_mag: "rounded N D = min (round_mag p N D) ((2 ^ w - 1) * 2 ^ p)"
    and p_pos: "0 < p"
begin

lemma infinity_less: "(2 ^ w - 1) * 2 ^ p < (2 ^ (p + w) :: int)"
  by (simp add: left_diff_distrib power_add mult.commute)

lemma bits_inject:
  assumes "bits z = sign sg + M" "0 \<le> M" "M < 2 ^ (p + w)"
  shows "mag z = M" "negative z = sg"
  using assms bits_split [of z] mag_nonneg [of z] mag_less [of z] by (auto simp: sign_bit split: if_splits)

lemma abs_val: "\<bar>val a\<bar> = fval p (mag a)"
  using fval_nonneg [OF mag_nonneg, of p a] by (simp add: val_mag)

text \<open>A correctly rounded pattern, when finite, is nearest to the exact result.\<close>

lemma nearest:
  assumes "0 < D" "finite_number z" "bits z = sign sg + rounded \<bar>V\<bar> D" "V \<noteq> 0 \<Longrightarrow> sg \<longleftrightarrow> V < 0"
  shows "\<bar>val z * D - V\<bar> \<le> \<bar>val c * D - V\<bar>"
proof -
  define R where "R = round_mag p \<bar>V\<bar> D"
  note near = round_mag_nearest [OF assms(1) abs_ge_zero p_pos, of _ V, folded R_def]
  have R0: "0 \<le> R" unfolding R_def by (rule round_mag_nonneg [OF assms(1) abs_ge_zero])
  have inf0: "0 \<le> (2 ^ w - 1) * (2 ^ p :: int)" by simp
  from bits_inject [OF assms(3)] have z: "mag z = rounded \<bar>V\<bar> D" "negative z = sg"
    using R0 infinity_less inf0 by (simp_all add: rounded_mag R_def [symmetric])
  then have mz: "mag z = R" using assms(2) by (simp add: finite_iff rounded_mag R_def [symmetric] split: if_splits)
  have nc: "\<bar>fval p R * D - \<bar>V\<bar>\<bar> \<le> \<bar>\<bar>val c\<bar> * D - \<bar>V\<bar>\<bar>" using near [of "mag c"] mag_nonneg [of c] by (simp add: abs_val)
  have n0: "\<bar>fval p R * D - \<bar>V\<bar>\<bar> \<le> \<bar>V\<bar>" using near [of 0] by (simp add: fval_def)
  have vz: "\<bar>val z * D - V\<bar> = \<bar>fval p R * D - \<bar>V\<bar>\<bar>"
    using assms(4) n0 by (cases "V = 0"; cases sg) (auto simp: val_mag mz z(2) abs_if mult.commute [of _ D] split: if_splits)
  have "\<bar>\<bar>val c\<bar> * D - \<bar>V\<bar>\<bar> \<le> \<bar>val c * D - V\<bar>"
    using abs_triangle_ineq3 [of "val c * D" V] assms(1) by (simp add: abs_mult)
  then show ?thesis using nc vz by linarith
qed

end

locale correctly_rounded = binary_format +
  fixes ok :: "'s \<Rightarrow> bool" and add sub mul :: "'f \<Rightarrow> 'f \<Rightarrow> 's \<Rightarrow> 'f \<times> 's" and divide :: "'f \<Rightarrow> 'f \<Rightarrow> 's \<Rightarrow> ('f \<times> 's) option"
    and u :: nat
  assumes add_bits: "ok s \<Longrightarrow> finite_number a \<Longrightarrow> finite_number b \<Longrightarrow> bits (fst (add a b s)) =
      (if val a + val b = 0 then sign (negative a \<and> negative b) else sign (val a + val b < 0) + rounded \<bar>val a + val b\<bar> 1)"
    and sub_bits: "ok s \<Longrightarrow> finite_number a \<Longrightarrow> finite_number b \<Longrightarrow> bits (fst (sub a b s)) =
      (if val a - val b = 0 then sign (negative a \<and> \<not> negative b) else sign (val a - val b < 0) + rounded \<bar>val a - val b\<bar> 1)"
    and mul_bits: "ok s \<Longrightarrow> finite_number a \<Longrightarrow> finite_number b \<Longrightarrow>
      bits (fst (mul a b s)) = sign (negative a \<noteq> negative b) + rounded \<bar>val a * val b\<bar> (2 ^ u)"
    and divide_bits: "ok s \<Longrightarrow> finite_number a \<Longrightarrow> finite_number b \<Longrightarrow> val b \<noteq> 0 \<Longrightarrow>
      \<exists>z s'. divide a b s = Some (z, s') \<and> bits z = sign (negative a \<noteq> negative b) + rounded (\<bar>val a\<bar> * 2 ^ u) \<bar>val b\<bar>"
begin

lemma val_sign: "val a \<noteq> 0 \<Longrightarrow> negative a \<longleftrightarrow> val a < 0"
  using fval_nonneg [OF mag_nonneg, of p a] by (auto simp: val_mag split: if_splits)

lemma rounded_0: "rounded 0 1 = 0"
  using round_mag_self [of 0 p] by (simp add: rounded_mag)

lemma sum_nearest:
  assumes "bits z = (if V = 0 then sign sg else sign (V < 0) + rounded \<bar>V\<bar> 1)" "finite_number z"
  shows "\<bar>val z - V\<bar> \<le> \<bar>val c - V\<bar>"
  using nearest [of 1 z "if V = 0 then sg else V < 0" V c] assms by (simp add: rounded_0 split: if_splits)

lemma mul_nearest:
  assumes "ok s" "finite_number a" "finite_number b" "finite_number (fst (mul a b s))"
  shows "\<bar>val (fst (mul a b s)) * 2 ^ u - val a * val b\<bar> \<le> \<bar>val c * 2 ^ u - val a * val b\<bar>"
  by (rule nearest [OF _ assms(4) mul_bits [OF assms(1-3)]])
    (use val_sign [of a] val_sign [of b] in \<open>auto simp: mult_less_0_iff\<close>)

lemma divide_nearest:
  assumes "ok s" "finite_number a" "finite_number b" "val b \<noteq> 0"
  shows "\<exists>z s'. divide a b s = Some (z, s') \<and> (finite_number z \<longrightarrow>
    \<bar>val z * val b - val a * 2 ^ u\<bar> \<le> \<bar>val c * val b - val a * 2 ^ u\<bar>)"
proof -
  obtain z s' where z: "divide a b s = Some (z, s')" "bits z = sign (negative a \<noteq> negative b) + rounded (\<bar>val a\<bar> * 2 ^ u) \<bar>val b\<bar>"
    using divide_bits [OF assms] by blast
  define V where "V = (if val b < 0 then - val a else val a) * 2 ^ u"
  have V: "\<bar>V\<bar> = \<bar>val a\<bar> * 2 ^ u" "V \<noteq> 0 \<Longrightarrow> (negative a \<noteq> negative b) \<longleftrightarrow> V < 0"
    using assms(4) val_sign [of a] val_sign [of b] by (auto simp: V_def abs_mult mult_less_0_iff zero_less_mult_iff)
  have d: "\<bar>x * val b - val a * 2 ^ u\<bar> = \<bar>x * \<bar>val b\<bar> - V\<bar>" for x
    by (auto simp: V_def abs_if)
  have "\<bar>val z * \<bar>val b\<bar> - V\<bar> \<le> \<bar>val c * \<bar>val b\<bar> - V\<bar>" if "finite_number z"
    by (rule nearest [OF _ that, where sg = "negative a \<noteq> negative b"]) (use assms(4) z(2) V in simp_all)
  then show ?thesis using z(1) d by auto
qed

lemmas arith_nearest = sum_nearest [OF add_bits] sum_nearest [OF sub_bits] mul_nearest divide_nearest

text \<open>Correctly rounded addition and multiplication are commutative, although the code treats its operands differently.\<close>

lemma bits_eq: "bits x = bits y \<Longrightarrow> mag x = mag y \<and> negative x = negative y"
  using bits_inject [of x "negative y" "mag y"] bits_split [of y] mag_nonneg [of y] mag_less [of y] by simp

lemma commutes:
  assumes "ok s" "finite_number a" "finite_number b"
  shows "bits (fst (add a b s)) = bits (fst (add b a s))" "bits (fst (mul a b s)) = bits (fst (mul b a s))"
  unfolding add_bits [OF assms] add_bits [OF assms(1,3,2)] mul_bits [OF assms] mul_bits [OF assms(1,3,2)]
    add.commute [of "val b"] mult.commute [of "val b"] neq_commute [of "negative b"] by (simp_all add: conj_commute)

end

end
