(* ===== verification/Float32_Correct.thy ===== *)
theory Float32_Correct
  imports Float32_Arith Float_Format
begin

text \<open>
  The properties of single-precision arithmetic: addition, subtraction, multiplication and division
  of finite numbers are correctly rounded, and no other number is nearer to the exact result.  The
  second part comes from the interface \<open>correctly_rounded\<close>, of which the operations are an instance.
\<close>

lemma finite32_mag: "finite32 a \<longleftrightarrow> mag32 a < (2 ^ 8 - 1) * 2 ^ 23"
  using two_digit_iff [of "uint (extractFloat32Frac a)" "2 ^ 23" 0 "extractFloat32Exp a" "2 ^ 8 - 1"] float32_ranges [of a]
  by (auto simp: mag32_split finite32_def)

interpretation binary32: binary_format uint extractFloat32Sign mag32 finite32 val32 sign32 round32 23 8
proof unfold_locales
  fix a :: float32
  show "uint a = sign32 (extractFloat32Sign a) + mag32 a"
    using uint_lt2p [of a] div_mod_split(2) [of "uint a" 1 "2 ^ 31" "uint a - 2 ^ 31"] by (auto simp: sign32_def mag32_def float32_fields)
  show "0 \<le> mag32 a" "mag32 a < 2 ^ (23 + 8)" using float32_ranges(4,5) [of a] by simp_all
qed (simp_all add: finite32_mag val32_def sign32_def round32_def float32_inf_def)

lemma abs32_val: "abs32 a = \<bar>val32 a\<bar>"
  by (simp add: binary32.abs_val)

interpretation binary32: correctly_rounded uint extractFloat32Sign mag32 finite32 val32 sign32 round32 23 8 nearest_even
  float32_add float32_sub float32_mul float32_div 149
proof unfold_locales
  fix a b s assume n: "nearest_even s" "finite32 a" "finite32 b"
  show "uint (fst (float32_add a b s)) = (if val32 a + val32 b = 0 then sign32 (extractFloat32Sign a \<and> extractFloat32Sign b)
      else sign32 (val32 a + val32 b < 0) + round32 \<bar>val32 a + val32 b\<bar> 1)" using float32_add_bits [OF n] by (simp add: signed32_def)
  show "uint (fst (float32_sub a b s)) = (if val32 a - val32 b = 0 then sign32 (extractFloat32Sign a \<and> \<not> extractFloat32Sign b)
      else sign32 (val32 a - val32 b < 0) + round32 \<bar>val32 a - val32 b\<bar> 1)" using float32_sub_bits [OF n] by (simp add: signed32_def)
  show "uint (fst (float32_mul a b s)) = sign32 (extractFloat32Sign a \<noteq> extractFloat32Sign b) + round32 \<bar>val32 a * val32 b\<bar> (2 ^ 149)"
    using float32_mul_bits [OF n] by (simp only: abs32_val abs_mult)
  show "\<exists>z s'. float32_div a b s = Some (z, s') \<and> uint z = sign32 (extractFloat32Sign a \<noteq> extractFloat32Sign b) +
      round32 (\<bar>val32 a\<bar> * 2 ^ 149) \<bar>val32 b\<bar>" if "val32 b \<noteq> 0"
    using float32_div_bits [OF n] that by (simp only: abs32_val abs_eq_0 simp_thms)
qed

text \<open>
  C5. Single-precision addition and subtraction are correctly rounded: for all finite operands in the
  rounding mode to nearest even, \<open>float32_add\<close> and \<open>float32_sub\<close> return the bit pattern of the exact
  sum or difference rounded to nearest even, infinity on overflow; an exact zero is positive unless
  both addends are negative.
\<close>

theorem float32_add_sub_correct:
  assumes "nearest_even s" "finite32 a" "finite32 b"
  shows "uint (fst (float32_add a b s)) =
      signed32 (extractFloat32Sign a \<and> extractFloat32Sign b) (val32 a + val32 b) 1 \<and>
    uint (fst (float32_sub a b s)) =
      signed32 (extractFloat32Sign a \<and> \<not> extractFloat32Sign b) (val32 a - val32 b) 1"
  using float32_add_bits [OF assms] float32_sub_bits [OF assms] by simp

theorem float32_add_sub_correct_witness:
  "uint (fst (float32_add 0x3F800000 0x33800001 fp_init)) = signed32 False (val32 0x3F800000 + val32 0x33800001) 1 \<and>
   fst (float32_add 0x3F800000 0x33800001 fp_init) = 0x3F800001"
proof -
  have "nearest_even fp_init" "finite32 0x3F800000" "finite32 0x33800001" "\<not> extractFloat32Sign 0x3F800000" by code_simp+
  moreover have "fst (float32_add 0x3F800000 0x33800001 fp_init) = 0x3F800001" by code_simp
  ultimately show ?thesis using float32_add_sub_correct [of fp_init "0x3F800000" "0x33800001"] by simp
qed

text \<open>
  C6. Single-precision multiplication is correctly rounded: for all finite operands in the rounding
  mode to nearest even, \<open>float32_mul\<close> returns the bit pattern of the exact product rounded to nearest
  even, with the sign of the product.
\<close>

theorem float32_mul_correct:
  assumes "nearest_even s" "finite32 a" "finite32 b"
  shows "uint (fst (float32_mul a b s)) =
    sign32 (extractFloat32Sign a \<noteq> extractFloat32Sign b) + round32 (abs32 a * abs32 b) (2 ^ 149)"
  using assms by (rule float32_mul_bits)

theorem float32_mul_correct_witness:
  "uint (fst (float32_mul 0x3F800001 0xBF800001 fp_init)) = sign32 True + round32 (abs32 0x3F800001 * abs32 0xBF800001) (2 ^ 149) \<and>
   fst (float32_mul 0x3F800001 0xBF800001 fp_init) = 0xBF800002"
proof -
  have "nearest_even fp_init" "finite32 0x3F800001" "finite32 0xBF800001" "\<not> extractFloat32Sign 0x3F800001"
    "extractFloat32Sign 0xBF800001" by code_simp+
  moreover have "fst (float32_mul 0x3F800001 0xBF800001 fp_init) = 0xBF800002" by code_simp
  ultimately show ?thesis using float32_mul_correct [of fp_init "0x3F800001" "0xBF800001"] by simp
qed

text \<open>
  C7. Single-precision division is correctly rounded: for all finite operands with a divisor that is
  not zero, \<open>float32_div\<close> terminates and returns the bit pattern of the exact quotient rounded to
  nearest even.
\<close>

theorem float32_div_correct:
  assumes "nearest_even s" "finite32 a" "finite32 b" "abs32 b \<noteq> 0"
  shows "\<exists>z s'. float32_div a b s = Some (z, s') \<and> uint z =
    sign32 (extractFloat32Sign a \<noteq> extractFloat32Sign b) + round32 (abs32 a * 2 ^ 149) (abs32 b)"
  using assms by (rule float32_div_bits)

theorem float32_div_correct_witness:
  "(\<exists>z s'. float32_div 0x3F800000 0x40400000 fp_init = Some (z, s') \<and>
      uint z = sign32 False + round32 (abs32 0x3F800000 * 2 ^ 149) (abs32 0x40400000)) \<and>
   map_option fst (float32_div 0x3F800000 0x40400000 fp_init) = Some 0x3EAAAAAB"
proof -
  have "nearest_even fp_init" "finite32 0x3F800000" "finite32 0x40400000" "\<not> extractFloat32Sign 0x3F800000"
    "\<not> extractFloat32Sign 0x40400000" "abs32 0x40400000 \<noteq> 0" by code_simp+
  moreover have "map_option fst (float32_div 0x3F800000 0x40400000 fp_init) = Some 0x3EAAAAAB" by code_simp
  ultimately show ?thesis using float32_div_correct [of fp_init "0x3F800000" "0x40400000"] by simp
qed

text \<open>
  No other single-precision number is nearer: whenever \<open>float32_add\<close>, \<open>float32_sub\<close>, \<open>float32_mul\<close> or
  \<open>float32_div\<close> of finite operands returns a finite number, every finite number \<open>c\<close> is at least as far
  from the exact result as the number returned.  Values count units of \<open>2 ^ -149\<close>, so that a
  product and a quotient are compared after scaling by \<open>2 ^ 149\<close> and by the divisor.
\<close>

theorem float32_arith_nearest:
  assumes "nearest_even s" "finite32 a" "finite32 b" "finite32 c"
  shows "(finite32 (fst (float32_add a b s)) \<longrightarrow>
      \<bar>val32 (fst (float32_add a b s)) - (val32 a + val32 b)\<bar> \<le> \<bar>val32 c - (val32 a + val32 b)\<bar>) \<and>
    (finite32 (fst (float32_sub a b s)) \<longrightarrow>
      \<bar>val32 (fst (float32_sub a b s)) - (val32 a - val32 b)\<bar> \<le> \<bar>val32 c - (val32 a - val32 b)\<bar>) \<and>
    (finite32 (fst (float32_mul a b s)) \<longrightarrow>
      \<bar>val32 (fst (float32_mul a b s)) * 2 ^ 149 - val32 a * val32 b\<bar> \<le> \<bar>val32 c * 2 ^ 149 - val32 a * val32 b\<bar>) \<and>
    (val32 b \<noteq> 0 \<longrightarrow> (\<exists>z s'. float32_div a b s = Some (z, s') \<and> (finite32 z \<longrightarrow>
      \<bar>val32 z * val32 b - val32 a * 2 ^ 149\<bar> \<le> \<bar>val32 c * val32 b - val32 a * 2 ^ 149\<bar>)))"
  using assms binary32.arith_nearest by blast

theorem float32_arith_nearest_witness:
  "\<bar>val32 (fst (float32_add 0x3F800000 0x33800001 fp_init)) - (val32 0x3F800000 + val32 0x33800001)\<bar>
    \<le> \<bar>val32 0x3F800000 - (val32 0x3F800000 + val32 0x33800001)\<bar>"
proof -
  have "nearest_even fp_init" "finite32 0x3F800000" "finite32 0x33800001"
    "finite32 (fst (float32_add 0x3F800000 0x33800001 fp_init))" by code_simp+
  then show ?thesis using float32_arith_nearest [of fp_init "0x3F800000" "0x33800001" "0x3F800000"] by blast
qed

end
