(* ===== verification/Float64_Correct.thy ===== *)
theory Float64_Correct
  imports Float64_Muldiv Float32_Correct
begin

text \<open>
  The properties of double-precision arithmetic: the four operations are correctly rounded, so the interface
  \<open>correctly_rounded\<close> holds of them as it does of the single-precision ones.
\<close>

lemma finite64_mag: "finite64 a \<longleftrightarrow> mag64 a < (2 ^ 11 - 1) * 2 ^ 52"
  using two_digit_iff [of "frac64 a" "2 ^ 52" 0 "extractFloat64Exp a" "2 ^ 11 - 1"] frac64_range [of a] float64_ranges [of a]
  by (auto simp: mag64_frac finite64_def)

interpretation binary64: binary_format bits_f64 extractFloat64Sign mag64 finite64 val_f64 sign64 round64 52 11
proof unfold_locales
  fix a :: float64
  show "0 \<le> mag64 a" "mag64 a < 2 ^ (52 + 11)" using float64_ranges(4,5) [of a] by simp_all
qed (simp_all add: bits_f64_split finite64_mag val_f64_def sign64_def round64_def float64_inf_def)

lemma abs64_val: "abs64 a = \<bar>val_f64 a\<bar>"
  by (simp add: binary64.abs_val)

interpretation binary64: correctly_rounded bits_f64 extractFloat64Sign mag64 finite64 val_f64 sign64 round64 52 11 nearest_even
  float64_add float64_sub float64_mul float64_div 1074
proof unfold_locales
  fix a b s assume n: "nearest_even s" "finite64 a" "finite64 b"
  show "bits_f64 (fst (float64_add a b s)) = (if val_f64 a + val_f64 b = 0 then sign64 (extractFloat64Sign a \<and> extractFloat64Sign b)
      else sign64 (val_f64 a + val_f64 b < 0) + round64 \<bar>val_f64 a + val_f64 b\<bar> 1)" using float64_add_bits [OF n] by (simp add: signed64_def)
  show "bits_f64 (fst (float64_sub a b s)) = (if val_f64 a - val_f64 b = 0 then sign64 (extractFloat64Sign a \<and> \<not> extractFloat64Sign b)
      else sign64 (val_f64 a - val_f64 b < 0) + round64 \<bar>val_f64 a - val_f64 b\<bar> 1)" using float64_sub_bits [OF n] by (simp add: signed64_def)
  show "bits_f64 (fst (float64_mul a b s)) = sign64 (extractFloat64Sign a \<noteq> extractFloat64Sign b) + round64 \<bar>val_f64 a * val_f64 b\<bar> (2 ^ 1074)"
    using float64_mul_bits [OF n] by (simp only: abs64_val abs_mult)
  show "\<exists>z s'. float64_div a b s = Some (z, s') \<and> bits_f64 z = sign64 (extractFloat64Sign a \<noteq> extractFloat64Sign b) +
      round64 (\<bar>val_f64 a\<bar> * 2 ^ 1074) \<bar>val_f64 b\<bar>" if "val_f64 b \<noteq> 0"
    using float64_div_bits [OF n] that by (simp only: abs64_val abs_eq_0 simp_thms)
qed

section \<open>Properties\<close>

text \<open>
  C1. Double-precision addition and subtraction are correctly rounded: for all finite operands in the
  rounding mode to nearest even, \<open>float64_add\<close> and \<open>float64_sub\<close> return the bit pattern of the exact
  sum or difference rounded to nearest even, infinity on overflow; an exact zero is positive unless
  both addends are negative.
\<close>

theorem float64_add_sub_correct:
  assumes "nearest_even s" "finite64 a" "finite64 b"
  shows "bits_f64 (fst (float64_add a b s)) =
      signed64 (extractFloat64Sign a \<and> extractFloat64Sign b) (val_f64 a + val_f64 b) 1 \<and>
    bits_f64 (fst (float64_sub a b s)) =
      signed64 (extractFloat64Sign a \<and> \<not> extractFloat64Sign b) (val_f64 a - val_f64 b) 1"
  using float64_add_bits [OF assms] float64_sub_bits [OF assms] by simp

theorem float64_add_sub_correct_witness:
  "bits_f64 (fst (float64_add \<lparr>low = 0, high = 0x3FF00000\<rparr> \<lparr>low = 1, high = 0x3CA00000\<rparr> fp_init)) =
     signed64 False (val_f64 \<lparr>low = 0, high = 0x3FF00000\<rparr> + val_f64 \<lparr>low = 1, high = 0x3CA00000\<rparr>) 1 \<and>
   fst (float64_add \<lparr>low = 0, high = 0x3FF00000\<rparr> \<lparr>low = 1, high = 0x3CA00000\<rparr> fp_init) = \<lparr>low = 1, high = 0x3FF00000\<rparr>"
proof -
  have "nearest_even fp_init" "finite64 \<lparr>low = 0, high = 0x3FF00000\<rparr>" "finite64 \<lparr>low = 1, high = 0x3CA00000\<rparr>"
    "\<not> extractFloat64Sign \<lparr>low = 0, high = 0x3FF00000\<rparr>" by code_simp+
  moreover have "fst (float64_add \<lparr>low = 0, high = 0x3FF00000\<rparr> \<lparr>low = 1, high = 0x3CA00000\<rparr> fp_init) = \<lparr>low = 1, high = 0x3FF00000\<rparr>" by code_simp
  ultimately show ?thesis using float64_add_sub_correct [of fp_init "\<lparr>low = 0, high = 0x3FF00000\<rparr>" "\<lparr>low = 1, high = 0x3CA00000\<rparr>"] by simp
qed

text \<open>
  C2. Double-precision multiplication is correctly rounded: for all finite operands in the rounding
  mode to nearest even, \<open>float64_mul\<close> returns the bit pattern of the exact product rounded to nearest
  even, with the sign of the product.
\<close>

theorem float64_mul_correct:
  assumes "nearest_even s" "finite64 a" "finite64 b"
  shows "bits_f64 (fst (float64_mul a b s)) =
    sign64 (extractFloat64Sign a \<noteq> extractFloat64Sign b) + round64 (abs64 a * abs64 b) (2 ^ 1074)"
  using assms by (rule float64_mul_bits)

theorem float64_mul_correct_witness:
  "bits_f64 (fst (float64_mul \<lparr>low = 1, high = 0x3FF00000\<rparr> \<lparr>low = 1, high = 0xBFF00000\<rparr> fp_init)) =
     sign64 True + round64 (abs64 \<lparr>low = 1, high = 0x3FF00000\<rparr> * abs64 \<lparr>low = 1, high = 0xBFF00000\<rparr>) (2 ^ 1074) \<and>
   fst (float64_mul \<lparr>low = 1, high = 0x3FF00000\<rparr> \<lparr>low = 1, high = 0xBFF00000\<rparr> fp_init) = \<lparr>low = 2, high = 0xBFF00000\<rparr>"
proof -
  have "nearest_even fp_init" "finite64 \<lparr>low = 1, high = 0x3FF00000\<rparr>" "finite64 \<lparr>low = 1, high = 0xBFF00000\<rparr>"
    "\<not> extractFloat64Sign \<lparr>low = 1, high = 0x3FF00000\<rparr>" "extractFloat64Sign \<lparr>low = 1, high = 0xBFF00000\<rparr>" by code_simp+
  moreover have "fst (float64_mul \<lparr>low = 1, high = 0x3FF00000\<rparr> \<lparr>low = 1, high = 0xBFF00000\<rparr> fp_init) = \<lparr>low = 2, high = 0xBFF00000\<rparr>" by code_simp
  ultimately show ?thesis using float64_mul_correct [of fp_init "\<lparr>low = 1, high = 0x3FF00000\<rparr>" "\<lparr>low = 1, high = 0xBFF00000\<rparr>"] by simp
qed

text \<open>
  C3. Double-precision division is correctly rounded: for all finite operands with a divisor that is
  not zero, \<open>float64_div\<close> terminates and returns the bit pattern of the exact quotient rounded to
  nearest even.
\<close>

theorem float64_div_correct:
  assumes "nearest_even s" "finite64 a" "finite64 b" "abs64 b \<noteq> 0"
  shows "\<exists>z s'. float64_div a b s = Some (z, s') \<and> bits_f64 z =
    sign64 (extractFloat64Sign a \<noteq> extractFloat64Sign b) + round64 (abs64 a * 2 ^ 1074) (abs64 b)"
  using assms by (rule float64_div_bits)

theorem float64_div_correct_witness:
  "(\<exists>z s'. float64_div \<lparr>low = 0, high = 0x3FF00000\<rparr> \<lparr>low = 0, high = 0x40080000\<rparr> fp_init = Some (z, s') \<and>
      bits_f64 z = sign64 False + round64 (abs64 \<lparr>low = 0, high = 0x3FF00000\<rparr> * 2 ^ 1074) (abs64 \<lparr>low = 0, high = 0x40080000\<rparr>)) \<and>
   map_option fst (float64_div \<lparr>low = 0, high = 0x3FF00000\<rparr> \<lparr>low = 0, high = 0x40080000\<rparr> fp_init) = Some \<lparr>low = 0x55555555, high = 0x3FD55555\<rparr>"
proof -
  have "nearest_even fp_init" "finite64 \<lparr>low = 0, high = 0x3FF00000\<rparr>" "finite64 \<lparr>low = 0, high = 0x40080000\<rparr>"
    "\<not> extractFloat64Sign \<lparr>low = 0, high = 0x3FF00000\<rparr>" "\<not> extractFloat64Sign \<lparr>low = 0, high = 0x40080000\<rparr>"
    "abs64 \<lparr>low = 0, high = 0x40080000\<rparr> \<noteq> 0" by code_simp+
  moreover have "map_option fst (float64_div \<lparr>low = 0, high = 0x3FF00000\<rparr> \<lparr>low = 0, high = 0x40080000\<rparr> fp_init) =
      Some \<lparr>low = 0x55555555, high = 0x3FD55555\<rparr>" by code_simp
  ultimately show ?thesis using float64_div_correct [of fp_init "\<lparr>low = 0, high = 0x3FF00000\<rparr>" "\<lparr>low = 0, high = 0x40080000\<rparr>"] by simp
qed

text \<open>
  C15. No other double-precision number is nearer: whenever \<open>float64_add\<close>, \<open>float64_sub\<close>, \<open>float64_mul\<close> or
  \<open>float64_div\<close> of finite operands returns a finite number, every number \<open>c\<close> is at least as far
  from the exact result as the number returned.  Values count units of \<open>2 ^ -1074\<close>.
\<close>

theorem float64_arith_nearest:
  assumes "nearest_even s" "finite64 a" "finite64 b" "finite64 c"
  shows "(finite64 (fst (float64_add a b s)) \<longrightarrow>
      \<bar>val_f64 (fst (float64_add a b s)) - (val_f64 a + val_f64 b)\<bar> \<le> \<bar>val_f64 c - (val_f64 a + val_f64 b)\<bar>) \<and>
    (finite64 (fst (float64_sub a b s)) \<longrightarrow>
      \<bar>val_f64 (fst (float64_sub a b s)) - (val_f64 a - val_f64 b)\<bar> \<le> \<bar>val_f64 c - (val_f64 a - val_f64 b)\<bar>) \<and>
    (finite64 (fst (float64_mul a b s)) \<longrightarrow>
      \<bar>val_f64 (fst (float64_mul a b s)) * 2 ^ 1074 - val_f64 a * val_f64 b\<bar> \<le> \<bar>val_f64 c * 2 ^ 1074 - val_f64 a * val_f64 b\<bar>) \<and>
    (val_f64 b \<noteq> 0 \<longrightarrow> (\<exists>z s'. float64_div a b s = Some (z, s') \<and> (finite64 z \<longrightarrow>
      \<bar>val_f64 z * val_f64 b - val_f64 a * 2 ^ 1074\<bar> \<le> \<bar>val_f64 c * val_f64 b - val_f64 a * 2 ^ 1074\<bar>)))"
  using assms binary64.arith_nearest by blast

theorem float64_arith_nearest_witness:
  "\<bar>val_f64 (fst (float64_add \<lparr>low = 0, high = 0x3FF00000\<rparr> \<lparr>low = 1, high = 0x3CA00000\<rparr> fp_init)) -
      (val_f64 \<lparr>low = 0, high = 0x3FF00000\<rparr> + val_f64 \<lparr>low = 1, high = 0x3CA00000\<rparr>)\<bar>
    \<le> \<bar>val_f64 \<lparr>low = 0, high = 0x3FF00000\<rparr> - (val_f64 \<lparr>low = 0, high = 0x3FF00000\<rparr> + val_f64 \<lparr>low = 1, high = 0x3CA00000\<rparr>)\<bar>"
proof -
  have "nearest_even fp_init" "finite64 \<lparr>low = 0, high = 0x3FF00000\<rparr>" "finite64 \<lparr>low = 1, high = 0x3CA00000\<rparr>"
    "finite64 (fst (float64_add \<lparr>low = 0, high = 0x3FF00000\<rparr> \<lparr>low = 1, high = 0x3CA00000\<rparr> fp_init))" by code_simp+
  then show ?thesis
    using float64_arith_nearest [of fp_init "\<lparr>low = 0, high = 0x3FF00000\<rparr>" "\<lparr>low = 1, high = 0x3CA00000\<rparr>" "\<lparr>low = 0, high = 0x3FF00000\<rparr>"] by blast
qed

text \<open>
  Addition and multiplication commute in both formats, for all finite operands, although the code
  distinguishes which operand has the larger exponent and multiplies a complete significand by one
  without its leading bit.
\<close>

theorem float_arith_commutes:
  assumes "nearest_even s"
  shows "(finite32 a \<longrightarrow> finite32 b \<longrightarrow>
      fst (float32_add a b s) = fst (float32_add b a s) \<and> fst (float32_mul a b s) = fst (float32_mul b a s)) \<and>
    (finite64 c \<longrightarrow> finite64 d \<longrightarrow>
      fst (float64_add c d s) = fst (float64_add d c s) \<and> fst (float64_mul c d s) = fst (float64_mul d c s))"
proof -
  have "bits_f64 x = bits_f64 y \<Longrightarrow> x = y" for x y by (simp add: bits_f64_def val64_inject)
  then show ?thesis
    using binary32.commutes [OF assms] binary64.commutes [OF assms] by (simp add: word_uint_eq_iff)
qed

end
