(* ===== verification/Float_Convert.thy ===== *)
theory Float_Convert
  imports Float64_Correct
begin

text \<open>
  The conversions between the two precisions and to and from 32-bit integers: each returns the rounded, the
  exact or the truncated value.
\<close>

section \<open>Between the two precisions\<close>

lemma float64_to_float32_bits:
  assumes "nearest_even s" "finite64 a"
  shows "uint (fst (float64_to_float32 a s)) = sign32 (extractFloat64Sign a) + round32 (abs64 a) (2 ^ 925)"
proof -
  let ?sg = "extractFloat64Sign a" and ?E = "extractFloat64Exp a"
  obtain h z where hz: "shift64RightJamming (extractFloat64Frac0 a) (extractFloat64Frac1 a) 22 = (h, z)" by fastforce
  have v: "val64 (h, z) = jam_div (frac64 a) (2 ^ 22)"
    using val64_shift64RightJamming [of 22 "extractFloat64Frac0 a" "extractFloat64Frac1 a"] by (simp add: hz jam_eq frac64_def)
  have j: "sticks 1 (jam_div (frac64 a) (2 ^ 22)) (frac64 a) (2 ^ 22)" by (rule sticks_jam) simp_all
  have lt: "jam_div (frac64 a) (2 ^ 22) < 2 ^ 30" using sticks_le_iff [OF j, of 30] frac64_range [of a] by simp
  then have "uint h * 2 ^ 32 + uint z < 1 * 2 ^ 32" using v by (simp add: val64_def)
  then have "uint h < 1" by (rule high_part_lt) simp_all
  then have "h = 0" using uint_pos [of h] by linarith
  then have z: "uint z = jam_div (frac64 a) (2 ^ 22)" using v by (simp add: val64_def)
  have r: "\<And>z'. z' = (if ?E \<noteq> 0 then z OR 0x40000000 else z) \<Longrightarrow> float64_to_float32 a s = roundAndPackFloat32 ?sg (?E - 0x381) z' s"
    using assms(2) by (simp add: float64_to_float32_def Let_def hz finite64_def)
  show ?thesis
  proof (cases "?E = 0")
    case False
    have u: "uint (z OR 0x40000000) = 2 ^ 30 + jam_div (frac64 a) (2 ^ 22)" using uint_or_exp [of z 30] lt by (simp add: z)
    have "sticks 1 (2 ^ 30 + jam_div (frac64 a) (2 ^ 22)) (2 ^ 30 * 2 ^ 22 + frac64 a) (2 ^ 22)"
      by (rule sticks_add [OF j]) simp_all
    then have "sticks 1 (uint (z OR 0x40000000)) (sig64 a) (2 ^ 22)" using False by (simp add: u sig64_def)
    then have st: "sticks 6 (uint (z OR 0x40000000)) (sig64 a) (2 ^ 22)" by (rule sticks_mono) simp_all
    have "uint (fst (roundAndPackFloat32 ?sg (?E - 0x381) (z OR 0x40000000) s)) = sign32 ?sg + round32 (abs64 a) (2 ^ 925)"
    proof (rule round32_pack [OF assms(1) _ abs64_nonneg st])
      have "1 \<le> ?E" using float64_ranges(1) [of a] False by simp
      then have "925 + nat (?E - 0x381) = nat (?E - 1) + (7 + nat (- (?E - 0x381))) + 22" by (cases "0x381 \<le> ?E") simp_all
      then have "(2::int) ^ 925 * 2 ^ nat (?E - 0x381) = 2 ^ nat (?E - 1) * 2 ^ (7 + nat (- (?E - 0x381))) * 2 ^ 22"
        by (simp only: power_add [symmetric])
      then show "sig64 a * (2 ^ 925 * 2 ^ nat (?E - 0x381)) = abs64 a * 2 ^ (7 + nat (- (?E - 0x381))) * 2 ^ 22"
        using False by (simp only: abs64_sig exp64_def if_False mult.assoc)
    qed (use lt jam_div_le(1) [of "frac64 a" 52 22] frac64_range [of a] float64_ranges(1,2) [of a] u in simp_all)
    then show ?thesis using r False by simp
  next
    case True
    then have abs: "abs64 a = frac64 a" by (simp add: abs64_sig sig64_def exp64_def)
    have zero: "round32 (frac64 a) (2 ^ k) = 0" if "54 \<le> k" for k
    proof -
      have "(2::int) ^ 54 \<le> 2 ^ k" using that by (intro power_increasing) simp_all
      then have k: "2 * frac64 a < 2 ^ k" "0 < (2::int) ^ k" using frac64_range [of a] by simp_all
      have "round_mag 23 (frac64 a) (2 ^ k) = rne_div (frac64 a) (2 ^ k)" using round_mag_exp [of "2 ^ k" 0 23 "frac64 a"] k by simp
      also have "\<dots> = 0" using k frac64_range [of a] by (simp add: rne_div_def Let_def)
      finally show ?thesis by (simp add: round32_def float32_inf_def)
    qed
    have "uint (fst (roundAndPackFloat32 ?sg (?E - 0x381) z s)) = sign32 ?sg + round32 (frac64 a) (2 ^ 926)"
      using True lt z frac64_range [of a] by (intro round32_pack [OF assms(1) _ _ sticks_mono [OF j [folded z]]]) simp_all
    then show ?thesis using r True zero [of 925] zero [of 926] by (simp add: abs)
  qed
qed

text \<open>A packed significand with its leading bit adds one to the exponent.\<close>

lemma packFloat64_value:
  assumes "0 \<le> k" "0 \<le> j" "j < 0x7FE" "2 ^ 52 \<le> m" "m < 2 ^ 53" "k * 2 ^ 52 + val64 (z0, z1) = j * 2 ^ 52 + m"
  shows "extractFloat64Sign (packFloat64 sg k z0 z1) = sg" "abs64 (packFloat64 sg k z0 z1) = m * 2 ^ nat j"
    "finite64 (packFloat64 sg k z0 z1)"
proof -
  let ?p = "packFloat64 sg k z0 z1"
  have M: "j * 2 ^ 52 + m < 0x7FF * 2 ^ 52" using assms carry_lt [of "j + 1" "0x7FF" "m - 2 ^ 52" "2 ^ 52"] by simp
  from packFloat64_finite [OF assms(1), of z0 z1 sg] M have "bits_f64 ?p = sign64 sg + (j * 2 ^ 52 + m)" using assms(6) by simp
  from binary64.bits_inject [OF this] M assms(2,4) have m: "mag64 ?p = j * 2 ^ 52 + m" "extractFloat64Sign ?p = sg" by simp_all
  show "extractFloat64Sign ?p = sg" by (rule m)
  show "finite64 ?p" using M by (simp add: finite64_mag m(1))
  have "m \<le> 2 ^ (52 + 1)" using assms(5) by simp
  from fval_binade [OF assms(4) this, of "nat j"] show "abs64 ?p = m * 2 ^ nat j" using assms(2) by (simp add: m(1))
qed

lemma float32_to_float64_value:
  assumes "finite32 a"
  shows "finite64 (fst (float32_to_float64 a s))" "extractFloat64Sign (fst (float32_to_float64 a s)) = extractFloat32Sign a"
    "abs64 (fst (float32_to_float64 a s)) = abs32 a * 2 ^ 925"
proof -
  let ?sg = "extractFloat32Sign a"
  have "finite64 (fst (float32_to_float64 a s)) \<and> extractFloat64Sign (fst (float32_to_float64 a s)) = ?sg \<and>
    abs64 (fst (float32_to_float64 a s)) = abs32 a * 2 ^ 925"
  proof (cases "abs32 a = 0")
    case True
    have b: "bits_f64 (packFloat64 ?sg 0 0 0) = sign64 ?sg + 0" using packFloat64_finite [of 0 0 0] by simp
    have "fst (float32_to_float64 a s) = packFloat64 ?sg 0 0 0"
      using True assms by (simp only: float32_to_float64_def Let_def finite32_def abs32_0_iff if_False if_True fst_conv simp_thms)
    moreover have "mag64 (packFloat64 ?sg 0 0 0) = 0" "extractFloat64Sign (packFloat64 ?sg 0 0 0) = ?sg"
      using binary64.bits_inject [OF b] by simp_all
    ultimately show ?thesis using True by (simp only: finite64_mag) (simp add: fval_def)
  next
    case False
    obtain E S where u: "unpack32 a = (E, S)" by fastforce
    note v = unpack32_value [OF assms False u]
    let ?m = "uint (S OR 0x00800000)"
    obtain x e where x: "(if extractFloat32Exp a = 0 then let (aExp, aSig) = normalizeFloat32Subnormal (extractFloat32Frac a) in (aExp - 1, aSig)
        else (extractFloat32Exp a, extractFloat32Frac a)) = (e, x)" by (metis surj_pair)
    obtain z0 z1 where z: "shift64Right x 0 3 = (z0, z1)" by fastforce
    have "val64 (z0, z1) = (uint x * 2 ^ 29 * 2 ^ 3) div 2 ^ 3" using val64_shift64Right [of 3 x 0] by (simp add: z val64_def)
    then have zv: "val64 (z0, z1) = uint x * 2 ^ 29" by simp
    have nz: "(extractFloat32Exp a = 0xFF) = False" "(extractFloat32Exp a = 0 \<and> extractFloat32Frac a = 0) = False"
      using assms False by (simp_all add: finite32_def abs32_0_iff)
    have f: "fst (float32_to_float64 a s) = packFloat64 ?sg (e + 0x380) z0 z1"
      using x unfolding float32_to_float64_def Let_def by (simp only: nz if_False x prod.case z fst_conv)
    have e: "0 \<le> e + 0x380 \<and> (e + 0x380) * 2 ^ 52 + val64 (z0, z1) = (E + 0x37F) * 2 ^ 52 + ?m * 2 ^ 29"
    proof (cases "extractFloat32Exp a = 0")
      case True
      then have s: "S = x" "e = E - 1" using u x by (simp_all add: unpack32_def split: prod.splits)
      have "normalizeFloat32Subnormal (extractFloat32Frac a) = (E, S)" using True u by (simp add: unpack32_def)
      from normalizeFloat32Subnormal_value [OF _ _ this] have "2 ^ 23 \<le> uint S" "uint S < 2 ^ 24"
        using True False float32_ranges(3) [of a] by (simp_all add: abs32_0_iff)
      from or_implicit_set [OF this] show ?thesis using v(3) by (simp add: zv s)
    next
      case False
      then have s: "S = extractFloat32Frac a" "x = S" "e = E" using u x by (simp_all add: unpack32_def)
      show ?thesis using v(3) float32_ranges(3) [of a] unfolding zv s by (simp add: uint_or_implicit distrib_right)
    qed
    note p = packFloat64_value [of "e + 0x380" "E + 0x37F" "?m * 2 ^ 29" z0 z1 ?sg, OF conjunct1 [OF e] _ _ _ _ conjunct2 [OF e]]
    have "?m * 2 ^ (29 + nat (E + 0x37F)) = abs32 a * 2 ^ 925" by (rule pow2_cross [OF v(5) [symmetric]]) (use v(3) in linarith)
    then have "?m * 2 ^ 29 * 2 ^ nat (E + 0x37F) = abs32 a * 2 ^ 925" by (simp only: power_add mult.assoc)
    then show ?thesis using p v(1-4) unfolding f by simp
  qed
  then show "finite64 (fst (float32_to_float64 a s))" "extractFloat64Sign (fst (float32_to_float64 a s)) = ?sg"
    "abs64 (fst (float32_to_float64 a s)) = abs32 a * 2 ^ 925" by blast+
qed

lemma round32_exact:
  assumes "finite32 a" "0 < D"
  shows "round32 (abs32 a * D) D = mag32 a"
  using assms(1) round_mag_fval [OF float32_ranges(4) assms(2), of 23 a] by (simp add: round32_def float32_inf_def finite32_mag)

lemma widen_narrow:
  assumes "nearest_even s'" "finite32 a"
  shows "fst (float64_to_float32 (fst (float32_to_float64 a s)) s') = a"
proof -
  note w = float32_to_float64_value [OF assms(2), of s]
  have "uint (fst (float64_to_float32 (fst (float32_to_float64 a s)) s')) = uint a"
    using float64_to_float32_bits [OF assms(1) w(1)] round32_exact [OF assms(2), of "2 ^ 925"] binary32.bits_split [of a] by (simp add: w)
  then show ?thesis by (simp add: word_uint_eq_iff)
qed

lemma float32_is_nan_fields: "float32_is_nan a \<longleftrightarrow> extractFloat32Exp a = 0xFF \<and> extractFloat32Frac a \<noteq> 0"
proof -
  have "uint (c_shl a 1) = 2 * mag32 a" using mult_mod_right [of 2 "uint a" "2 ^ 31"] by (simp add: uint_c_shl mag32_def mult.commute)
  then have "float32_is_nan a \<longleftrightarrow> 0xFF * 2 ^ 23 < mag32 a" by (simp add: float32_is_nan_def word_less_def)
  then show ?thesis using mag32_split [of a] float32_ranges [of a] uint_pos [of "extractFloat32Frac a"] by auto
qed

text \<open>Infinities come back too, and a NaN with its quiet bit set.\<close>

lemma widen_narrow_infinity:
  assumes "extractFloat32Exp a = 0xFF" "extractFloat32Frac a = 0"
  shows "fst (float64_to_float32 (fst (float32_to_float64 a s)) s') = a"
proof -
  let ?sg = "extractFloat32Sign a"
  have w: "fst (float32_to_float64 a s) = packFloat64 ?sg 0x7FF 0 0" using assms by (simp add: float32_to_float64_def)
  have n: "extractFloat64Exp (packFloat64 sg 0x7FF 0 0) = 0x7FF \<and> extractFloat64Frac0 (packFloat64 sg 0x7FF 0 0) = 0 \<and>
      extractFloat64Frac1 (packFloat64 sg 0x7FF 0 0) = 0 \<and> extractFloat64Sign (packFloat64 sg 0x7FF 0 0) = sg" for sg
    by (cases sg) (simp_all only:, code_simp+)
  have "uint (packFloat32 ?sg 0xFF 0) = uint a"
    using packFloat32_finite [of "0xFF" 0 ?sg] binary32.bits_split [of a] mag32_split [of a] assms by (simp add: sign32_def)
  then show ?thesis using n [of ?sg] by (simp add: w float64_to_float32_def Let_def) (simp add: word_uint_eq_iff)
qed

lemma bits_0xFF: "extractFloat32Exp a = 0xFF \<Longrightarrow> 23 \<le> n \<Longrightarrow> n < 31 \<Longrightarrow> bit a n"
proof -
  assume "extractFloat32Exp a = 0xFF" and n: "23 \<le> n" "n < 31"
  then have "c_shr a 23 AND 0xFF = 0xFF" by (simp add: extractFloat32Exp_def word_uint_eq_iff)
  moreover have "bit (0xFF :: bits32) (n - 23)"
  proof -
    have "n - 23 < 8" using n by simp
    then show ?thesis using bit_mask_iff [where 'a = "32 word", of 8 "n - 23"] by (simp add: mask_eq_exp_minus_1)
  qed
  ultimately have "bit (c_shr a 23) (n - 23)" by (metis bit_and_iff)
  then show "bit a n" using n by (simp add: c_shr_def bit_simps)
qed

lemma top_bit: "drop_bit 31 w = 0 \<longleftrightarrow> \<not> bit w 31" for w :: bits32
proof -
  have "bit (drop_bit 31 w) n \<longleftrightarrow> bit (of_bool (bit w 31) :: bits32) n" for n
    by (cases n) (auto simp: bit_simps dest: bit_imp_le_length)
  then have "drop_bit 31 w = of_bool (bit w 31)" by (rule bit_word_eqI)
  then show ?thesis by simp
qed

lemma widen_narrow_nan:
  assumes "float32_is_nan a"
  shows "fst (float64_to_float32 (fst (float32_to_float64 a s)) s') = a OR 0x00400000"
proof -
  define sgn where "sgn = (bit_of (c_shr a 31 \<noteq> 0) :: bits32)"
  define lo where "lo = (push_bit 20 (push_bit 9 a) :: bits32)"
  define hi where "hi = (drop_bit 12 (push_bit 9 a) OR (push_bit 31 sgn OR 0x7FF80000) :: bits32)"
  have a: "extractFloat32Exp a = 0xFF" "extractFloat32Frac a \<noteq> 0" using assms by (simp_all add: float32_is_nan_fields)
  have w: "fst (float32_to_float64 a s) = \<lparr>low = lo, high = hi\<rparr>"
    using a by (simp add: float32_to_float64_def float32ToCommonNaN_def commonNaNToFloat64_def shift64Right_def
      c_shl_def c_shr_def lo_def hi_def sgn_def)
  have masks: "(0x7FF80000 :: bits32) = push_bit 19 (mask 12)" "(0x7FC00000 :: bits32) = push_bit 22 (mask 9)"
    "(0x7FF :: bits32) = mask 11" "(0x000FFFFF :: bits32) = mask 20" by code_simp+
  have quiet: "bit (0x00400000 :: int) n \<longleftrightarrow> n = 22" for n
    using bit_push_bit_iff [of 22 "1 :: int" n] by (auto simp: bit_1_iff)
  have sgn: "bit sgn n \<longleftrightarrow> n = 0 \<and> bit a 31" for n by (simp add: sgn_def c_shr_def top_bit bit_of_def bit_simps)
  have lo: "bit lo n \<longleftrightarrow> n < 32 \<and> 29 \<le> n \<and> bit a (n - 29)" for n by (auto simp: lo_def bit_simps)
  have hi: "bit hi n \<longleftrightarrow> n < 20 \<and> bit a (3 + n) \<or> 19 \<le> n \<and> n < 31 \<or> n = 31 \<and> bit a 31" for n
    unfolding hi_def masks by (auto simp: bit_simps sgn)
  have "drop_bit 20 hi AND mask 11 = mask 11" by (rule bit_word_eqI) (auto simp: bit_simps hi)
  then have e: "extractFloat64Exp \<lparr>low = lo, high = hi\<rparr> = 0x7FF" by (simp add: extractFloat64Exp_def c_shr_def flip: masks(3))
  have "bit (hi AND mask 20) 19" by (simp add: bit_simps hi)
  then have f: "extractFloat64Frac0 \<lparr>low = lo, high = hi\<rparr> OR extractFloat64Frac1 \<lparr>low = lo, high = hi\<rparr> \<noteq> 0"
    unfolding extractFloat64Frac0_def masks by (auto simp: or_eq_0_iff)
  have top: "bit (bit_of (drop_bit 31 hi \<noteq> 0) :: bits32) n \<longleftrightarrow> n = 0 \<and> bit a 31" for n by (simp add: top_bit bit_of_def bit_simps hi)
  have "fst (float64_to_float32 \<lparr>low = lo, high = hi\<rparr> s') =
      push_bit 31 (bit_of (drop_bit 31 hi \<noteq> 0)) OR 0x7FC00000 OR drop_bit 9 (push_bit 12 hi OR drop_bit 20 lo)"
    using e f by (simp add: float64_to_float32_def float64ToCommonNaN_def commonNaNToFloat32_def shortShift64Left_def c_shl_def c_shr_def split: prod.splits)
  also have "\<dots> = a OR 0x00400000"
  proof (rule bit_word_eqI)
    fix n :: nat assume "n < LENGTH(32)"
    then consider "n < 22" | "n = 22" | "23 \<le> n" "n < 31" | "n = 31" by fastforce
    then show "bit (push_bit 31 (bit_of (drop_bit 31 hi \<noteq> 0)) OR 0x7FC00000 OR drop_bit 9 (push_bit 12 hi OR drop_bit 20 lo)) n \<longleftrightarrow> bit (a OR 0x00400000) n"
      unfolding masks(2) by cases (auto simp: bit_simps hi lo top quiet bits_0xFF [OF a(1)])
  qed
  finally show ?thesis by (simp only: w)
qed

section \<open>From and to integers\<close>

lemma int32_to_float64_value:
  shows "finite64 (int32_to_float64 n)" "val_f64 (int32_to_float64 n) = sint n * 2 ^ 1074"
proof -
  have "finite64 (int32_to_float64 n) \<and> val_f64 (int32_to_float64 n) = sint n * 2 ^ 1074"
  proof (cases "n = 0")
    case True
    have b: "bits_f64 (packFloat64 False 0 0 0) = sign64 False + 0" using packFloat64_finite [of 0 0 0 False] by simp
    have "mag64 (packFloat64 False 0 0 0) = 0" "\<not> extractFloat64Sign (packFloat64 False 0 0 0)"
      using binary64.bits_inject [OF b] by simp_all
    then show ?thesis using True by (simp only: int32_to_float64_def finite64_mag val_f64_def) (simp add: fval_def)
  next
    case False
    define A where "A = abs_word n"
    have A: "uint A = \<bar>sint n\<bar>" by (simp add: A_def uint_abs_word)
    have A0: "A \<noteq> 0" using False by (simp add: A_def abs_word_def)
    define c where "c = countLeadingZeros32 A - 11"
    have cl: "0 \<le> countLeadingZeros32 A" "countLeadingZeros32 A < 32" "2 ^ 31 \<le> uint A * 2 ^ nat (countLeadingZeros32 A)"
      "uint A * 2 ^ nat (countLeadingZeros32 A) < 2 ^ 32" using clz32_bounds [of A] A0 by simp_all
    obtain z0 z1 where z: "(if 0 \<le> c then (c_shl A c, 0) else shift64Right A 0 (- c)) = (z0, z1)" by (metis surj_pair)
    have v: "val64 (z0, z1) = uint A * 2 ^ nat (32 + c)"
    proof (cases "0 \<le> c")
      case True
      then have "uint (c_shl A c) = uint A * 2 ^ nat c" using A0 by (intro uint_c_shl_clz) (simp_all add: c_def)
      then show ?thesis using True z by (auto simp: val64_def nat_add_distrib power_add)
    next
      case False
      then have "32 = nat (32 + c) + nat (- c)" using cl by (simp add: c_def)
      then have "(2::int) ^ 32 = 2 ^ nat (32 + c) * 2 ^ nat (- c)" by (metis power_add)
      then have "uint A * 2 ^ 32 = uint A * 2 ^ nat (32 + c) * 2 ^ nat (- c)" by (simp only: mult.assoc)
      then have "uint A * 2 ^ 32 div 2 ^ nat (- c) = uint A * 2 ^ nat (32 + c) * 2 ^ nat (- c) div 2 ^ nat (- c)" by (simp only:)
      also have "\<dots> = uint A * 2 ^ nat (32 + c)" by simp
      finally have "uint A * 2 ^ 32 div 2 ^ nat (- c) = uint A * 2 ^ nat (32 + c)" .
      moreover have "val64 (z0, z1) = val64 (A, 0) div 2 ^ nat (- c)" using val64_shift64Right [of "- c" A 0] False z by simp
      ultimately show ?thesis by (simp add: val64_def)
    qed
    have "nat (32 + c) = nat (countLeadingZeros32 A) + 21" using cl by (simp add: c_def)
    then have "val64 (z0, z1) = uint A * 2 ^ nat (countLeadingZeros32 A) * 2 ^ 21" by (simp add: v power_add)
    then have m: "2 ^ 52 \<le> val64 (z0, z1)" "val64 (z0, z1) < 2 ^ 53" using cl by simp_all
    have k: "0 \<le> 0x412 - c" "0x412 - c < 0x7FE" using cl by (simp_all add: c_def)
    have i: "int32_to_float64 n = packFloat64 (sint n < 0) (0x412 - c) z0 z1"
      using False z unfolding int32_to_float64_def Let_def abs_word_def [symmetric] A_def [symmetric] c_def [symmetric] by simp
    note p = packFloat64_value [OF k(1) k m refl, of "sint n < 0"]
    have "nat (32 + c) + nat (0x412 - c) = 1074" using cl by (simp add: c_def)
    then have "val64 (z0, z1) * 2 ^ nat (0x412 - c) = \<bar>sint n\<bar> * 2 ^ 1074" unfolding v A mult.assoc power_add [symmetric] by simp
    then show ?thesis using p unfolding i val_f64_def by (cases "sint n < 0") simp_all
  qed
  then show "finite64 (int32_to_float64 n)" "val_f64 (int32_to_float64 n) = sint n * 2 ^ 1074" by blast+
qed

text \<open>The integer part of a double-precision number and whether a fraction is lost.\<close>

definition trunc64 :: "float64 \<Rightarrow> int" where
  "trunc64 a = (if extractFloat64Sign a then - (abs64 a div 2 ^ 1074) else abs64 a div 2 ^ 1074)"

lemma finish_conversion:
  fixes absZ :: bits32
  assumes "T = (if sg then - uint absZ else uint absZ)"
  shows "(if sg \<noteq> (sint (if sg then - absZ else absZ) < 0) \<and> (if sg then - absZ else absZ) \<noteq> 0 then bad
      else (if sg then - absZ else absZ, g)) = (if - (2 ^ 31) \<le> T \<and> T < 2 ^ 31 then (word_of_int T, g) else bad)"
proof -
  have n: "sint (- absZ) < 0 \<longleftrightarrow> absZ \<noteq> 0 \<and> uint absZ \<le> 2 ^ 31" "- absZ = 0 \<longleftrightarrow> absZ = 0" "sint absZ < 0 \<longleftrightarrow> 2 ^ 31 \<le> uint absZ"
    using sint_neg_iff [of absZ] sint_neg_iff [of "- absZ"] uint_lt2p [of absZ] uint_pos [of absZ]
    by (auto simp: uint_word_ariths zmod_zminus1_eq_if uint_0_iff)
  show ?thesis using n assms by auto (use uint_ge_0 [of absZ] in linarith)+
qed

lemma scaled_parts:
  fixes H L :: int
  assumes "x = (H * 2 ^ u + L) * 2 ^ w" "0 \<le> L" "L < 2 ^ u" "u + w = v"
  shows "x div 2 ^ v = H" "x mod 2 ^ v \<noteq> 0 \<longleftrightarrow> L \<noteq> 0"
proof -
  have x: "x = H * 2 ^ v + L * 2 ^ w" by (simp add: assms(1) distrib_right power_add flip: assms(4))
  have "0 \<le> L * 2 ^ w" "L * 2 ^ w < 2 ^ v" using assms(2,3) by (simp_all add: power_add flip: assms(4))
  from div_mod_split [OF x this] show "x div 2 ^ v = H" "x mod 2 ^ v \<noteq> 0 \<longleftrightarrow> L \<noteq> 0" by simp_all
qed

lemma float64_to_int32_spec:
  assumes "finite64 a"
  shows "float64_to_int32_round_to_zero a s =
    (if - (2 ^ 31) \<le> trunc64 a \<and> trunc64 a < 2 ^ 31
     then (word_of_int (trunc64 a), raise_if (abs64 a mod 2 ^ 1074 \<noteq> 0) float_flag_inexact s)
     else (if extractFloat64Sign a then 0x80000000 else 0x7FFFFFFF, float_raise float_flag_invalid s))"
proof -
  let ?E = "extractFloat64Exp a" and ?sg = "extractFloat64Sign a"
  let ?f0 = "extractFloat64Frac0 a" and ?f1 = "extractFloat64Frac1 a"
  have E: "0 \<le> ?E" "?E \<noteq> 0x7FF" using float64_ranges(1) [of a] assms by (simp_all add: finite64_def)
  have a: "abs64 a = sig64 a * 2 ^ nat (?E - 1)" "sig64 a = val64 (?f0 OR 0x00100000, ?f1)" if "?E \<noteq> 0"
    using that abs64_sig [of a] sig64_word [of a] by (simp_all add: exp64_def)
  note sr = sig64_ranges [of a]
  consider "?E < 0x3FF" | "0x3FF \<le> ?E" "?E < 0x413" | "0x413 \<le> ?E" "?E \<le> 0x41E" | "0x41E < ?E" by linarith
  then show ?thesis
  proof cases
    case 1
    have "sig64 a * 2 ^ nat (exp64 a - 1) < 2 ^ 53 * 2 ^ nat (exp64 a - 1)" using sr(2) by simp
    also have "\<dots> \<le> 2 ^ 53 * 2 ^ 1021" using 1 by (intro mult_left_mono power_increasing) (auto simp: exp64_def)
    finally have lt: "abs64 a < 2 ^ 1074" unfolding abs64_sig by (simp flip: power_add)
    then have t: "trunc64 a = 0" "abs64 a mod 2 ^ 1074 = abs64 a" using abs64_nonneg [of a] by (simp_all add: trunc64_def)
    have "word_of_int ?E OR ?f0 OR ?f1 \<noteq> 0 \<longleftrightarrow> abs64 a \<noteq> 0"
    proof -
      have "(word_of_int ?E :: bits32) = 0 \<longleftrightarrow> ?E = 0" using E(1) 1 by (simp add: word_uint_eq_iff uint_word_of_int)
      then show ?thesis by (simp add: or_word_eq_0 abs64_0_iff)
    qed
    then show ?thesis using 1 t by (simp add: float64_to_int32_round_to_zero_def Let_def)
  next
    case 2
    define k where "k = nat (0x413 - ?E)"
    have k: "0 < k" "k < 21" "?E - 0x413 = - int k" using 2 by (simp_all add: k_def)
    let ?A = "?f0 OR 0x00100000"
    have n: "nat (?E - 1) = 1042 - k" using k by simp
    have "uint ?A = uint ?A div 2 ^ k * 2 ^ k + uint ?A mod 2 ^ k" by (rule div_mult_mod_eq [symmetric])
    then have "sig64 a = uint ?A div 2 ^ k * 2 ^ k * 2 ^ 32 + (uint ?A mod 2 ^ k * 2 ^ 32 + uint ?f1)"
      using a(2) 2 by (simp add: val64_def flip: distrib_right)
    then have x: "abs64 a = (uint ?A div 2 ^ k * 2 ^ (k + 32) + (uint ?A mod 2 ^ k * 2 ^ 32 + uint ?f1)) * 2 ^ (1042 - k)"
      using a(1) 2 n by (simp add: power_add mult.assoc)
    have "uint ?A mod 2 ^ k * 2 ^ 32 + uint ?f1 < 2 ^ k * 2 ^ 32" by (rule carry_lt) (use uint_lt2p [of ?f1] in simp_all)
    then have L: "uint ?A mod 2 ^ k * 2 ^ 32 + uint ?f1 < 2 ^ (k + 32)" by (simp add: power_add)
    have "k + 32 + (1042 - k) = 1074" using k by simp
    note p = scaled_parts [OF x _ L this]
    have "uint (c_shr ?A (int k)) = uint ?A div 2 ^ k" by (simp add: uint_c_shr)
    moreover have "c_shl ?A ((- int k) AND 31) OR ?f1 \<noteq> 0 \<longleftrightarrow> uint ?A mod 2 ^ k * 2 ^ 32 + uint ?f1 \<noteq> 0"
    proof -
      have "uint (c_shl ?A ((- int k) AND 31)) = 0 \<longleftrightarrow> uint ?A mod 2 ^ k = 0" using shl_low_part [of k ?A] k by simp
      then show ?thesis by (simp add: or_word_eq_0 add_nonneg_eq_0_iff) (simp add: word_uint_eq_iff)
    qed
    ultimately have q: "trunc64 a = (if ?sg then - uint (c_shr ?A (int k)) else uint (c_shr ?A (int k)))"
      "abs64 a mod 2 ^ 1074 \<noteq> 0 \<longleftrightarrow> c_shl ?A ((- int k) AND 31) OR ?f1 \<noteq> 0"
      using p by (simp_all only: trunc64_def) simp_all
    show ?thesis
      unfolding q(2) finish_conversion [OF q(1), symmetric] using 2 k(3) by (simp add: float64_to_int32_round_to_zero_def Let_def)
  next
    case 3
    obtain z x where z: "shortShift64Left (?f0 OR 0x00100000) ?f1 (?E - 0x413) = (z, x)" by fastforce
    have "2 ^ nat (?E - 0x413) \<le> (2 ^ 11 :: int)" using 3 by (intro power_increasing) simp_all
    then have "sig64 a * 2 ^ nat (?E - 0x413) < 2 ^ 53 * 2 ^ 11"
      using sr(1,2) by (intro mult_less_le_imp_less) simp_all
    then have v: "val64 (z, x) = sig64 a * 2 ^ nat (?E - 0x413)"
      using val64_shortShift64Left [of "?E - 0x413" "?f0 OR 0x00100000" ?f1] 3 a(2) sr(1) by (simp add: z)
    have "nat (?E - 1) = nat (?E - 0x413) + 1042" using 3 by simp
    then have x: "abs64 a = (uint z * 2 ^ 32 + uint x) * 2 ^ 1042" using a(1) 3 v by (simp add: val64_def power_add mult.assoc)
    note p = scaled_parts [OF x, of 1074]
    have q: "trunc64 a = (if ?sg then - uint z else uint z)" "abs64 a mod 2 ^ 1074 \<noteq> 0 \<longleftrightarrow> x \<noteq> 0"
      using p uint_lt2p [of x] by (simp_all only: trunc64_def) (simp_all add: uint_0_iff)
    show ?thesis
      unfolding q(2) finish_conversion [OF q(1), symmetric] using 3 by (simp add: float64_to_int32_round_to_zero_def Let_def z)
  next
    case 4
    have "2 ^ 52 * 2 ^ 1054 \<le> sig64 a * 2 ^ nat (?E - 1)" using 4 sr(6) by (intro mult_mono power_increasing) simp_all
    then have "2 ^ 32 * 2 ^ 1074 \<le> abs64 a" using a(1) 4 by (simp add: power_add [symmetric])
    then have "2 ^ 32 \<le> abs64 a div 2 ^ 1074" using le_div_iff_mult_le [of "2 ^ 1074" "2 ^ 32" "abs64 a"] by simp
    then show ?thesis using 4 E by (simp add: float64_to_int32_round_to_zero_def trunc64_def Let_def)
  qed
qed

section \<open>Properties\<close>

text \<open>
  C12. The conversions between the precisions and from integers are correctly rounded: for finite numbers
  and in the rounding mode to nearest even, \<open>float64_to_float32\<close> returns the single-precision pattern of
  its argument rounded (infinity on overflow, subnormal or zero on underflow), \<open>float32_to_float64\<close> and
  \<open>int32_to_float64\<close> are exact, and \<open>int32_to_float32\<close> rounds every integer, the smallest included.
\<close>

theorem float_conversions_correct:
  assumes "nearest_even s" "finite64 a" "finite32 b"
  shows "uint (fst (float64_to_float32 a s)) = sign32 (extractFloat64Sign a) + round32 (abs64 a) (2 ^ 925) \<and>
    finite64 (fst (float32_to_float64 b s)) \<and> val_f64 (fst (float32_to_float64 b s)) = val32 b * 2 ^ 925 \<and>
    uint (fst (int32_to_float32 n s)) = sign32 (sint n < 0) + round32 (\<bar>sint n\<bar> * 2 ^ 149) 1 \<and>
    finite64 (int32_to_float64 n) \<and> val_f64 (int32_to_float64 n) = sint n * 2 ^ 1074"
  using float64_to_float32_bits [OF assms(1,2)] float32_to_float64_value [OF assms(3), of s] int32_to_float32_bits [OF assms(1), of n]
    int32_to_float64_value [of n] by (simp add: val_f64_def val32_def)

theorem float_conversions_correct_witness:
  "uint (fst (float64_to_float32 \<lparr>low = 0xF0000000, high = 0x3FF00000\<rparr> fp_init)) =
     sign32 False + round32 (abs64 \<lparr>low = 0xF0000000, high = 0x3FF00000\<rparr>) (2 ^ 925) \<and>
   fst (float64_to_float32 \<lparr>low = 0xF0000000, high = 0x3FF00000\<rparr> fp_init) = 0x3F800008"
proof -
  have "nearest_even fp_init" "finite64 \<lparr>low = 0xF0000000, high = 0x3FF00000\<rparr>" "finite32 0"
    "\<not> extractFloat64Sign \<lparr>low = 0xF0000000, high = 0x3FF00000\<rparr>" by code_simp+
  moreover have "fst (float64_to_float32 \<lparr>low = 0xF0000000, high = 0x3FF00000\<rparr> fp_init) = 0x3F800008" by code_simp
  ultimately show ?thesis using float_conversions_correct [of fp_init "\<lparr>low = 0xF0000000, high = 0x3FF00000\<rparr>" 0] by simp
qed

text \<open>
  C14. \<open>float64_to_int32_round_to_zero\<close> of every finite number returns its integer part and raises the
  inexact flag exactly when a fraction is lost; when the integer part is out of range it raises the
  invalid flag and returns the extreme integer of the same sign.
\<close>

theorem float64_to_int32_truncates:
  assumes "finite64 a"
  shows "float64_to_int32_round_to_zero a s =
    (if - (2 ^ 31) \<le> trunc64 a \<and> trunc64 a < 2 ^ 31
     then (word_of_int (trunc64 a), raise_if (abs64 a mod 2 ^ 1074 \<noteq> 0) float_flag_inexact s)
     else (if extractFloat64Sign a then 0x80000000 else 0x7FFFFFFF, float_raise float_flag_invalid s))"
  using assms by (rule float64_to_int32_spec)

theorem float64_to_int32_truncates_witness:
  "float64_to_int32_round_to_zero \<lparr>low = 0, high = 0xC0080000\<rparr> fp_init = (- 3, fp_init)"
proof -
  have "finite64 \<lparr>low = 0, high = 0xC0080000\<rparr>" "trunc64 \<lparr>low = 0, high = 0xC0080000\<rparr> = - 3"
    "abs64 \<lparr>low = 0, high = 0xC0080000\<rparr> mod 2 ^ 1074 = 0" by code_simp+
  then show ?thesis using float64_to_int32_truncates [of "\<lparr>low = 0, high = 0xC0080000\<rparr>" fp_init] by (simp add: raise_if_def)
qed

text \<open>
  C13. Round trips.  Every single-precision pattern that is not a NaN, the zeros of both signs and the
  infinities included, survives the conversion to double precision and back unchanged; a NaN keeps its sign
  and payload and comes back with its quiet bit set, so that a signalling NaN is changed.  Every 32-bit
  integer survives the conversion to double precision and back, without an exception flag.
\<close>

theorem conversion_roundtrips:
  assumes "nearest_even s"
  shows "fst (float64_to_float32 (fst (float32_to_float64 a s)) s) = (if float32_is_nan a then a OR 0x00400000 else a) \<and>
    float64_to_int32_round_to_zero (int32_to_float64 n) s = (n, s)"
proof -
  have v: "val_f64 (int32_to_float64 n) = sint n * 2 ^ 1074" by (rule int32_to_float64_value)
  then have "abs64 (int32_to_float64 n) = \<bar>sint n\<bar> * 2 ^ 1074" unfolding abs64_val by (simp only: abs_mult) simp
  then have t: "trunc64 (int32_to_float64 n) = sint n" "abs64 (int32_to_float64 n) mod 2 ^ 1074 = 0"
    using v abs64_nonneg [of "int32_to_float64 n"] by (auto simp: trunc64_def val_f64_def split: if_splits)
  have "- (2 ^ 31) \<le> sint n" "sint n < 2 ^ 31" using sint_ge [of n] sint_lt [of n] by simp_all
  then have i: "float64_to_int32_round_to_zero (int32_to_float64 n) s = (n, s)"
    unfolding float64_to_int32_spec [OF int32_to_float64_value(1)] t raise_if_def by simp
  consider "float32_is_nan a" | "extractFloat32Exp a = 0xFF" "extractFloat32Frac a = 0" | "finite32 a"
    unfolding finite32_def float32_is_nan_fields by blast
  then show ?thesis
    using i widen_narrow_nan [of a s s] widen_narrow_infinity [of a s s] widen_narrow [OF assms, of a s]
    by cases (auto simp: float32_is_nan_fields finite32_def)
qed

theorem conversion_roundtrips_witness:
  "fst (float64_to_float32 (fst (float32_to_float64 0x80000001 fp_init)) fp_init) = 0x80000001 \<and>
   fst (float64_to_float32 (fst (float32_to_float64 0x7F800001 fp_init)) fp_init) = 0x7FC00001 \<and>
   float64_to_int32_round_to_zero (int32_to_float64 0x80000000) fp_init = (0x80000000, fp_init)"
proof -
  have n: "nearest_even fp_init" "\<not> float32_is_nan 0x80000001" "float32_is_nan 0x7F800001" by code_simp+
  show ?thesis using conversion_roundtrips [OF n(1), of "0x80000001" "0x80000000"] conversion_roundtrips [OF n(1), of "0x7F800001" 0] n(2,3)
    by simp
qed

end
