(* ===== verification/Float_Integral.thy ===== *)
theory Float_Integral
  imports Float64_Correct
begin

text \<open>
  Rounding to an integral value, \<open>float32_round_to_int\<close> and \<open>float64_round_to_int\<close>, in all four rounding
  modes.  The code rounds the bit pattern to a multiple of \<open>2 ^ k\<close> with masks (\<open>round_word\<close>, and
  \<open>round_high\<close> and \<open>round_low\<close> on two words); a carry goes into the exponent field, and the interface
  \<open>binary_format\<close> turns the rounded pattern into the rounded value (\<open>integral_middle\<close>).
\<close>

section \<open>Rounding a quotient in a rounding mode\<close>

text \<open>The magnitude \<open>N / D\<close> of a number, negative if \<open>neg\<close>, rounded to an integer.\<close>

definition integral_mag :: "int \<Rightarrow> bool \<Rightarrow> int \<Rightarrow> int \<Rightarrow> int" where
  "integral_mag mode neg N D =
     (if mode = float_round_nearest_even then rne_div N D
      else if mode \<noteq> float_round_to_zero \<and> neg \<noteq> (mode = float_round_up) then (N + (D - 1)) div D
      else N div D)"

text \<open>Rounding up adds one to a quotient that is not exact.\<close>

lemma ceiling_div:
  fixes N D :: int
  assumes "0 < D"
  shows "(N + (D - 1)) div D = (if N mod D = 0 then N div D else N div D + 1)"
proof -
  obtain q r where N: "N = q * D + r" "0 \<le> r" "r < D" using int_split [OF assms] by blast
  have "N + (D - 1) = q * D + (D - 1)" if "r = 0" using that N by simp
  moreover have "N + (D - 1) = (q + 1) * D + (r - 1)" by (simp add: N algebra_simps)
  ultimately show ?thesis using div_mod_split [of "N + (D - 1)" q D "D - 1"] div_mod_split [of "N + (D - 1)" "q + 1" D "r - 1"]
      div_mod_split [OF N] assms N(2,3) by (cases "r = 0") simp_all
qed

lemma integral_mag_scale:
  assumes "0 < c" "0 < D"
  shows "integral_mag mode neg (N * c) (D * c) = integral_mag mode neg N D"
proof -
  have "N * c mod (D * c) = N mod D * c" using assms by (simp add: mult_mod_left)
  then show ?thesis using assms ceiling_div [of "D * c" "N * c"] ceiling_div [of D N] by (simp add: integral_mag_def rne_div_scale)
qed

lemma integral_mag_shift:
  assumes "0 < D" "even c"
  shows "integral_mag mode neg (c * D + N) D = c + integral_mag mode neg N D"
  using assms by (simp add: integral_mag_def rne_div_def Let_def add.assoc)

lemma integral_mag_exact:
  assumes "0 < D"
  shows "integral_mag mode neg (c * D) D = c"
  using assms by (simp add: integral_mag_def rne_div_def)

lemma integral_mag_between:
  assumes "0 < D" "A * D \<le> N" "N \<le> B * D"
  shows "A \<le> integral_mag mode neg N D" "integral_mag mode neg N D \<le> B"
proof -
  have "A \<le> N div D" using assms by (simp add: le_div_iff_mult_le)
  moreover have "N div D \<le> (N + (D - 1)) div D" using assms(1) by (intro zdiv_mono1) simp_all
  moreover have "N div D < B + 1" using assms by (intro int_div_lt) (simp_all add: algebra_simps)
  moreover have "(N + (D - 1)) div D < B + 1" using assms by (intro int_div_lt) (simp_all add: algebra_simps)
  ultimately show "A \<le> integral_mag mode neg N D" "integral_mag mode neg N D \<le> B"
    using rne_div_ge [OF assms(1,2)] rne_div_le [OF assms(1), of N B] assms by (simp_all add: integral_mag_def)
qed

lemma rne_div_trunc:
  fixes N h :: int
  assumes "0 < h"
  defines "D \<equiv> 2 * h" and "Y \<equiv> N + h"
  shows "rne_div N D * D = (if Y mod D = 0 then Y - (Y div D mod 2) * D else Y - Y mod D)"
proof -
  obtain q r where N: "N = q * D + r" "0 \<le> r" "r < D" using int_split [of D N] assms by auto
  note qr = div_mod_split [OF N]
  show ?thesis
  proof (cases "r < h")
    case True
    have "Y = q * D + (r + h)" by (simp add: Y_def N)
    from div_mod_split [OF this] True N have "Y div D = q" "Y mod D = r + h" by (simp_all add: D_def)
    then show ?thesis using True N assms(1) qr by (simp add: rne_div_def Let_def Y_def D_def)
  next
    case False
    have "Y = (q + 1) * D + (r - h)" by (simp add: Y_def N D_def algebra_simps)
    from div_mod_split [OF this] False N have "Y div D = q + 1" "Y mod D = r - h" by (simp_all add: D_def)
    then show ?thesis using False N assms(1) qr
      by (cases "even q") (auto simp: rne_div_def Let_def Y_def D_def algebra_simps mod2_eq_if)
  qed
qed

text \<open>
  Rounding a bit pattern with exponent field \<open>j + 1\<close> to a multiple of \<open>2 ^ k\<close> rounds its value to a multiple
  of \<open>2 ^ (k + j)\<close>; a carry out of the fraction goes into the exponent.
\<close>

lemma integral_pattern:
  fixes p k j :: nat and mode m S :: int and neg :: bool
  assumes "2 ^ p \<le> m" "m < 2 ^ (p + 1)" "k \<le> p" "k = p \<Longrightarrow> even j" "2 * 2 ^ k dvd S"
  defines "M \<equiv> int j * 2 ^ p + m" and "R \<equiv> integral_mag mode neg m (2 ^ k)"
  shows "integral_mag mode neg (S + M) (2 ^ k) * 2 ^ k = S + (int j * 2 ^ p + R * 2 ^ k)"
    "fval p (int j * 2 ^ p + R * 2 ^ k) = integral_mag mode neg (fval p M) (2 ^ (k + j)) * 2 ^ (k + j)"
    "2 ^ p \<le> R * 2 ^ k" "R * 2 ^ k \<le> 2 ^ (p + 1)"
    "(S + M) mod 2 ^ k = 0 \<longleftrightarrow> fval p M mod 2 ^ (k + j) = 0"
proof -
  obtain t where S: "S = 2 * t * 2 ^ k" using assms(5) by (auto elim: dvdE)
  obtain d where d: "p = k + d" using assms(3) le_Suc_ex by blast
  have c: "S + M = (2 * t + int j * 2 ^ d) * 2 ^ k + m" by (simp add: S M_def d power_add algebra_simps)
  have "even (2 * t + int j * 2 ^ d)" using assms(4) by (cases "d = 0") (simp_all add: d)
  from integral_mag_shift [OF _ this, of "2 ^ k" mode neg m, folded c]
  show "integral_mag mode neg (S + M) (2 ^ k) * 2 ^ k = S + (int j * 2 ^ p + R * 2 ^ k)"
    by (simp add: R_def S d power_add algebra_simps)
  have "2 ^ d * 2 ^ k \<le> m" "m \<le> 2 ^ (d + 1) * 2 ^ k" using assms(1,2) by (simp_all add: d power_add mult.commute mult.left_commute)
  from integral_mag_between [OF _ this, of mode neg, folded R_def] have R: "2 ^ d \<le> R" "R \<le> 2 ^ (d + 1)" by simp_all
  have "2 ^ d * 2 ^ k \<le> R * 2 ^ k" "R * 2 ^ k \<le> 2 ^ (d + 1) * 2 ^ k" using R by (intro mult_right_mono; simp)+
  then show b: "2 ^ p \<le> R * 2 ^ k" "R * 2 ^ k \<le> 2 ^ (p + 1)" by (simp_all add: d power_add mult.commute)
  have v: "fval p M = m * 2 ^ j" using fval_binade [OF assms(1), of j] assms(2) by (simp add: M_def)
  show "fval p (int j * 2 ^ p + R * 2 ^ k) = integral_mag mode neg (fval p M) (2 ^ (k + j)) * 2 ^ (k + j)"
    by (simp only: fval_binade [OF b]) (simp add: v R_def power_add integral_mag_scale)
  have "(S + M) mod 2 ^ k = m mod 2 ^ k" unfolding c by simp
  moreover have "m * 2 ^ j mod (2 ^ k * 2 ^ j) = m mod 2 ^ k * 2 ^ j" by (rule mult_mod_left [symmetric])
  ultimately show "(S + M) mod 2 ^ k = 0 \<longleftrightarrow> fval p M mod 2 ^ (k + j) = 0" by (simp add: v power_add)
qed

lemma integral_mag_eq_iff:
  assumes "0 < D"
  shows "integral_mag mode neg N D * D = N \<longleftrightarrow> N mod D = 0"
  using integral_mag_exact [OF assms, of mode neg "N div D"] by (metis minus_mod_eq_div_mult diff_zero mod_mult_self2_is_0)

text \<open>What is left of a number below one.\<close>

lemma integral_mag_fraction:
  assumes "0 \<le> N" "N < D"
  shows "integral_mag mode neg N D =
    (if N \<noteq> 0 \<and> (if mode = float_round_nearest_even then D < 2 * N else mode \<noteq> float_round_to_zero \<and> neg \<noteq> (mode = float_round_up))
     then 1 else 0)"
  using assms ceiling_div [of D N] by (auto simp: integral_mag_def rne_div_def)

lemma fval_exact_binade:
  assumes "1 \<le> k"
  shows "fval p (int k * 2 ^ p) = 2 ^ (p + k - 1)"
proof -
  obtain j where k: "k = Suc j" using assms by (cases k) simp_all
  show ?thesis using fval_binade [of p "2 ^ p" j] by (simp add: k algebra_simps power_add)
qed

section \<open>Rounded patterns and their values\<close>

context binary_format
begin

lemma integral_middle:
  fixes j k :: nat and mode m :: int
  assumes "mag a = int j * 2 ^ p + m" "2 ^ p \<le> m" "m < 2 ^ (p + 1)" "k \<le> p" "k = p \<Longrightarrow> even j" "1 \<le> w" "int j + 2 < 2 ^ w - 1"
    "bits z = integral_mag mode (negative a) (bits a) (2 ^ k) * 2 ^ k"
  shows "finite_number z" "negative z = negative a"
    "fval p (mag z) = integral_mag mode (negative a) (fval p (mag a)) (2 ^ (k + j)) * 2 ^ (k + j)"
    "bits z = bits a \<longleftrightarrow> fval p (mag a) mod 2 ^ (k + j) = 0"
proof -
  let ?M = "int j * 2 ^ p + integral_mag mode (negative a) m (2 ^ k) * 2 ^ k"
  have dvd: "2 * 2 ^ k dvd sign (negative a)"
    using le_imp_power_dvd [of "Suc k" "p + w" "2::int"] assms(4,6) by (simp add: sign_bit)
  note r = integral_pattern(1-4) [OF assms(2-5) dvd, where mode = mode and neg = "negative a", folded assms(1) bits_split]
  note r5 = integral_pattern(5) [OF assms(2-5) dvd, folded assms(1) bits_split]
  have z: "bits z = sign (negative a) + ?M" using assms(8) r(1) by simp
  have M0: "0 \<le> ?M" using r(3) by (simp add: order_trans [OF _ r(3)])
  have "?M \<le> (int j + 2) * 2 ^ p" using r(4) by (simp add: distrib_right)
  also have "\<dots> < (2 ^ w - 1) * 2 ^ p" using assms(7) by (intro mult_strict_right_mono) simp_all
  finally have M1: "?M < (2 ^ w - 1) * 2 ^ p" .
  from bits_inject [OF z M0] M1 infinity_less have zm: "mag z = ?M" and "negative z = negative a" by linarith+
  then show "negative z = negative a" by simp
  show "finite_number z" using M1 by (simp only: finite_iff zm)
  show "fval p (mag z) = integral_mag mode (negative a) (fval p (mag a)) (2 ^ (k + j)) * 2 ^ (k + j)" unfolding zm by (rule r(2))
  show "bits z = bits a \<longleftrightarrow> fval p (mag a) mod 2 ^ (k + j) = 0"
    using assms(8) r5 integral_mag_eq_iff [of "2 ^ k" mode "negative a" "bits a"] by simp
qed

text \<open>Integral numbers, and numbers below one, which become zero or one.\<close>

lemma integral_exact:
  assumes "finite_number a" "fval p (mag a) mod D = 0" "0 < D"
  shows "fval p (mag a) = integral_mag mode (negative a) (fval p (mag a)) D * D"
  using integral_mag_eq_iff [OF assms(3), of mode "negative a" "fval p (mag a)"] assms(2) by simp

lemma integral_small:
  assumes "fval p (mag a) < 2 ^ u" "1 \<le> e" "int e < 2 ^ w - 1" "p + e = u + 1"
    "mag z = (if integral_mag mode (negative a) (fval p (mag a)) (2 ^ u) = 1 then int e * 2 ^ p else 0)"
  shows "finite_number z" "fval p (mag z) = integral_mag mode (negative a) (fval p (mag a)) (2 ^ u) * 2 ^ u"
proof -
  have "int e * 2 ^ p < (2 ^ w - 1) * 2 ^ p" using assms(3) by (intro mult_strict_right_mono) simp_all
  moreover have "0 < (2 ^ w - 1) * (2 ^ p :: int)" using assms(3) by simp
  ultimately show "finite_number z" using assms(5) by (simp add: finite_iff)
  have "u = p + e - 1" using assms(4) by simp
  then have "fval p (int e * 2 ^ p) = 2 ^ u" using fval_exact_binade [OF assms(2), of p] by simp
  moreover have "fval p 0 = 0" by (simp add: fval_def)
  moreover note integral_mag_fraction [OF fval_nonneg [OF mag_nonneg] assms(1), of mode "negative a"]
  ultimately show "fval p (mag z) = integral_mag mode (negative a) (fval p (mag a)) (2 ^ u) * 2 ^ u"
    using assms(5) by (simp split: if_splits)
qed

end

section \<open>Words rounded with masks\<close>

text \<open>The masks of the code round a word to a multiple of \<open>2 ^ k\<close>.\<close>

definition round_word :: "int \<Rightarrow> bool \<Rightarrow> nat \<Rightarrow> 'a::len word \<Rightarrow> 'a word" where
  "round_word mode neg k a =
     (if mode = float_round_nearest_even
      then let z = a + 2 ^ (k - 1) in if z AND mask k = 0 then z AND NOT (2 ^ k) else z
      else if mode \<noteq> float_round_to_zero \<and> neg \<noteq> (mode = float_round_up) then a + mask k else a) AND NOT (mask k)"

lemma uint_round_word:
  fixes a :: "'a::len word"
  assumes "1 \<le> k" "k < LENGTH('a)" "uint a + 2 ^ k \<le> 2 ^ LENGTH('a)"
  shows "uint (round_word mode neg k a) = integral_mag mode neg (uint a) (2 ^ k) * 2 ^ k"
proof (cases "mode = float_round_nearest_even")
  case True
  define h where "h = (2 ^ (k - 1) :: int)"
  have h: "0 < h" "2 ^ k = 2 * h" using assms(1) power_Suc [of "2::int" "k - 1"] by (simp_all add: h_def)
  define z where "z = a + 2 ^ (k - 1)"
  have u: "uint (2 ^ (k - 1) :: 'a word) = h" using assms(2) uint_exp [of "k - 1", where 'a = 'a] by (simp add: h_def)
  then have z: "uint z = uint a + h" unfolding z_def by (subst uint_plus_exact) (use assms(3) h in simp_all)
  have "round_word mode neg k a = (if uint z mod 2 ^ k = 0 then z AND NOT (2 ^ k) else z) AND NOT (mask k)"
    by (simp only: round_word_def True if_True Let_def z_def mask_eq_0_iff simp_thms)
  moreover have "(uint z - q * 2 ^ k) mod 2 ^ k = uint z mod 2 ^ k" for q by (metis mod_diff_right_eq mod_mult_self2_is_0 diff_zero)
  ultimately have "uint (round_word mode neg k a) =
      (if uint z mod 2 ^ k = 0 then uint z - (uint z div 2 ^ k mod 2) * 2 ^ k else uint z - uint z mod 2 ^ k)"
    by (cases "uint z mod 2 ^ k = 0") (simp_all only: uint_and_not_mask uint_and_not_exp [OF assms(2)] if_True if_False diff_zero simp_thms)
  then show ?thesis using True rne_div_trunc [OF h(1), of "uint a", folded h(2) z] by (simp add: integral_mag_def)
next
  case False
  have "uint (a + mask k) = uint a + (2 ^ k - 1)" using assms(2,3) by (subst uint_plus_exact) (simp_all add: uint_mask)
  then show ?thesis using False by (simp add: round_word_def integral_mag_def uint_and_not_mask minus_mod_eq_div_mult)
qed

section \<open>Single precision\<close>

lemma mask_code:
  assumes "1 \<le> n" "n < 32"
  shows "c_shl 1 (int n) = (2 ^ n :: bits32)" "(2 ^ n :: bits32) - 1 = mask n" "c_shr (2 ^ n :: bits32) 1 = 2 ^ (n - 1)"
proof -
  show "c_shl 1 (int n) = (2 ^ n :: bits32)" by (rule c_shl_1)
  show "(2 ^ n :: bits32) - 1 = mask n" by (simp add: mask_eq_exp_minus_1)
  obtain m where m: "n = Suc m" using assms by (cases n) simp_all
  have "uint (2 ^ n :: bits32) = 2 ^ n" "uint (2 ^ (n - 1) :: bits32) = 2 ^ (n - 1)"
    using assms uint_exp [of n, where 'a = 32] uint_exp [of "n - 1", where 'a = 32] by simp_all
  then have "uint (c_shr (2 ^ n :: bits32) 1) = uint (2 ^ (n - 1) :: bits32)"
    by (simp only: uint_c_shr zero_le_one) (simp add: m)
  then show "c_shr (2 ^ n :: bits32) 1 = 2 ^ (n - 1)" by (simp add: word_uint_eq_iff)
qed

lemma float32_integral_middle:
  fixes mode :: int
  assumes "0x7F \<le> extractFloat32Exp a" "extractFloat32Exp a \<le> 0x95"
  defines "z \<equiv> round_word mode (extractFloat32Sign a) (nat (0x96 - extractFloat32Exp a)) a"
  shows "finite32 z" "extractFloat32Sign z = extractFloat32Sign a"
    "abs32 z = integral_mag mode (extractFloat32Sign a) (abs32 a) (2 ^ 149) * 2 ^ 149"
    "z = a \<longleftrightarrow> abs32 a mod 2 ^ 149 = 0"
proof -
  let ?sg = "extractFloat32Sign a" and ?E = "extractFloat32Exp a"
  define k j where "k = nat (0x96 - ?E)" and "j = nat (?E - 1)"
  define m where "m = 2 ^ 23 + uint (extractFloat32Frac a)"
  have kj: "k + j = 149" "k \<le> 23" "1 \<le> k" "int j = ?E - 1" using assms(1,2) by (auto simp: k_def j_def)
  have "k = 23 \<Longrightarrow> j = 126" using kj(1) by simp
  then have jeven: "k = 23 \<Longrightarrow> even j" by simp
  have m: "2 ^ 23 \<le> m" "m < 2 ^ (23 + 1)" using float32_ranges(3) [of a] by (simp_all add: m_def)
  have M: "mag32 a = int j * 2 ^ 23 + m" by (simp add: mag32_split kj(4) m_def)
  have "uint a + 2 ^ k \<le> 2 ^ LENGTH(32)"
    using binary32.bits_split [of a] M m kj(2) assms(2) power_increasing [OF kj(2), of "2::int"] by (simp add: sign32_def kj(4))
  then have "uint z = integral_mag mode ?sg (uint a) (2 ^ k) * 2 ^ k"
    unfolding z_def k_def [symmetric] using kj(2,3) by (simp add: uint_round_word)
  from binary32.integral_middle [OF M m kj(2) jeven _ _ this, unfolded kj(1)] assms(2) kj(4)
  show "finite32 z" "extractFloat32Sign z = ?sg" "abs32 z = integral_mag mode ?sg (abs32 a) (2 ^ 149) * 2 ^ 149"
    "z = a \<longleftrightarrow> abs32 a mod 2 ^ 149 = 0" by (simp_all add: word_uint_eq_iff)
qed

lemma float32_round_to_int_middle:
  fixes s :: fp_env
  assumes "0x7F \<le> extractFloat32Exp a" "extractFloat32Exp a \<le> 0x95"
  defines "z \<equiv> round_word (float_rounding_mode s) (extractFloat32Sign a) (nat (0x96 - extractFloat32Exp a)) a"
  shows "float32_round_to_int a s = (z, raise_if (z \<noteq> a) float_flag_inexact s)"
proof -
  define n where "n = nat (0x96 - extractFloat32Exp a)"
  have n: "1 \<le> n" "n < 32" "0x96 - extractFloat32Exp a = int n" using assms(1,2) by (auto simp: n_def)
  have c: "(0x96 \<le> extractFloat32Exp a) = False" "(extractFloat32Exp a \<le> 0x7E) = False" using assms(1,2) by simp_all
  have z: "z = round_word (float_rounding_mode s) (extractFloat32Sign a) n a" by (simp only: z_def n_def)
  show ?thesis
    unfolding float32_round_to_int_def Let_def c if_False n(3) mask_code [OF n(1,2)] z round_word_def
    by (simp cong: if_cong)
qed

lemma packFloat32_pattern:
  assumes "0 \<le> k" "k < 0xFF"
  shows "mag32 (packFloat32 sg k 0) = k * 2 ^ 23" "extractFloat32Sign (packFloat32 sg k 0) = sg"
proof -
  have "uint (packFloat32 sg k 0) = sign32 sg + k * 2 ^ 23" using packFloat32_finite [of k 0 sg] assms by (simp add: sign32_def)
  from binary32.bits_inject [OF this] assms show "mag32 (packFloat32 sg k 0) = k * 2 ^ 23" "extractFloat32Sign (packFloat32 sg k 0) = sg"
    by simp_all
qed

lemma float32_integral_small:
  fixes s :: fp_env
  assumes "extractFloat32Exp a \<le> 0x7E" "0 \<le> float_rounding_mode s" "float_rounding_mode s \<le> 3"
  shows "float32_round_to_int a s =
    (packFloat32 (extractFloat32Sign a)
       (if integral_mag (float_rounding_mode s) (extractFloat32Sign a) (abs32 a) (2 ^ 149) = 1 then 0x7F else 0) 0,
     raise_if (abs32 a \<noteq> 0) float_flag_inexact s)" and "abs32 a < 2 ^ 149"
proof -
  let ?E = "extractFloat32Exp a" and ?sg = "extractFloat32Sign a"
  have v: "abs32 a = sig32 a * 2 ^ nat (exp32 a - 1)" by (rule abs32_sig)
  have e: "nat (exp32 a - 1) \<le> 125" using assms(1) by (auto simp: exp32_def)
  have le: "abs32 a \<le> sig32 a * 2 ^ 125"
    unfolding v using e sig32_ranges(1) [of a] by (intro mult_left_mono power_increasing) simp_all
  then show lt: "abs32 a < 2 ^ 149" using sig32_ranges(2) [of a] by simp
  have half: "2 ^ 149 < 2 * abs32 a \<longleftrightarrow> ?E = 0x7E \<and> extractFloat32Frac a \<noteq> 0"
  proof (cases "?E = 0x7E")
    case True
    then have "abs32 a = (2 ^ 23 + uint (extractFloat32Frac a)) * 2 ^ 125" by (simp add: v sig32_def exp32_def)
    then show ?thesis using True uint_pos [of "extractFloat32Frac a"] by auto
  next
    case False
    then have "nat (exp32 a - 1) \<le> 124" using assms(1) by (auto simp: exp32_def)
    then have "abs32 a \<le> sig32 a * 2 ^ 124"
      unfolding v using sig32_ranges(1) [of a] by (intro mult_left_mono power_increasing) simp_all
    then show ?thesis using False sig32_ranges(2) [of a] by simp
  qed
  have mag0: "abs32 a = 0 \<longleftrightarrow> mag32 a = 0"
    using abs32_0_iff [of a] float32_ranges(1,3) [of a] mag32_split [of a] by (auto simp: add_nonneg_eq_0_iff uint_0_iff)
  have "c_shl a 1 = 0 \<longleftrightarrow> mag32 a = 0" unfolding uint_c_shl_0_iff mag32_def using mult_mod_left [of "uint a" "2 ^ 31" 2, symmetric] by simp
  then have z: "c_shl a 1 = 0 \<longleftrightarrow> abs32 a = 0" by (simp only: mag0)
  have r: "float_rounding_mode (float_raise f s) = float_rounding_mode s" for f by (simp add: float_raise_def)
  have c: "packFloat32 True 0x7F 0 = 0xBF800000" "packFloat32 False 0 0 = 0" "packFloat32 True 0 0 = 0x80000000"
    "packFloat32 False 0x7F 0 = 0x3F800000" by code_simp+
  have big: "(0x96 \<le> ?E) = False" "(?E \<le> 0x7E) = True" using assms(1) by simp_all
  have m: "float_rounding_mode s \<in> {0, 1, 2, 3}" using assms(2,3) by auto
  show "float32_round_to_int a s = (packFloat32 ?sg (if integral_mag (float_rounding_mode s) ?sg (abs32 a) (2 ^ 149) = 1 then 0x7F else 0) 0,
     raise_if (abs32 a \<noteq> 0) float_flag_inexact s)"
  proof (cases "abs32 a = 0")
    case True
    have "uint (packFloat32 ?sg 0 0) = uint a"
      using True packFloat32_finite [of 0 0 ?sg] binary32.bits_split [of a] by (simp add: mag0 sign32_def)
    then have "packFloat32 ?sg 0 0 = a" by (simp add: word_uint_eq_iff)
    moreover have "(c_shl a 1 = 0) = True" using True by (simp add: z)
    ultimately show ?thesis using True
      unfolding float32_round_to_int_def Let_def big if_False if_True
      by (simp add: integral_mag_fraction raise_if_def)
  next
    case False
    then have z': "(c_shl a 1 = 0) = False" by (simp add: z)
    show ?thesis
      unfolding float32_round_to_int_def Let_def big z' if_False if_True r integral_mag_fraction [OF fval_nonneg [OF float32_ranges(4)] lt] half raise_if_def
      using m False by (cases ?sg) (auto simp: c)
  qed
qed

text \<open>Numbers from \<open>2 ^ 23\<close> on are integral.\<close>

lemma float32_integral_large:
  assumes "0x96 \<le> extractFloat32Exp a"
  shows "abs32 a mod 2 ^ 149 = 0"
proof -
  have "nat (exp32 a - 1) = nat (exp32 a - 0x96) + 149" using assms by (simp add: exp32_def)
  then show ?thesis by (simp add: abs32_sig power_add)
qed

text \<open>
  \<open>float32_round_to_int\<close> of every finite number in each of the four rounding modes: the result is finite, has
  the sign of the operand and the magnitude rounded to a multiple of one, and the inexact flag is raised
  exactly when the operand is not integral.
\<close>

theorem float32_round_to_int_correct:
  fixes s :: fp_env
  assumes "finite32 a" "0 \<le> float_rounding_mode s" "float_rounding_mode s \<le> 3"
  shows "finite32 (fst (float32_round_to_int a s)) \<and>
    extractFloat32Sign (fst (float32_round_to_int a s)) = extractFloat32Sign a \<and>
    abs32 (fst (float32_round_to_int a s)) = integral_mag (float_rounding_mode s) (extractFloat32Sign a) (abs32 a) (2 ^ 149) * 2 ^ 149 \<and>
    snd (float32_round_to_int a s) = raise_if (abs32 a mod 2 ^ 149 \<noteq> 0) float_flag_inexact s"
proof -
  let ?E = "extractFloat32Exp a" and ?sg = "extractFloat32Sign a" and ?m = "float_rounding_mode s" and ?r = "float32_round_to_int a s"
  consider "0x96 \<le> ?E" | "?E \<le> 0x7E" | "0x7F \<le> ?E" "?E \<le> 0x95" by linarith
  then show ?thesis
  proof cases
    case 1
    have "?r = (a, s)" using 1 assms(1) by (simp add: float32_round_to_int_def finite32_def)
    then show ?thesis
      using assms(1) float32_integral_large [OF 1] binary32.integral_exact [OF assms(1) float32_integral_large [OF 1], where mode = ?m]
      by (simp only: fst_conv snd_conv) (simp add: raise_if_def)
  next
    case 2
    note sm = float32_integral_small [OF 2 assms(2,3)]
    have n: "abs32 a mod 2 ^ 149 = abs32 a" using sm(2) fval_nonneg [OF float32_ranges(4), of 23 a] by simp
    let ?z = "packFloat32 ?sg (if integral_mag ?m ?sg (abs32 a) (2 ^ 149) = 1 then 0x7F else 0) 0"
    have z: "mag32 ?z = (if integral_mag ?m ?sg (abs32 a) (2 ^ 149) = 1 then int 0x7F * 2 ^ 23 else 0)" "extractFloat32Sign ?z = ?sg"
      using packFloat32_pattern [of "0x7F" ?sg] packFloat32_pattern [of 0 ?sg] by simp_all
    show ?thesis using binary32.integral_small [OF sm(2) _ _ _ z(1)] z(2) unfolding sm(1) n fst_conv snd_conv by simp
  next
    case 3
    show ?thesis unfolding float32_round_to_int_middle [OF 3] fst_conv snd_conv
      using float32_integral_middle [OF 3, of ?m] by simp
  qed
qed

theorem float32_round_to_int_correct_witness:
  "fst (float32_round_to_int 0x40200000 fp_init) = 0x40000000 \<and>
   snd (float32_round_to_int 0x40200000 fp_init) = float_raise float_flag_inexact fp_init"
proof -
  have a: "finite32 0x40200000" "0 \<le> float_rounding_mode fp_init" "float_rounding_mode fp_init \<le> 3" "abs32 0x40200000 mod 2 ^ 149 \<noteq> 0"
    "fst (float32_round_to_int 0x40200000 fp_init) = 0x40000000" by code_simp+
  from float32_round_to_int_correct [OF a(1-3)] a(4,5) show ?thesis by (simp add: raise_if_def)
qed

section \<open>Double precision\<close>

lemma pair_div_mod:
  fixes l :: bits32 and h c :: int
  assumes "0 < c"
  shows "(h * 2 ^ 32 + uint l) div (c * 2 ^ 32) = h div c" "(h * 2 ^ 32 + uint l) mod (c * 2 ^ 32) = h mod c * 2 ^ 32 + uint l"
proof -
  have e: "h * 2 ^ 32 + uint l = h div c * (c * 2 ^ 32) + (h mod c * 2 ^ 32 + uint l)"
    using div_mult_mod_eq [of h c] by (metis add.assoc distrib_right mult.assoc)
  have "0 \<le> h mod c" "h mod c < c" "uint l < 2 ^ 32" using assms uint_lt2p [of l] by simp_all
  from div_mod_split [OF e] carry_lt [OF this(2,3)] this(1)
  show "(h * 2 ^ 32 + uint l) div (c * 2 ^ 32) = h div c" "(h * 2 ^ 32 + uint l) mod (c * 2 ^ 32) = h mod c * 2 ^ 32 + uint l" by simp_all
qed

text \<open>
  The units bit in the high word (\<open>1 <= k <= 20\<close>): the low word counts only by being zero or not.
\<close>

definition round_high :: "int \<Rightarrow> bool \<Rightarrow> nat \<Rightarrow> bits32 \<Rightarrow> bits32 \<Rightarrow> bits32" where
  "round_high mode neg k h l =
     (if mode = float_round_nearest_even
      then let z = h + 2 ^ (k - 1) in if (z AND mask k) OR l = 0 then z AND NOT (2 ^ k) else z
      else if mode \<noteq> float_round_to_zero \<and> neg \<noteq> (mode = float_round_up) then (h OR bit_of (l \<noteq> 0)) + mask k
      else h) AND NOT (mask k)"

lemma uint_round_high:
  assumes "1 \<le> k" "k < 32" "uint h + 2 ^ (k + 1) \<le> 2 ^ 32"
  shows "uint (round_high mode neg k h l) = integral_mag mode neg (val64 (h, l)) (2 ^ (k + 32)) * 2 ^ k"
proof -
  have D: "(2::int) ^ (k + 32) = 2 ^ k * 2 ^ 32" by (rule power_add)
  note dm = pair_div_mod [of "2 ^ k" _ l, unfolded D [symmetric]]
  consider "mode = float_round_nearest_even" | "mode \<noteq> float_round_nearest_even \<and> mode \<noteq> float_round_to_zero \<and> neg \<noteq> (mode = float_round_up)"
    | "mode \<noteq> float_round_nearest_even \<and> \<not> (mode \<noteq> float_round_to_zero \<and> neg \<noteq> (mode = float_round_up))" by blast
  then show ?thesis
  proof cases
    case 1
    define c where "c = (2 ^ (k - 1) :: int)"
    have c: "0 < c" "2 ^ k = 2 * c" using assms(1) power_Suc [of "2::int" "k - 1"] by (simp_all add: c_def)
    define z where "z = h + 2 ^ (k - 1)"
    have "uint (2 ^ (k - 1) :: bits32) = c" using assms(2) uint_exp [of "k - 1", where 'a = 32] by (simp add: c_def)
    then have z: "uint z = uint h + c" unfolding z_def by (subst uint_plus_exact) (use assms(3) c in simp_all)
    have t: "(z AND mask k) OR l = 0 \<longleftrightarrow> uint z mod 2 ^ k * 2 ^ 32 + uint l = 0"
      using mask_eq_0_iff [of z k] pos_mod_sign [of "2 ^ k" "uint z"] by (auto simp: or_eq_0_iff add_nonneg_eq_0_iff uint_0_iff)
    have m: "(uint z - q * 2 ^ k) mod 2 ^ k = uint z mod 2 ^ k" for q by (metis mod_diff_right_eq mod_mult_self2_is_0 diff_zero)
    have "round_high mode neg k h l = (if uint z mod 2 ^ k * 2 ^ 32 + uint l = 0 then z AND NOT (2 ^ k) else z) AND NOT (mask k)"
      by (simp only: round_high_def 1 if_True Let_def z_def [symmetric] t simp_thms)
    moreover have zero: "uint z mod 2 ^ k = 0" "uint l = 0" if "uint z mod 2 ^ k * 2 ^ 32 + uint l = 0"
      using that pos_mod_sign [of "2 ^ k" "uint z"] by (simp_all add: add_nonneg_eq_0_iff)
    ultimately have r: "uint (round_high mode neg k h l) =
        (if uint z mod 2 ^ k * 2 ^ 32 + uint l = 0 then uint z - (uint z div 2 ^ k mod 2) * 2 ^ k else uint z - uint z mod 2 ^ k)"
      using assms(2) by (simp add: uint_and_not_mask uint_and_not_exp m)
    have Y: "val64 (h, l) + c * 2 ^ 32 = uint z * 2 ^ 32 + uint l" by (simp add: val64_def z algebra_simps)
    have c32: "2 * (c * 2 ^ 32) = 2 ^ (k + 32)" "0 < c * 2 ^ 32" using c by (simp_all add: D)
    have "rne_div (val64 (h, l)) (2 ^ (k + 32)) * 2 ^ (k + 32) = uint (round_high mode neg k h l) * 2 ^ 32"
      unfolding rne_div_trunc [OF c32(2), unfolded c32(1)] Y r using dm [of "uint z"] zero
      by (cases "uint z mod 2 ^ k * 2 ^ 32 + uint l = 0") (simp_all add: D left_diff_distrib)
    then show ?thesis using 1 by (simp add: integral_mag_def D)
  next
    case 2
    define H where "H = h OR bit_of (l \<noteq> 0)"
    have H: "uint H = jam_div (val64 (h, l)) (2 ^ 32)" unfolding H_def by (rule uint_jam_low)
    have s: "sticks k (uint H) (val64 (h, l)) (2 ^ 32)" unfolding H using assms(1) by (intro sticks_jam) simp_all
    have "uint h + 2 * 2 ^ k \<le> 2 ^ 32" "uint H \<le> uint h + 1" "1 \<le> (2::int) ^ k"
      using assms(3) by (simp_all add: H_def uint_or_bit_of)
    then have "uint H + (2 ^ k - 1) < 2 ^ 32" by linarith
    then have "uint (H + mask k) = uint H + (2 ^ k - 1)" using assms(2) by (subst uint_plus_exact) (simp_all add: uint_mask)
    then have "uint (round_high mode neg k h l) = (uint H + (2 ^ k - 1)) div 2 ^ k * 2 ^ k"
      using 2 by (simp add: round_high_def H_def [symmetric] uint_and_not_mask minus_mod_eq_div_mult)
    also have "(uint H + (2 ^ k - 1)) div 2 ^ k = (val64 (h, l) + (2 ^ (k + 32) - 1)) div 2 ^ (k + 32)"
      using s ceiling_div [of "2 ^ k" "uint H"] ceiling_div [of "2 ^ (k + 32)" "val64 (h, l)"]
      by (simp add: sticks_def D mult.commute)
    finally show ?thesis using 2 by (simp add: integral_mag_def)
  next
    case 3
    then have "round_high mode neg k h l = h AND NOT (mask k)" by (auto simp: round_high_def)
    then show ?thesis using 3 dm by (auto simp: integral_mag_def val64_def D uint_and_not_mask minus_mod_eq_div_mult)
  qed
qed

text \<open>The units bit is bit \<open>K\<close> of the low word or, for \<open>K = 32\<close>, the lowest bit of the high word.\<close>

definition round_low :: "int \<Rightarrow> bool \<Rightarrow> nat \<Rightarrow> bits32 \<Rightarrow> bits32 \<Rightarrow> bits32 \<times> bits32" where
  "round_low mode neg K h l =
     (let (zh, zl) =
        (if mode = float_round_nearest_even
         then if (2 ^ K :: bits32) \<noteq> 0
              then let (zh, zl) = add64 h l 0 (c_shr (2 ^ K) 1)
                   in (zh, if zl AND mask K = 0 then zl AND NOT (2 ^ K) else zl)
              else if sint l < 0 then let zh = h + 1 in (if c_shl l 1 = 0 then zh AND NOT 1 else zh, l)
              else (h, l)
         else if mode \<noteq> float_round_to_zero \<and> neg \<noteq> (mode = float_round_up) then add64 h l 0 (mask K)
         else (h, l))
      in (zh, zl AND NOT (mask K)))"

lemma val64_truncate:
  assumes "K \<le> 32"
  shows "val64 (h, l AND NOT (mask K)) = val64 (h, l) - val64 (h, l) mod 2 ^ K" "val64 (h, l) mod 2 ^ K = uint l mod 2 ^ K"
    "K < 32 \<Longrightarrow> val64 (h, l) div 2 ^ K mod 2 = uint l div 2 ^ K mod 2"
proof -
  have "(2::int) ^ 32 = 2 ^ (32 - K) * 2 ^ K" using assms by (simp flip: power_add)
  then have e: "val64 (h, l) = uint h * 2 ^ (32 - K) * 2 ^ K + uint l" by (simp only: val64_def prod.case mult.assoc)
  then show m: "val64 (h, l) mod 2 ^ K = uint l mod 2 ^ K" by simp
  show "val64 (h, l AND NOT (mask K)) = val64 (h, l) - val64 (h, l) mod 2 ^ K"
    unfolding m by (simp add: val64_def uint_and_not_mask)
  assume "K < 32"
  then have "even (2 ^ (32 - K) :: int)" by simp
  then show "val64 (h, l) div 2 ^ K mod 2 = uint l div 2 ^ K mod 2" unfolding e by (simp add: mod_2_eq_odd)
qed

lemma val64_round_low:
  assumes "1 \<le> K" "K \<le> 32" "val64 (h, l) + 2 ^ K \<le> 2 ^ 64"
  shows "val64 (round_low mode neg K h l) = integral_mag mode neg (val64 (h, l)) (2 ^ K) * 2 ^ K"
proof -
  have add: "val64 (add64 h l 0 b) = val64 (h, l) + uint b" if "uint b < 2 ^ K" for b
  proof -
    have "val64 (0, b) = uint b" by (simp add: val64_def)
    moreover have "0 \<le> val64 (h, l) + uint b" using val64_nonneg [of h l] by simp
    moreover have "val64 (h, l) + uint b < 2 ^ 64" using that assms(3) by linarith
    ultimately show ?thesis by (simp only: val64_add64 mod_pos_pos_trivial)
  qed
  have mask: "uint (mask K :: bits32) = 2 ^ K - 1" using assms(2) by (simp add: uint_mask)
  consider "mode = float_round_nearest_even" "K < 32" | "mode = float_round_nearest_even" "K = 32"
    | "mode \<noteq> float_round_nearest_even \<and> mode \<noteq> float_round_to_zero \<and> neg \<noteq> (mode = float_round_up)"
    | "mode \<noteq> float_round_nearest_even \<and> \<not> (mode \<noteq> float_round_to_zero \<and> neg \<noteq> (mode = float_round_up))"
    using assms(2) by linarith
  then show ?thesis
  proof cases
    case 1
    define c where "c = (2 ^ (K - 1) :: int)"
    have c: "0 < c" "2 * c = 2 ^ K" using assms(1) power_Suc [of "2::int" "K - 1"] by (simp_all add: c_def)
    have "uint (2 ^ (K - 1) :: bits32) = c" using 1(2) uint_exp [of "K - 1", where 'a = 32] by (simp add: c_def)
    then have cw: "uint (c_shr (2 ^ K :: bits32) 1) = c" using mask_code(3) [OF assms(1) 1(2)] by simp
    obtain zh zl where z: "add64 h l 0 (c_shr (2 ^ K) 1) = (zh, zl)" by fastforce
    have Y: "val64 (zh, zl) = val64 (h, l) + c" using add [of "c_shr (2 ^ K) 1"] z c cw by simp
    have nz: "((2 ^ K :: bits32) \<noteq> 0) = True" using 1(2) exp_ne_0 [of K, where 'a = 32] by simp
    define zl' where "zl' = (if zl AND mask K = 0 then zl AND NOT (2 ^ K) else zl)"
    have r: "round_low mode neg K h l = (zh, zl' AND NOT (mask K))"
      unfolding round_low_def nz z Let_def zl'_def by (simp add: 1)
    note t = val64_truncate [of K zh zl, OF assms(2)] and t' = val64_truncate(1,2) [of K zh zl', OF assms(2)]
    have "val64 (zh, zl' AND NOT (mask K)) =
      (if val64 (zh, zl) mod 2 ^ K = 0 then val64 (zh, zl) - val64 (zh, zl) div 2 ^ K mod 2 * 2 ^ K else val64 (zh, zl) - val64 (zh, zl) mod 2 ^ K)"
    proof (cases "val64 (zh, zl) mod 2 ^ K = 0")
      case True
      then have zl': "zl' = zl AND NOT (2 ^ K)" by (simp add: zl'_def mask_eq_0_iff t(2))
      have "uint zl' = uint zl - uint zl div 2 ^ K mod 2 * 2 ^ K" unfolding zl' using 1(2) by (simp add: uint_and_not_exp)
      then have v: "val64 (zh, zl') = val64 (zh, zl) - val64 (zh, zl) div 2 ^ K mod 2 * 2 ^ K"
        by (simp add: t(3) [OF 1(2)]) (simp add: val64_def)
      have "val64 (zh, zl') mod 2 ^ K = val64 (zh, zl) mod 2 ^ K" unfolding v by (metis mod_diff_right_eq mod_mult_self2_is_0 diff_zero)
      then show ?thesis using True v by (simp add: t'(1))
    next
      case False
      then have "zl' = zl" by (simp add: zl'_def mask_eq_0_iff t(2))
      then show ?thesis using False by (simp add: t(1))
    qed
    then show ?thesis using 1(1) unfolding r Y by (simp add: integral_mag_def rne_div_trunc [OF c(1), unfolded c(2)])
  next
    case 2
    have z: "((2 ^ K :: bits32) \<noteq> 0) = False" using 2(2) by simp
    have t: "c_shl l 1 = 0 \<longleftrightarrow> uint l = 0 \<or> uint l = 2 ^ 31"
      unfolding uint_c_shl_0_iff double_word_0 [symmetric] by (simp add: word_uint_eq_iff uint_word_ariths mult.commute)
    have h: "uint (h + 1) = uint h + 1" if "2 ^ 31 \<le> uint l"
      using that assms(3) 2(2) by (intro uint_plus_exact [THEN trans]) (simp_all add: val64_def)
    have clear: "uint (h + 1 AND NOT 1) = uint (h + 1) - uint (h + 1) mod 2" using uint_clear_low [of "h + 1" True] by simp
    have m: "w AND NOT (mask 32) = 0" for w :: bits32 by (rule bit_word_eqI) (auto simp: bit_simps)
    have "val64 (round_low mode neg K h l) = rne_div (uint h * 2 ^ 32 + uint l) (2 ^ 32) * 2 ^ 32"
      unfolding rne_div_word [OF uint_ge_0] round_low_def z Let_def sint32_neg_iff t 2
      using h clear m by (auto simp: val64_def)
    then show ?thesis using 2 by (simp add: integral_mag_def val64_def)
  next
    case 3
    obtain zh zl where z: "add64 h l 0 (mask K) = (zh, zl)" by fastforce
    have "round_low mode neg K h l = (zh, zl AND NOT (mask K))" using 3 by (simp add: round_low_def z)
    moreover have "val64 (zh, zl) = val64 (h, l) + (2 ^ K - 1)" using add [of "mask K"] z mask by simp
    ultimately show ?thesis using 3 by (simp add: val64_truncate(1) [OF assms(2)] integral_mag_def minus_mod_eq_div_mult)
  next
    case 4
    then have "round_low mode neg K h l = (h, l AND NOT (mask K))" by (auto simp: round_low_def)
    then show ?thesis using 4 by (auto simp: val64_truncate(1) [OF assms(2)] integral_mag_def minus_mod_eq_div_mult)
  qed
qed

lemma bits_f64_eq_iff: "bits_f64 x = bits_f64 y \<longleftrightarrow> x = y"
  unfolding bits_f64_def val64_inject by (auto intro: float64.equality)

definition middle64 :: "int \<Rightarrow> float64 \<Rightarrow> float64" where
  "middle64 mode a =
     (if 0x413 \<le> extractFloat64Exp a
      then let (zh, zl) = round_low mode (extractFloat64Sign a) (nat (0x433 - extractFloat64Exp a)) (high a) (low a)
           in \<lparr>low = zl, high = zh\<rparr>
      else \<lparr>low = 0, high = round_high mode (extractFloat64Sign a) (nat (0x413 - extractFloat64Exp a)) (high a) (low a)\<rparr>)"

lemma bits_middle64:
  assumes "0x3FF \<le> extractFloat64Exp a" "extractFloat64Exp a \<le> 0x432"
  shows "bits_f64 (middle64 mode a) =
    integral_mag mode (extractFloat64Sign a) (bits_f64 a) (2 ^ nat (0x433 - extractFloat64Exp a)) * 2 ^ nat (0x433 - extractFloat64Exp a)"
proof -
  let ?sg = "extractFloat64Sign a" and ?E = "extractFloat64Exp a"
  have M: "mag64 a < (?E + 1) * 2 ^ 52" using frac64_range(2) [of a] by (simp add: mag64_frac distrib_right)
  have b: "bits_f64 a = sign64 ?sg + mag64 a" by (rule bits_f64_split)
  have "mag64 a < 0x433 * 2 ^ 52" using M assms(2) by simp
  then have top: "bits_f64 a < 2 ^ 63 + 0x433 * 2 ^ 52" by (simp add: b sign64_def)
  show ?thesis
  proof (cases "0x413 \<le> ?E")
    case True
    define K where "K = nat (0x433 - ?E)"
    have K: "1 \<le> K" "K \<le> 32" using True assms(2) by (auto simp: K_def)
    obtain zh zl where z: "round_low mode ?sg K (high a) (low a) = (zh, zl)" by fastforce
    have "(2::int) ^ K \<le> 2 ^ 32" using K(2) by (intro power_increasing) simp_all
    then have "val64 (high a, low a) + 2 ^ K \<le> 2 ^ 64" using top by (simp add: bits_f64_def)
    from val64_round_low [OF K this, of mode ?sg] show ?thesis
      using True by (simp add: middle64_def K_def [symmetric] z bits_f64_def)
  next
    case False
    define k where "k = nat (0x413 - ?E)"
    have k: "1 \<le> k" "k \<le> 20" "nat (0x433 - ?E) = k + 32" using False assms(1) by (auto simp: k_def)
    have "(2::int) ^ (k + 1) \<le> 2 ^ 21" using k(2) by (intro power_increasing) simp_all
    moreover have "uint (high a) * 2 ^ 32 + uint (low a) < (2 ^ 31 + 0x433 * 2 ^ 20) * 2 ^ 32" using top by (simp add: bits_f64_def val64_def)
    then have "uint (high a) < 2 ^ 31 + 0x433 * 2 ^ 20" by (rule high_part_lt) simp_all
    ultimately have "uint (high a) + 2 ^ (k + 1) \<le> 2 ^ 32" by simp
    from uint_round_high [OF k(1) _ this, of mode ?sg "low a"] k(2) False show ?thesis
      by (simp add: middle64_def k_def [symmetric] k(3) bits_f64_def) (simp add: val64_def power_add)
  qed
qed

lemma float64_round_to_int_middle:
  assumes "0x3FF \<le> extractFloat64Exp a" "extractFloat64Exp a \<le> 0x432"
  shows "float64_round_to_int a s =
    (middle64 (float_rounding_mode s) a, raise_if (middle64 (float_rounding_mode s) a \<noteq> a) float_flag_inexact s)"
proof (cases "0x413 \<le> extractFloat64Exp a")
  case True
  define K where "K = nat (0x433 - extractFloat64Exp a)"
  have K: "1 \<le> K" "0x432 - extractFloat64Exp a = int (K - 1)" using True assms(2) by (auto simp: K_def)
  have e: "c_shl (c_shl 1 (0x432 - extractFloat64Exp a)) 1 = (2 ^ K :: bits32)"
  proof -
    obtain j where j: "K = Suc j" using K(1) by (cases K) simp_all
    show ?thesis unfolding K(2) c_shl_1 by (simp add: c_shl_def push_bit_eq_mult j mult.commute)
  qed
  have c: "(0x433 \<le> extractFloat64Exp a) = False" "(0x413 \<le> extractFloat64Exp a) = True" using True assms(2) by simp_all
  have m: "(2 ^ K :: bits32) - 1 = mask K" by (simp add: mask_eq_exp_minus_1)
  have eq: "(low z \<noteq> low a \<or> high z \<noteq> high a) = (z \<noteq> a)" for z by (auto intro: float64.equality)
  have upd: "a\<lparr>low := l\<rparr> = \<lparr>low = l, high = high a\<rparr>" "a\<lparr>high := h\<rparr> = \<lparr>low = low a, high = h\<rparr>" for l h by (cases a; simp)+
  show ?thesis
    unfolding float64_round_to_int_def middle64_def Let_def e c if_True if_False m eq K_def [symmetric] round_low_def
    by (cases "float_rounding_mode s = float_round_nearest_even"; cases "(2 ^ K :: bits32) = 0"; cases "sint (low a) < 0")
      (simp_all add: upd split: prod.split)
next
  case False
  define k where "k = nat (0x413 - extractFloat64Exp a)"
  have k: "1 \<le> k" "k < 32" "0x413 - extractFloat64Exp a = int k" using False assms(1) by (auto simp: k_def)
  have c: "(0x413 \<le> extractFloat64Exp a) = False" "(extractFloat64Exp a \<le> 0x3FE) = False" using False assms by simp_all
  have eq: "(low z \<noteq> low a \<or> high z \<noteq> high a) = (z \<noteq> a)" for z by (auto intro: float64.equality)
  have sg: "extractFloat64Sign \<lparr>low = 0, high = high a\<rparr> = extractFloat64Sign a" by (simp add: extractFloat64Sign_def)
  show ?thesis
    unfolding float64_round_to_int_def middle64_def Let_def k(3) mask_code [OF k(1,2)] c if_True if_False eq sg round_high_def nat_int
    by (simp cong: if_cong)
qed

lemma packFloat64_pattern:
  assumes "0 \<le> k" "k < 0x7FF"
  shows "mag64 (packFloat64 sg k 0 0) = k * 2 ^ 52" "extractFloat64Sign (packFloat64 sg k 0 0) = sg"
proof -
  have "bits_f64 (packFloat64 sg k 0 0) = sign64 sg + k * 2 ^ 52"
    using packFloat64_finite [of k 0 0 sg] assms by (simp add: val64_def)
  from binary64.bits_inject [OF this] assms show "mag64 (packFloat64 sg k 0 0) = k * 2 ^ 52" "extractFloat64Sign (packFloat64 sg k 0 0) = sg"
    by simp_all
qed

lemma float64_integral_small:
  fixes s :: fp_env
  assumes "extractFloat64Exp a \<le> 0x3FE" "0 \<le> float_rounding_mode s" "float_rounding_mode s \<le> 3"
  shows "float64_round_to_int a s =
    (packFloat64 (extractFloat64Sign a)
       (if integral_mag (float_rounding_mode s) (extractFloat64Sign a) (abs64 a) (2 ^ 1074) = 1 then 0x3FF else 0) 0 0,
     raise_if (abs64 a \<noteq> 0) float_flag_inexact s)" and "abs64 a < 2 ^ 1074"
proof -
  let ?E = "extractFloat64Exp a" and ?sg = "extractFloat64Sign a"
  have v: "abs64 a = sig64 a * 2 ^ nat (exp64 a - 1)" by (rule abs64_sig)
  have e: "nat (exp64 a - 1) \<le> 1021" using assms(1) by (auto simp: exp64_def)
  have le: "abs64 a \<le> sig64 a * 2 ^ 1021"
    unfolding v using e sig64_ranges(1) [of a] by (intro mult_left_mono power_increasing) simp_all
  then show lt: "abs64 a < 2 ^ 1074" using sig64_ranges(2) [of a] by simp
  have half: "2 ^ 1074 < 2 * abs64 a \<longleftrightarrow> ?E = 0x3FE \<and> extractFloat64Frac0 a OR extractFloat64Frac1 a \<noteq> 0"
  proof (cases "?E = 0x3FE")
    case True
    then have "abs64 a = (2 ^ 52 + frac64 a) * 2 ^ 1021" by (simp add: v sig64_def exp64_def)
    moreover have "0 < frac64 a \<longleftrightarrow> extractFloat64Frac0 a OR extractFloat64Frac1 a \<noteq> 0"
      using frac64_range(1) [of a] val64_eq_0 [of "extractFloat64Frac0 a" "extractFloat64Frac1 a"] by (auto simp: frac64_def or_eq_0_iff)
    ultimately show ?thesis using True by simp
  next
    case False
    then have "nat (exp64 a - 1) \<le> 1020" using assms(1) by (auto simp: exp64_def)
    then have "abs64 a \<le> sig64 a * 2 ^ 1020"
      unfolding v using sig64_ranges(1) [of a] by (intro mult_left_mono power_increasing) simp_all
    then show ?thesis using False sig64_ranges(2) [of a] by simp
  qed
  have mag0: "abs64 a = 0 \<longleftrightarrow> mag64 a = 0"
    using abs64_0_iff [of a] mag64_frac [of a] float64_ranges(1) [of a] frac64_range(1) [of a] val64_eq_0 [of "extractFloat64Frac0 a" "extractFloat64Frac1 a"]
    by (auto simp: frac64_def add_nonneg_eq_0_iff)
  have "uint (high a) mod 2 ^ 31 * 2 ^ 32 + uint (low a) = 0 \<longleftrightarrow> uint (high a) mod 2 ^ 31 = 0 \<and> low a = 0"
    by (simp add: add_nonneg_eq_0_iff uint_0_iff)
  then have "c_shl (high a) 1 OR low a = 0 \<longleftrightarrow> mag64 a = 0" by (simp only: or_word_eq_0 shl_1_eq_0 mag64_def)
  then have z: "c_shl (high a) 1 OR low a = 0 \<longleftrightarrow> abs64 a = 0" by (simp only: mag0)
  have r: "float_rounding_mode (float_raise f s) = float_rounding_mode s" for f by (simp add: float_raise_def)
  have big: "(0x413 \<le> ?E) = False" "(?E \<le> 0x3FE) = True" using assms(1) by simp_all
  have m: "float_rounding_mode s \<in> {0, 1, 2, 3}" using assms(2,3) by auto
  show "float64_round_to_int a s = (packFloat64 ?sg (if integral_mag (float_rounding_mode s) ?sg (abs64 a) (2 ^ 1074) = 1 then 0x3FF else 0) 0 0,
     raise_if (abs64 a \<noteq> 0) float_flag_inexact s)"
  proof (cases "abs64 a = 0")
    case True
    have "bits_f64 (packFloat64 ?sg 0 0 0) = bits_f64 a"
      using True packFloat64_finite [of 0 0 0 ?sg] by (simp add: mag0 bits_f64_split [of a] val64_def)
    then have "packFloat64 ?sg 0 0 0 = a" by (simp only: bits_f64_eq_iff)
    moreover have "(c_shl (high a) 1 OR low a = 0) = True" using True by (simp add: z)
    ultimately show ?thesis using True
      unfolding float64_round_to_int_def Let_def big if_False if_True
      by (simp add: integral_mag_fraction raise_if_def)
  next
    case False
    then have z': "(c_shl (high a) 1 OR low a = 0) = False" by (simp add: z)
    show ?thesis
      unfolding float64_round_to_int_def Let_def big z' if_False if_True r
        integral_mag_fraction [OF abs64_nonneg lt] half raise_if_def
      using m False by (cases ?sg) auto
  qed
qed

lemma float64_integral_large:
  assumes "0x433 \<le> extractFloat64Exp a"
  shows "abs64 a mod 2 ^ 1074 = 0"
proof -
  have "nat (exp64 a - 1) = nat (exp64 a - 0x433) + 1074" using assms by (simp add: exp64_def)
  then show ?thesis by (simp add: abs64_sig power_add)
qed

lemma float64_integral_middle:
  assumes "0x3FF \<le> extractFloat64Exp a" "extractFloat64Exp a \<le> 0x432"
  shows "finite64 (middle64 mode a)" "extractFloat64Sign (middle64 mode a) = extractFloat64Sign a"
    "abs64 (middle64 mode a) = integral_mag mode (extractFloat64Sign a) (abs64 a) (2 ^ 1074) * 2 ^ 1074"
    "middle64 mode a = a \<longleftrightarrow> abs64 a mod 2 ^ 1074 = 0"
proof -
  let ?E = "extractFloat64Exp a"
  define k j where "k = nat (0x433 - ?E)" and "j = nat (?E - 1)"
  have kj: "k + j = 1074" "k \<le> 52" "int j = ?E - 1" using assms by (auto simp: k_def j_def)
  have "k = 52 \<Longrightarrow> j = 1022" using kj(1) by simp
  then have jeven: "k = 52 \<Longrightarrow> even j" by simp
  have m: "2 ^ 52 \<le> 2 ^ 52 + frac64 a" "2 ^ 52 + frac64 a < 2 ^ (52 + 1)" using frac64_range [of a] by simp_all
  have M: "mag64 a = int j * 2 ^ 52 + (2 ^ 52 + frac64 a)" by (simp add: mag64_frac kj(3))
  from binary64.integral_middle [OF M m kj(2) jeven _ _ bits_middle64 [OF assms, of mode, folded k_def], unfolded kj(1)] assms(2) kj(3)
  show "finite64 (middle64 mode a)" "extractFloat64Sign (middle64 mode a) = extractFloat64Sign a"
    "abs64 (middle64 mode a) = integral_mag mode (extractFloat64Sign a) (abs64 a) (2 ^ 1074) * 2 ^ 1074"
    "middle64 mode a = a \<longleftrightarrow> abs64 a mod 2 ^ 1074 = 0" by (simp_all add: bits_f64_eq_iff)
qed

text \<open>
  \<open>float64_round_to_int\<close> of every finite number in each of the four rounding modes: the result is finite, has
  the sign of the operand and the magnitude rounded to a multiple of one, and the inexact flag is raised
  exactly when the operand is not integral.
\<close>

theorem float64_round_to_int_correct:
  fixes s :: fp_env
  assumes "finite64 a" "0 \<le> float_rounding_mode s" "float_rounding_mode s \<le> 3"
  shows "finite64 (fst (float64_round_to_int a s)) \<and>
    extractFloat64Sign (fst (float64_round_to_int a s)) = extractFloat64Sign a \<and>
    abs64 (fst (float64_round_to_int a s)) = integral_mag (float_rounding_mode s) (extractFloat64Sign a) (abs64 a) (2 ^ 1074) * 2 ^ 1074 \<and>
    snd (float64_round_to_int a s) = raise_if (abs64 a mod 2 ^ 1074 \<noteq> 0) float_flag_inexact s"
proof -
  let ?E = "extractFloat64Exp a" and ?sg = "extractFloat64Sign a" and ?m = "float_rounding_mode s" and ?r = "float64_round_to_int a s"
  consider "0x433 \<le> ?E" | "?E \<le> 0x3FE" | "0x3FF \<le> ?E" "?E \<le> 0x432" by linarith
  then show ?thesis
  proof cases
    case 1
    have "?r = (a, s)" using 1 assms(1) by (simp add: float64_round_to_int_def finite64_def)
    then show ?thesis
      using assms(1) float64_integral_large [OF 1] binary64.integral_exact [OF assms(1) float64_integral_large [OF 1], where mode = ?m]
      by (simp only: fst_conv snd_conv) (simp add: raise_if_def)
  next
    case 2
    note sm = float64_integral_small [OF 2 assms(2,3)]
    have n: "abs64 a mod 2 ^ 1074 = abs64 a" using sm(2) abs64_nonneg [of a] by simp
    let ?z = "packFloat64 ?sg (if integral_mag ?m ?sg (abs64 a) (2 ^ 1074) = 1 then 0x3FF else 0) 0 0"
    have z: "mag64 ?z = (if integral_mag ?m ?sg (abs64 a) (2 ^ 1074) = 1 then int 0x3FF * 2 ^ 52 else 0)" "extractFloat64Sign ?z = ?sg"
      using packFloat64_pattern [of "0x3FF" ?sg] packFloat64_pattern [of 0 ?sg] by simp_all
    show ?thesis using binary64.integral_small [OF sm(2) _ _ _ z(1)] z(2) unfolding sm(1) n fst_conv snd_conv by simp
  next
    case 3
    show ?thesis unfolding float64_round_to_int_middle [OF 3] fst_conv snd_conv
      using float64_integral_middle [OF 3, of ?m] by simp
  qed
qed

theorem float64_round_to_int_correct_witness:
  "fst (float64_round_to_int \<lparr>low = 0, high = 0x40040000\<rparr> fp_init) = \<lparr>low = 0, high = 0x40000000\<rparr> \<and>
   snd (float64_round_to_int \<lparr>low = 0, high = 0x40040000\<rparr> fp_init) = float_raise float_flag_inexact fp_init"
proof -
  have a: "finite64 \<lparr>low = 0, high = 0x40040000\<rparr>" "0 \<le> float_rounding_mode fp_init" "float_rounding_mode fp_init \<le> 3"
    "abs64 \<lparr>low = 0, high = 0x40040000\<rparr> mod 2 ^ 1074 \<noteq> 0"
    "fst (float64_round_to_int \<lparr>low = 0, high = 0x40040000\<rparr> fp_init) = \<lparr>low = 0, high = 0x40000000\<rparr>" by code_simp+
  from float64_round_to_int_correct [OF a(1-3)] a(4,5) show ?thesis by (simp add: raise_if_def)
qed

end
