(* ===== verification/Operation_Set.thy ===== *)
theory Operation_Set
  imports Float_Order
begin

text \<open>
  The floating-point comparisons of the operation set, \<open>opset/base/base.cc\<close> and \<open>opset/base/double.cc\<close>: what
  the simulator executes and what a processor with the operation in hardware computes.  The routines
  \<open>__emulate_*\<close> replace them on processors without the operation, so they are compared with these definitions.

  An operand is a word of 32 or 64 bits read as a number (\<open>FLT(i)\<close>, \<open>DBL(i)\<close>).  An operation of \<open>base.cc\<close> tests
  the widths of both operands and stops with an error when they do not agree (\<open>None\<close>).  The comparison of two
  numbers by the host is that of their values; an infinity counts as larger than every finite number.
\<close>

section \<open>Operands\<close>

datatype SimValue = FLT float32 | DBL float64

definition trigger :: "(float32 \<Rightarrow> float32 \<Rightarrow> bool) \<Rightarrow> (float64 \<Rightarrow> float64 \<Rightarrow> bool) \<Rightarrow> SimValue \<Rightarrow> SimValue \<Rightarrow> int option" where
  "trigger flt dbl x y =
     (case (x, y) of
        (FLT a, FLT b) \<Rightarrow> Some (if flt a b then 1 else 0)
      | (DBL a, DBL b) \<Rightarrow> Some (if dbl a b then 1 else 0)
      | _ \<Rightarrow> None)"

section \<open>Operations of \<open>base.cc\<close>\<close>

definition EQF :: "SimValue \<Rightarrow> SimValue \<Rightarrow> int option" where
  "EQF = trigger (\<lambda>a b. \<not> float32_is_nan a \<and> \<not> float32_is_nan b \<and> val32 a = val32 b)
     (\<lambda>a b. \<not> float64_is_nan a \<and> \<not> float64_is_nan b \<and> val_f64 a = val_f64 b)"

definition EQUF :: "SimValue \<Rightarrow> SimValue \<Rightarrow> int option" where
  "EQUF = trigger (\<lambda>a b. float32_is_nan a \<or> float32_is_nan b \<or> val32 a = val32 b)
     (\<lambda>a b. float64_is_nan a \<or> float64_is_nan b \<or> val_f64 a = val_f64 b)"

definition NEF :: "SimValue \<Rightarrow> SimValue \<Rightarrow> int option" where
  "NEF = trigger (\<lambda>a b. \<not> float32_is_nan a \<and> \<not> float32_is_nan b \<and> val32 a \<noteq> val32 b)
     (\<lambda>a b. \<not> float64_is_nan a \<and> \<not> float64_is_nan b \<and> val_f64 a \<noteq> val_f64 b)"

definition NEUF :: "SimValue \<Rightarrow> SimValue \<Rightarrow> int option" where
  "NEUF = trigger (\<lambda>a b. float32_is_nan a \<or> float32_is_nan b \<or> val32 a \<noteq> val32 b)
     (\<lambda>a b. float64_is_nan a \<or> float64_is_nan b \<or> val_f64 a \<noteq> val_f64 b)"

definition GTF :: "SimValue \<Rightarrow> SimValue \<Rightarrow> int option" where
  "GTF = trigger (\<lambda>a b. \<not> float32_is_nan a \<and> \<not> float32_is_nan b \<and> val32 a > val32 b)
     (\<lambda>a b. \<not> float64_is_nan a \<and> \<not> float64_is_nan b \<and> val_f64 a > val_f64 b)"

definition GTUF :: "SimValue \<Rightarrow> SimValue \<Rightarrow> int option" where
  "GTUF = trigger (\<lambda>a b. float32_is_nan a \<or> float32_is_nan b \<or> val32 a > val32 b)
     (\<lambda>a b. float64_is_nan a \<or> float64_is_nan b \<or> val_f64 a > val_f64 b)"

definition GEF :: "SimValue \<Rightarrow> SimValue \<Rightarrow> int option" where
  "GEF = trigger (\<lambda>a b. \<not> float32_is_nan a \<and> \<not> float32_is_nan b \<and> val32 a \<ge> val32 b)
     (\<lambda>a b. \<not> float64_is_nan a \<and> \<not> float64_is_nan b \<and> val_f64 a \<ge> val_f64 b)"

definition GEUF :: "SimValue \<Rightarrow> SimValue \<Rightarrow> int option" where
  "GEUF = trigger (\<lambda>a b. float32_is_nan a \<or> float32_is_nan b \<or> val32 a \<ge> val32 b)
     (\<lambda>a b. float64_is_nan a \<or> float64_is_nan b \<or> val_f64 a \<ge> val_f64 b)"

definition LTF :: "SimValue \<Rightarrow> SimValue \<Rightarrow> int option" where
  "LTF = trigger (\<lambda>a b. \<not> float32_is_nan a \<and> \<not> float32_is_nan b \<and> val32 a < val32 b)
     (\<lambda>a b. \<not> float64_is_nan a \<and> \<not> float64_is_nan b \<and> val_f64 a < val_f64 b)"

definition LTUF :: "SimValue \<Rightarrow> SimValue \<Rightarrow> int option" where
  "LTUF = trigger (\<lambda>a b. float32_is_nan a \<or> float32_is_nan b \<or> val32 a < val32 b)
     (\<lambda>a b. float64_is_nan a \<or> float64_is_nan b \<or> val_f64 a < val_f64 b)"

definition LEF :: "SimValue \<Rightarrow> SimValue \<Rightarrow> int option" where
  "LEF = trigger (\<lambda>a b. \<not> float32_is_nan a \<and> \<not> float32_is_nan b \<and> val32 a \<le> val32 b)
     (\<lambda>a b. \<not> float64_is_nan a \<and> \<not> float64_is_nan b \<and> val_f64 a \<le> val_f64 b)"

definition LEUF :: "SimValue \<Rightarrow> SimValue \<Rightarrow> int option" where
  "LEUF = trigger (\<lambda>a b. float32_is_nan a \<or> float32_is_nan b \<or> val32 a \<le> val32 b)
     (\<lambda>a b. float64_is_nan a \<or> float64_is_nan b \<or> val_f64 a \<le> val_f64 b)"

definition ORDF :: "SimValue \<Rightarrow> SimValue \<Rightarrow> int option" where
  "ORDF = trigger (\<lambda>a b. \<not> float32_is_nan a \<and> \<not> float32_is_nan b)
     (\<lambda>a b. \<not> float64_is_nan a \<and> \<not> float64_is_nan b)"

definition UORDF :: "SimValue \<Rightarrow> SimValue \<Rightarrow> int option" where
  "UORDF = trigger (\<lambda>a b. float32_is_nan a \<or> float32_is_nan b)
     (\<lambda>a b. float64_is_nan a \<or> float64_is_nan b)"

section \<open>Operations of \<open>double.cc\<close>\<close>

definition EQD :: "float64 \<Rightarrow> float64 \<Rightarrow> int" where
  "EQD a b = (if \<not> float64_is_nan a \<and> \<not> float64_is_nan b \<and> val_f64 a = val_f64 b then 1 else 0)"

definition EQUD :: "float64 \<Rightarrow> float64 \<Rightarrow> int" where
  "EQUD a b = (if float64_is_nan a \<or> float64_is_nan b \<or> val_f64 a = val_f64 b then 1 else 0)"

definition NED :: "float64 \<Rightarrow> float64 \<Rightarrow> int" where
  "NED a b = (if \<not> float64_is_nan a \<and> \<not> float64_is_nan b \<and> val_f64 a \<noteq> val_f64 b then 1 else 0)"

definition NEUD :: "float64 \<Rightarrow> float64 \<Rightarrow> int" where
  "NEUD a b = (if float64_is_nan a \<or> float64_is_nan b \<or> val_f64 a \<noteq> val_f64 b then 1 else 0)"

definition GTD :: "float64 \<Rightarrow> float64 \<Rightarrow> int" where
  "GTD a b = (if \<not> float64_is_nan a \<and> \<not> float64_is_nan b \<and> val_f64 a > val_f64 b then 1 else 0)"

definition GTUD :: "float64 \<Rightarrow> float64 \<Rightarrow> int" where
  "GTUD a b = (if float64_is_nan a \<or> float64_is_nan b \<or> val_f64 a > val_f64 b then 1 else 0)"

definition GED :: "float64 \<Rightarrow> float64 \<Rightarrow> int" where
  "GED a b = (if \<not> float64_is_nan a \<and> \<not> float64_is_nan b \<and> val_f64 a \<ge> val_f64 b then 1 else 0)"

definition GEUD :: "float64 \<Rightarrow> float64 \<Rightarrow> int" where
  "GEUD a b = (if float64_is_nan a \<or> float64_is_nan b \<or> val_f64 a \<ge> val_f64 b then 1 else 0)"

definition LTD :: "float64 \<Rightarrow> float64 \<Rightarrow> int" where
  "LTD a b = (if \<not> float64_is_nan a \<and> \<not> float64_is_nan b \<and> val_f64 a < val_f64 b then 1 else 0)"

definition LTUD :: "float64 \<Rightarrow> float64 \<Rightarrow> int" where
  "LTUD a b = (if float64_is_nan a \<or> float64_is_nan b \<or> val_f64 a < val_f64 b then 1 else 0)"

definition LED :: "float64 \<Rightarrow> float64 \<Rightarrow> int" where
  "LED a b = (if \<not> float64_is_nan a \<and> \<not> float64_is_nan b \<and> val_f64 a \<le> val_f64 b then 1 else 0)"

definition LEUD :: "float64 \<Rightarrow> float64 \<Rightarrow> int" where
  "LEUD a b = (if float64_is_nan a \<or> float64_is_nan b \<or> val_f64 a \<le> val_f64 b then 1 else 0)"

definition ORDD :: "float64 \<Rightarrow> float64 \<Rightarrow> int" where
  "ORDD a b = (if \<not> float64_is_nan a \<and> \<not> float64_is_nan b then 1 else 0)"

definition UORDD :: "float64 \<Rightarrow> float64 \<Rightarrow> int" where
  "UORDD a b = (if float64_is_nan a \<or> float64_is_nan b then 1 else 0)"

lemmas operation_defs = trigger_def EQF_def EQUF_def NEF_def NEUF_def GTF_def GTUF_def GEF_def GEUF_def LTF_def LTUF_def LEF_def LEUF_def ORDF_def UORDF_def EQD_def EQUD_def NED_def NEUD_def GTD_def GTUD_def GED_def GEUD_def LTD_def LTUD_def LED_def LEUD_def ORDD_def UORDD_def

section \<open>The emulation against the operation set\<close>

lemma emulate_single_agrees:
  "EQF (FLT a) (FLT b) = Some (uint (fst (emulate_EQF a b s))) \<and>
    EQUF (FLT a) (FLT b) = Some (uint (fst (emulate_EQUF a b s))) \<and>
    NEUF (FLT a) (FLT b) = Some (uint (fst (emulate_NEUF a b s))) \<and>
    LEF (FLT a) (FLT b) = Some (uint (fst (emulate_LEF a b s))) \<and>
    LEUF (FLT a) (FLT b) = Some (uint (fst (emulate_LEUF a b s))) \<and>
    LTF (FLT a) (FLT b) = Some (uint (fst (emulate_LTF a b s))) \<and>
    LTUF (FLT a) (FLT b) = Some (uint (fst (emulate_LTUF a b s))) \<and>
    GEUF (FLT a) (FLT b) = Some (uint (fst (emulate_GEUF a b s))) \<and>
    GTUF (FLT a) (FLT b) = Some (uint (fst (emulate_GTUF a b s))) \<and>
    ORDF (FLT a) (FLT b) = Some (uint (emulate_ORDF a b)) \<and>
    UORDF (FLT a) (FLT b) = Some (uint (emulate_UORDF a b)) \<and>
    (if float32_is_nan a \<or> float32_is_nan b
     then NEF (FLT a) (FLT b) = Some 0 \<and> fst (emulate_NEF a b s) = 1 \<and>
      GEF (FLT a) (FLT b) = Some 0 \<and> fst (emulate_GEF a b s) = 1 \<and>
      GTF (FLT a) (FLT b) = Some 0 \<and> fst (emulate_GTF a b s) = 1
     else NEF (FLT a) (FLT b) = Some (uint (fst (emulate_NEF a b s))) \<and>
      GEF (FLT a) (FLT b) = Some (uint (fst (emulate_GEF a b s))) \<and>
      GTF (FLT a) (FLT b) = Some (uint (fst (emulate_GTF a b s))))"
  using emulate_single_table [of a b s] unfolding Let_def key_order_values
  by (cases "float32_is_nan a"; cases "float32_is_nan b") (simp_all add: operation_defs uint_bit_of)

lemma emulate_double_agrees:
  "EQD c d = uint (fst (emulate_EQD c d s)) \<and>
    EQUD c d = uint (fst (emulate_EQUD c d s)) \<and>
    NEUD c d = uint (fst (emulate_NEUD c d s)) \<and>
    LED c d = uint (fst (emulate_LED c d s)) \<and>
    LEUD c d = uint (fst (emulate_LEUD c d s)) \<and>
    LTD c d = uint (fst (emulate_LTD c d s)) \<and>
    LTUD c d = uint (fst (emulate_LTUD c d s)) \<and>
    GEUD c d = uint (fst (emulate_GEUD c d s)) \<and>
    GTUD c d = uint (fst (emulate_GTUD c d s)) \<and>
    ORDD c d = uint (emulate_ORDD c d) \<and>
    UORDD c d = uint (emulate_UORDD c d) \<and>
    (if float64_is_nan c \<or> float64_is_nan d
     then NED c d = 0 \<and> fst (emulate_NED c d s) = 1 \<and>
      GED c d = 0 \<and> fst (emulate_GED c d s) = 1 \<and>
      GTD c d = 0 \<and> fst (emulate_GTD c d s) = 1
     else NED c d = uint (fst (emulate_NED c d s)) \<and>
      GED c d = uint (fst (emulate_GED c d s)) \<and>
      GTD c d = uint (fst (emulate_GTD c d s)))"
  using emulate_double_table [of c d s] unfolding Let_def key_order_values
  by (cases "float64_is_nan c"; cases "float64_is_nan d") (simp_all add: operation_defs uint_bit_of)

text \<open>
  C33. The emulation of the comparisons against the operation set, on every pair of operands of both precisions,
  NaNs included: the routines for \<open>EQ\<close>, \<open>LE\<close>, \<open>LT\<close>, \<open>ORD\<close>, \<open>UORD\<close> and all the unordered comparisons (\<open>EQU\<close>,
  \<open>NEU\<close>, \<open>LEU\<close>, \<open>LTU\<close>, \<open>GEU\<close>, \<open>GTU\<close>) return what the operation computes.  Those for the ordered \<open>NE\<close>, \<open>GE\<close> and
  \<open>GT\<close> return it when neither operand is a NaN, but on a NaN they return 1 where the operation is 0, because
  they negate \<open>eq\<close>, \<open>lt\<close> and \<open>le\<close>: these six routines do not compute the operation they replace.
\<close>

theorem emulate_comparisons:
  "(EQF (FLT a) (FLT b) = Some (uint (fst (emulate_EQF a b s))) \<and>
    EQUF (FLT a) (FLT b) = Some (uint (fst (emulate_EQUF a b s))) \<and>
    NEUF (FLT a) (FLT b) = Some (uint (fst (emulate_NEUF a b s))) \<and>
    LEF (FLT a) (FLT b) = Some (uint (fst (emulate_LEF a b s))) \<and>
    LEUF (FLT a) (FLT b) = Some (uint (fst (emulate_LEUF a b s))) \<and>
    LTF (FLT a) (FLT b) = Some (uint (fst (emulate_LTF a b s))) \<and>
    LTUF (FLT a) (FLT b) = Some (uint (fst (emulate_LTUF a b s))) \<and>
    GEUF (FLT a) (FLT b) = Some (uint (fst (emulate_GEUF a b s))) \<and>
    GTUF (FLT a) (FLT b) = Some (uint (fst (emulate_GTUF a b s))) \<and>
    ORDF (FLT a) (FLT b) = Some (uint (emulate_ORDF a b)) \<and>
    UORDF (FLT a) (FLT b) = Some (uint (emulate_UORDF a b)) \<and>
    (if float32_is_nan a \<or> float32_is_nan b
     then NEF (FLT a) (FLT b) = Some 0 \<and> fst (emulate_NEF a b s) = 1 \<and>
      GEF (FLT a) (FLT b) = Some 0 \<and> fst (emulate_GEF a b s) = 1 \<and>
      GTF (FLT a) (FLT b) = Some 0 \<and> fst (emulate_GTF a b s) = 1
     else NEF (FLT a) (FLT b) = Some (uint (fst (emulate_NEF a b s))) \<and>
      GEF (FLT a) (FLT b) = Some (uint (fst (emulate_GEF a b s))) \<and>
      GTF (FLT a) (FLT b) = Some (uint (fst (emulate_GTF a b s))))) \<and>
   (EQD c d = uint (fst (emulate_EQD c d s)) \<and>
    EQUD c d = uint (fst (emulate_EQUD c d s)) \<and>
    NEUD c d = uint (fst (emulate_NEUD c d s)) \<and>
    LED c d = uint (fst (emulate_LED c d s)) \<and>
    LEUD c d = uint (fst (emulate_LEUD c d s)) \<and>
    LTD c d = uint (fst (emulate_LTD c d s)) \<and>
    LTUD c d = uint (fst (emulate_LTUD c d s)) \<and>
    GEUD c d = uint (fst (emulate_GEUD c d s)) \<and>
    GTUD c d = uint (fst (emulate_GTUD c d s)) \<and>
    ORDD c d = uint (emulate_ORDD c d) \<and>
    UORDD c d = uint (emulate_UORDD c d) \<and>
    (if float64_is_nan c \<or> float64_is_nan d
     then NED c d = 0 \<and> fst (emulate_NED c d s) = 1 \<and>
      GED c d = 0 \<and> fst (emulate_GED c d s) = 1 \<and>
      GTD c d = 0 \<and> fst (emulate_GTD c d s) = 1
     else NED c d = uint (fst (emulate_NED c d s)) \<and>
      GED c d = uint (fst (emulate_GED c d s)) \<and>
      GTD c d = uint (fst (emulate_GTD c d s))))"
  by (rule conjI [OF emulate_single_agrees emulate_double_agrees])

theorem emulate_comparisons_witness:
  "NEF (FLT 0x7FC00000) (FLT 0) = Some 0 \<and> fst (emulate_NEF 0x7FC00000 0 fp_init) = 1 \<and>
   LTD \<lparr>low = 0, high = 0xBFF00000\<rparr> \<lparr>low = 0, high = 0\<rparr> = uint (fst (emulate_LTD \<lparr>low = 0, high = 0xBFF00000\<rparr> \<lparr>low = 0, high = 0\<rparr> fp_init))"
proof -
  have "float32_is_nan 0x7FC00000" by code_simp
  then show ?thesis using emulate_comparisons [of "0x7FC00000" 0 fp_init "\<lparr>low = 0, high = 0xBFF00000\<rparr>" "\<lparr>low = 0, high = 0\<rparr>"] by simp
qed

end
