(* ===== verification/Square_Root.thy ===== *)
theory Square_Root
  imports Float_Rounding Complex_Main
begin

text \<open>
  Square roots of significands: the table-driven estimate \<open>estimateSqrt32\<close> of the sources lies strictly within
  two of the exact root, and what a significand with a sticky bit keeps of a root.  Both formats build on it.
\<close>

section \<open>The square-root estimate\<close>

text \<open>
  The first approximation is linear on each of sixteen intervals.  Its square is compared with the radicand
  by convexity: \<open>j * j\<close> lies below the chord of the interval and above a tangent, and both bounds
  are linear, so that they need checking only at the ends of the interval.
\<close>

lemma linear_nonneg:
  fixes x y j :: int
  assumes "0 \<le> x" "0 \<le> x + y * 1023" "0 \<le> j" "j \<le> 1023"
  shows "0 \<le> x + y * j"
proof (cases "0 \<le> y")
  case False
  then have "y * 1023 \<le> y * j" using assms(4) by (intro mult_left_mono_neg) simp_all
  then show ?thesis using assms(2) by linarith
qed (use assms in simp)

definition parabola_check :: "int \<Rightarrow> int \<Rightarrow> int \<Rightarrow> int \<Rightarrow> int \<Rightarrow> bool" where
  "parabola_check n e v c b \<longleftrightarrow>
     (let x = b * 2 ^ 17 + e * c - n * c * c; y = 2 ^ 17 + e - 2 * n * c - 1023 * n;
          x' = n * c * c - n * v * v - (b + 1) * 2 ^ 17 + e * c; y' = 2 * n * c + 2 * n * v - 2 ^ 17 + e
      in 0 \<le> x \<and> 0 \<le> x + y * 1023 \<and> 0 \<le> x' \<and> 0 \<le> x' + y' * 1023)"

lemma parabola_bound:
  fixes j l :: int
  assumes "parabola_check n e v c b" "0 \<le> j" "j \<le> 1023" "0 \<le> l" "l < 2 ^ 17" "0 \<le> n"
  shows "\<bar>n * ((c + j) * (c + j)) - ((b + j) * 2 ^ 17 + l)\<bar> \<le> e * (c + j)"
proof -
  have "0 \<le> n * (j * (1023 - j))" "0 \<le> n * ((j - v) * (j - v))" using assms by simp_all
  moreover have "0 \<le> b * 2 ^ 17 + e * c - n * c * c + (2 ^ 17 + e - 2 * n * c - 1023 * n) * j"
    "0 \<le> n * c * c - n * v * v - (b + 1) * 2 ^ 17 + e * c + (2 * n * c + 2 * n * v - 2 ^ 17 + e) * j"
    using assms(1) unfolding parabola_check_def Let_def by (simp_all only: linear_nonneg assms(2,3))
  ultimately show ?thesis using assms(4,5) unfolding abs_le_iff by (simp add: algebra_simps)
qed

lemma top_bits_cases:
  fixes a :: bits32
  assumes "2 ^ 31 \<le> uint a"
  obtains i j l where "i < 16" "unat (c_shr a 27 AND 15) = i" "0 \<le> j" "j \<le> 1023" "0 \<le> l" "l < 2 ^ 17"
    "uint (c_shr a 17) = 2 ^ 14 + 1024 * int i + j" "uint a = (2 ^ 14 + 1024 * int i + j) * 2 ^ 17 + l"
proof -
  define t where "t = uint a div 2 ^ 17"
  define h where "h = t div 1024"
  have t: "2 ^ 14 \<le> t" "t < 2 ^ 15" using assms uint_lt2p [of a] by (simp_all add: t_def)
  then have h: "16 \<le> h" "h < 32" by (simp_all add: h_def)
  have "uint a div 2 ^ 27 = h" by (simp add: h_def t_def flip: zdiv_zmult2_eq)
  then have "uint (c_shr a 27 AND 15) = h mod 2 ^ 4" using uint_and_mask [of "c_shr a 27" 4] by (simp add: uint_c_shr mask_eq_exp_minus_1)
  also have "h mod 2 ^ 4 = h - 16" by (rule div_mod_split(2) [of _ 1]) (use h in simp_all)
  finally have i: "unat (c_shr a 27 AND 15) = nat (h - 16)" by (simp only: unat_eq_nat_uint)
  have "t = h * 1024 + t mod 1024" by (simp add: h_def)
  then have t': "t = 2 ^ 14 + 1024 * int (nat (h - 16)) + t mod 1024" using h by simp
  have "uint a = t * 2 ^ 17 + uint a mod 2 ^ 17" unfolding t_def by (rule div_mult_mod_eq [symmetric])
  then show thesis using that [of "nat (h - 16)" "t mod 1024" "uint a mod 2 ^ 17"] h i t' by (simp add: uint_c_shr t_def)
qed

lemma uint_ucast16: "uint (ucast (w :: bits16) :: bits32) = uint w"
  by (rule uint_up_ucast) (simp add: is_up)

lemma sqrt_odd_check:
  "\<forall>i \<in> set [0..<16]. let adj = uint (sqrtOddAdjustments ! i); c = 2 ^ 15 + 1024 * int i - adj
     in 0 \<le> adj \<and> adj < 2 ^ 14 \<and> parabola_check 2 600 (max 0 (min 1023 (32618 - c))) c (2 ^ 14 + 1024 * int i) \<and> c < 45500"
  by code_simp

lemma sqrt_even_check:
  "\<forall>i \<in> set [0..<16]. let adj = uint (sqrtEvenAdjustments ! i); c = 2 ^ 15 + 2 ^ 14 + 1024 * int i - adj
     in 0 \<le> adj \<and> adj < 2 ^ 14 \<and> parabola_check 1 420 (max 0 (min 1023 (65326 - c))) c (2 ^ 14 + 1024 * int i) \<and> c < 64512"
  by code_simp

lemma sqrt_odd_table:
  fixes a :: bits32
  assumes "2 ^ 31 \<le> uint a"
  defines "z \<equiv> 0x4000 + c_shr a 17 - ucast (sqrtOddAdjustments ! unat (c_shr a 27 AND 15)) :: bits32"
  shows "2 ^ 14 \<le> uint z \<and> uint z < 46600 \<and> \<bar>2 * (uint z * uint z) - uint a\<bar> \<le> 600 * uint z"
proof -
  obtain i j l where c: "i < 16" "unat (c_shr a 27 AND 15) = i" "0 \<le> j" "j \<le> 1023" "0 \<le> l" "l < 2 ^ 17"
    "uint (c_shr a 17) = 2 ^ 14 + 1024 * int i + j" "uint a = (2 ^ 14 + 1024 * int i + j) * 2 ^ 17 + l"
    by (rule top_bits_cases [OF assms(1)])
  define adj where "adj = uint (sqrtOddAdjustments ! i)"
  define k where "k = 2 ^ 15 + 1024 * int i - adj"
  have ck: "0 \<le> adj" "adj < 2 ^ 14" "parabola_check 2 600 (max 0 (min 1023 (32618 - k))) k (2 ^ 14 + 1024 * int i)" "k < 45500"
    using sqrt_odd_check c(1) unfolding Let_def adj_def k_def by simp_all
  have "uint z = (0x4000 + uint (c_shr a 17) - adj) mod 2 ^ 32"
    unfolding z_def c(2) uint_word_ariths by (simp add: mod_simps adj_def uint_ucast16)
  then have z: "uint z = k + j" using c(1,3,4,7) ck(1,2) by (simp add: k_def)
  show ?thesis using parabola_bound [OF ck(3) c(3-6)] c(3,4,8) ck(2,4) unfolding z by (simp add: k_def)
qed

lemma sqrt_even_table:
  fixes a :: bits32
  assumes "2 ^ 31 \<le> uint a"
  defines "z \<equiv> 0x8000 + c_shr a 17 - ucast (sqrtEvenAdjustments ! unat (c_shr a 27 AND 15)) :: bits32"
  shows "2 ^ 15 \<le> uint z \<and> uint z < 2 ^ 16 \<and> \<bar>uint z * uint z - uint a\<bar> \<le> 420 * uint z"
proof -
  obtain i j l where c: "i < 16" "unat (c_shr a 27 AND 15) = i" "0 \<le> j" "j \<le> 1023" "0 \<le> l" "l < 2 ^ 17"
    "uint (c_shr a 17) = 2 ^ 14 + 1024 * int i + j" "uint a = (2 ^ 14 + 1024 * int i + j) * 2 ^ 17 + l"
    by (rule top_bits_cases [OF assms(1)])
  define adj where "adj = uint (sqrtEvenAdjustments ! i)"
  define k where "k = 2 ^ 15 + 2 ^ 14 + 1024 * int i - adj"
  have ck: "0 \<le> adj" "adj < 2 ^ 14" "parabola_check 1 420 (max 0 (min 1023 (65326 - k))) k (2 ^ 14 + 1024 * int i)" "k < 64512"
    using sqrt_even_check c(1) unfolding Let_def adj_def k_def by simp_all
  have "uint z = (0x8000 + uint (c_shr a 17) - adj) mod 2 ^ 32"
    unfolding z_def c(2) uint_word_ariths by (simp add: mod_simps adj_def uint_ucast16)
  then have z: "uint z = k + j" using c(1,3,4,7) ck(1,2) by (simp add: k_def)
  show ?thesis using parabola_bound [OF ck(3) c(3-6)] c(3,4,8) ck(2,4) unfolding z by (simp add: k_def)
qed

text \<open>
  One Newton step brings the square within \<open>4 * z ^ 3\<close> (of the square of the error), and the division step
  that follows, with the estimated quotient, within two of the root.
\<close>

lemma square_le_cube:
  fixes e z :: int
  assumes "\<bar>e\<bar> \<le> c \<or> \<bar>e\<bar> \<le> 65956 * z" "c * c \<le> 2 ^ 95" "2 ^ 31 \<le> z"
  shows "e * e \<le> 4 * (z * (z * z))"
  using assms(1)
proof
  assume "\<bar>e\<bar> \<le> c"
  then have "e * e \<le> c * c" using abs_le_square_iff [of e c] by (simp add: power2_eq_square)
  also have "\<dots> \<le> 4 * (2 ^ 31 * (2 ^ 31 * 2 ^ 31))" using assms(2) by simp
  also have "\<dots> \<le> 4 * (z * (z * z))" by (intro mult_mono) (use assms(3) in simp_all)
  finally show ?thesis .
next
  assume "\<bar>e\<bar> \<le> 65956 * z"
  then have "e * e \<le> (65956 * z) * (65956 * z)" using abs_le_square_iff [of e "65956 * z"] assms(3) by (simp add: power2_eq_square)
  also have "\<dots> = 4350193936 * (z * z)" by simp
  also have "\<dots> \<le> (4 * z) * (z * z)" by (rule mult_right_mono) (use assms(3) in simp_all)
  finally show ?thesis by (simp add: mult.assoc)
qed

lemma newton_parts:
  fixes a z0 k e :: int
  assumes "0 < z0" "\<bar>k * (z0 * z0) - a\<bar> \<le> e * z0"
  shows "\<bar>a div z0 - k * z0\<bar> \<le> e" "a = a div z0 * z0 + a mod z0" "0 \<le> a mod z0" "a mod z0 < z0"
proof -
  have "(k * z0 - e) * z0 \<le> a" "a \<le> (k * z0 + e) * z0" using assms(2) by (simp_all add: algebra_simps abs_le_iff)
  then have "(k * z0 - e) * z0 div z0 \<le> a div z0" "a div z0 \<le> (k * z0 + e) * z0 div z0"
    using assms(1) by (simp_all only: zdiv_mono1)
  then show "\<bar>a div z0 - k * z0\<bar> \<le> e" using assms(1) by (simp add: abs_le_iff)
qed (use assms(1) in simp_all)

lemma abs_diff_le:
  fixes x y :: int
  assumes "0 \<le> x" "0 \<le> y" "x \<le> c" "y \<le> d"
  shows "\<bar>x - y\<bar> \<le> c \<or> \<bar>x - y\<bar> \<le> d"
  using assms by linarith

lemma square_le_of_abs: "\<bar>d\<bar> \<le> c \<Longrightarrow> d * d \<le> c * c" for d c :: int
  using abs_le_square_iff [of d c] by (simp add: power2_eq_square)

lemma newton_odd:
  fixes a z0 :: int
  assumes "2 ^ 31 \<le> a" "2 ^ 14 \<le> z0" "z0 < 46600" "\<bar>2 * (z0 * z0) - a\<bar> \<le> 600 * z0"
  defines "z \<equiv> 2 ^ 14 * (a div z0 + 2 * z0)" and "N \<equiv> 2 ^ 31 * a"
  shows "2 ^ 31 \<le> z" "z < 2 ^ 32" "(z * z - N) * (z * z - N) \<le> 4 * (z * (z * z))" "0 \<le> a div z0" "a div z0 < 93800"
proof -
  define w d r where "w = a div z0" and "d = w - 2 * z0" and "r = a mod z0"
  have d: "\<bar>d\<bar> \<le> 600" and a: "a = w * z0 + r" and r: "0 \<le> r" "r < z0"
    using newton_parts [OF _ assms(4)] assms(2) by (simp_all add: w_def d_def r_def)
  have wd: "w = d + 2 * z0" by (simp add: d_def)
  show wb: "0 \<le> a div z0" "a div z0 < 93800" using d assms(2,3) unfolding w_def [symmetric] wd by (simp_all add: abs_le_iff)
  have z: "z = 2 ^ 14 * (w + 2 * z0)" by (simp add: z_def w_def)
  show "z < 2 ^ 32" using wb assms(3) unfolding z_def by simp
  have "2 ^ 17 \<le> w + 2 * z0"
  proof (rule ccontr)
    assume "\<not> ?thesis"
    then have "w * z0 \<le> (2 ^ 17 - 1 - 2 * z0) * z0" using assms(2) by (intro mult_right_mono) simp_all
    moreover have "0 \<le> (z0 - 2 ^ 15) * (z0 - 2 ^ 15)" by simp
    ultimately show False using a r assms(1) by (simp add: algebra_simps)
  qed
  then show zb: "2 ^ 31 \<le> z" unfolding z by simp
  have e: "z * z - N = 2 ^ 28 * (d * d) - 2 ^ 31 * r" unfolding z N_def a wd by (simp add: algebra_simps)
  have "d * d \<le> 360000" using square_le_of_abs [OF d] by simp
  then have "\<bar>z * z - N\<bar> \<le> 2 ^ 47 \<or> \<bar>z * z - N\<bar> \<le> 2 ^ 47"
    unfolding e by (intro abs_diff_le) (use r assms(3) in simp_all)
  then show "(z * z - N) * (z * z - N) \<le> 4 * (z * (z * z))" by (intro square_le_cube [where c = "2 ^ 47"]) (use zb in simp_all)
qed

lemma newton_even:
  fixes a z0 :: int
  assumes "2 ^ 31 \<le> a" "a < 2 ^ 32" "2 ^ 15 \<le> z0" "z0 < 2 ^ 16" "\<bar>z0 * z0 - a\<bar> \<le> 420 * z0"
  defines "v \<equiv> a div z0 + z0"
  defines "z \<equiv> (if 2 ^ 17 \<le> v then 2 ^ 32 - 2 ^ 15 else 2 ^ 15 * v)" and "N \<equiv> 2 ^ 32 * a"
  shows "2 ^ 31 \<le> z" "z < 2 ^ 32" "(z * z - N) * (z * z - N) \<le> 4 * (z * (z * z))" "0 \<le> a div z0" "a div z0 < 2 ^ 17"
proof -
  define w d r where "w = a div z0" and "d = w - z0" and "r = a mod z0"
  have d: "\<bar>d\<bar> \<le> 420" and a: "a = w * z0 + r" and r: "0 \<le> r" "r < z0"
    using newton_parts [of z0 1 a 420] assms(3,5) by (simp_all add: w_def d_def r_def)
  have wd: "w = d + z0" by (simp add: d_def)
  show wb: "0 \<le> a div z0" "a div z0 < 2 ^ 17" using d assms(3,4) unfolding w_def [symmetric] wd by (simp_all add: abs_le_iff)
  have v: "v = d + 2 * z0" by (simp add: v_def d_def flip: w_def)
  have dd: "0 \<le> d * d" "d * d \<le> 176400" using square_le_of_abs [OF d] by simp_all
  have e: "(2 ^ 15 * v) * (2 ^ 15 * v) - N = 2 ^ 30 * (d * d) - 2 ^ 32 * r" unfolding v N_def a wd by (simp add: algebra_simps)
  have "2 ^ 16 \<le> v"
  proof (rule ccontr)
    assume "\<not> ?thesis"
    then have "w * z0 \<le> (2 ^ 16 - 1 - z0) * z0" using assms(3) by (intro mult_right_mono) (simp_all add: v_def w_def)
    moreover have "0 \<le> (z0 - 2 ^ 15) * (z0 - 2 ^ 15)" by simp
    ultimately show False using a r assms(1) by (simp add: algebra_simps)
  qed
  then show zb: "2 ^ 31 \<le> z" unfolding z_def by simp
  show "z < 2 ^ 32" by (simp add: z_def)
  show "(z * z - N) * (z * z - N) \<le> 4 * (z * (z * z))"
  proof (cases "2 ^ 17 \<le> v")
    case True
    then have "2 ^ 17 * 2 ^ 17 \<le> v * v" by (intro mult_mono) simp_all
    then have "2 ^ 64 \<le> (2 ^ 15 * v) * (2 ^ 15 * v)" by simp
    then have "2 ^ 64 - 2 ^ 48 \<le> N" "N < 2 ^ 64" using e dd r assms(2,4) by (simp_all add: N_def)
    then have "\<bar>z * z - N\<bar> \<le> 2 ^ 48" using True by (simp add: z_def)
    then have "(z * z - N) * (z * z - N) \<le> 2 ^ 48 * 2 ^ 48" by (rule square_le_of_abs)
    also have "\<dots> \<le> 4 * (z * (z * z))" using True by (simp add: z_def)
    finally show ?thesis .
  next
    case False
    have "2 ^ 16 * z0 \<le> 2 ^ 15 * v + 2 ^ 15 * 420" using d unfolding v by (simp add: abs_le_iff)
    then have "2 ^ 32 * r \<le> 65956 * z" using r(2) zb False by (simp add: z_def)
    then have "\<bar>2 ^ 30 * (d * d) - 2 ^ 32 * r\<bar> \<le> 2 ^ 30 * 176400 \<or> \<bar>2 ^ 30 * (d * d) - 2 ^ 32 * r\<bar> \<le> 65956 * z"
      by (intro abs_diff_le) (use dd r in simp_all)
    then show ?thesis using e False zb by (intro square_le_cube [where c = "2 ^ 30 * 176400"]) (simp_all add: z_def)
  qed
qed

lemma square_bound_trans: "4 * N < y * y \<Longrightarrow> 0 \<le> y \<Longrightarrow> y \<le> 2 * r \<Longrightarrow> N < r * r" for N y r :: int
  using mult_mono [of y "2 * r" y "2 * r"] by (simp add: algebra_simps)

lemma square_bound_trans': "y * y < 4 * N \<Longrightarrow> 0 \<le> 2 * r \<Longrightarrow> 2 * r \<le> y \<Longrightarrow> r * r < N" for N y r :: int
  using mult_mono [of "2 * r" y "2 * r" y] by (simp add: algebra_simps)

lemma half_sum: "q + z \<le> 2 * (q div 2 + z div 2) + 2" "2 * (q div 2 + z div 2) \<le> q + z" for q z :: int
  by presburger+

lemma heron_bounds:
  fixes z q M N :: int
  assumes "2 ^ 31 \<le> z" "M \<le> N" "N \<le> M + z" "M div z \<le> q" "q \<le> M div z + 2" "z < N" 
    "(z * z - N) * (z * z - N) \<le> 4 * (z * (z * z))" "0 \<le> M"
  defines "r \<equiv> q div 2 + z div 2"
  shows "(r - 2) * (r - 2) < N \<and> N < (r + 2) * (r + 2)"
proof -
  have z0: "0 < z" using assms(1) by simp
  have M: "M = M div z * z + M mod z" "0 \<le> M mod z" "M mod z < z" using z0 by simp_all
  have q0: "0 \<le> M div z" using assms(8) z0 by (simp add: pos_imp_zdiv_nonneg_iff)
  have qz: "(M div z + 2) * z > N" using M assms(3) unfolding distrib_right by linarith
  moreover have "(M div z + 2) * z \<le> (q + 2) * z" by (rule mult_right_mono) (use assms(4) z0 in simp_all)
  ultimately have u: "N < (q + 2) * z" by linarith
  have "0 \<le> (q + 2 - z) * (q + 2 - z)" by simp
  then have "4 * N < (q + 2 + z) * (q + 2 + z)" using u by (simp add: algebra_simps)
  moreover have "q + 2 + z \<le> 2 * (r + 2)" "0 \<le> q + 2 + z" using half_sum [of q z] assms(4) q0 z0 by (simp_all add: r_def)
  ultimately have up: "N < (r + 2) * (r + 2)" using square_bound_trans by blast
  define p where "p = M div z"
  have pz: "p * z \<le> N" using M assms(2) unfolding p_def by linarith
  define y where "y = p + z - 2"
  have "2 * z \<le> z * z" using assms(1) by (intro mult_right_mono) simp_all
  then have yz: "0 \<le> y * z" "y * z \<le> z * z + N - 2 * z" using pz q0 assms(1) by (simp_all add: y_def p_def algebra_simps add_increasing2)
  have "(y * z) * (y * z) \<le> (z * z + N - 2 * z) * (z * z + N - 2 * z)" using yz by (intro mult_mono) simp_all
  also have "\<dots> = (z * z - N) * (z * z - N) + 4 * N * (z * z) + 4 * (z * z) - 4 * (z * (z * z)) - 4 * (z * N)"
    by (simp add: algebra_simps)
  also have "\<dots> < 4 * N * (z * z)"
  proof -
    have "z * z < z * N" using mult_strict_left_mono [OF assms(6) z0] .
    then show ?thesis using assms(7) by linarith
  qed
  finally have "(y * y) * (z * z) < (4 * N) * (z * z)" by (simp only: mult_ac)
  then have "y * y < 4 * N" using z0 by (simp add: mult_less_cancel_right_disj)
  moreover have "2 * (r - 2) \<le> y" "0 \<le> 2 * (r - 2)" using half_sum [of q z] assms(1,4,5) q0 by (simp_all add: r_def y_def p_def)
  ultimately have "(r - 2) * (r - 2) < N" using square_bound_trans' by blast
  with up show ?thesis by simp
qed

lemma heron_top:
  fixes a z :: int
  assumes "2 ^ 31 \<le> a" "a < 2 ^ 32" "z \<le> a" "2 ^ 31 \<le> z" "(z * z - 2 ^ 32 * a) * (z * z - 2 ^ 32 * a) \<le> 4 * (z * (z * z))"
  defines "r \<equiv> 2 ^ 31 + a div 2"
  shows "(r - 2) * (r - 2) < 2 ^ 32 * a \<and> 2 ^ 32 * a < (r + 2) * (r + 2)"
proof -
  define d where "d = 2 ^ 32 - a"
  have a: "a = 2 ^ 32 - d" by (simp add: d_def)
  have "4 * (z * (z * z)) \<le> 4 * (2 ^ 32 * (2 ^ 32 * 2 ^ 32))" by (intro mult_mono) (use assms in simp_all)
  then have "\<bar>z * z - 2 ^ 32 * a\<bar> \<le> 2 ^ 49" using assms(5) abs_le_square_iff [of "z * z - 2 ^ 32 * a" "2 ^ 49"] by (simp add: power2_eq_square)
  moreover have "z * z \<le> a * a" by (intro mult_mono) (use assms in simp_all)
  ultimately have ad: "a * d \<le> 2 ^ 49" by (simp add: d_def algebra_simps abs_le_iff)
  moreover have "2 ^ 31 * d \<le> a * d" by (rule mult_right_mono) (use assms in \<open>simp_all add: d_def\<close>)
  ultimately have d: "0 < d" "d \<le> 2 ^ 18" using assms(2) by (simp_all add: d_def)
  then have "(2 ^ 31 + 2 ^ 30) * d \<le> a * d" by (intro mult_right_mono) (use d in \<open>simp_all add: a\<close>)
  then have "(2 ^ 31 + 2 ^ 30) * d \<le> 2 ^ 49" using ad by (rule order_trans)
  with d(1) have d: "0 < d" "d \<le> 180000" by simp_all
  then have dd: "d * d \<le> 180000 * 180000" by (intro mult_mono) simp_all
  have "0 < d * d" using d by simp
  note dd = dd this
  then have "(2 ^ 32 + a - 4) * (2 ^ 32 + a - 4) < 4 * (2 ^ 32 * a)" using d unfolding a by (simp add: algebra_simps)
  moreover have "4 * (2 ^ 32 * a) < (2 ^ 32 + a + 3) * (2 ^ 32 + a + 3)" using d(2) dd unfolding a by (simp add: algebra_simps)
  moreover have "2 ^ 32 + a + 3 \<le> 2 * (r + 2)" "2 * (r - 2) \<le> 2 ^ 32 + a - 4" "0 \<le> 2 * (r - 2)" "0 \<le> 2 ^ 32 + a + 3"
    using assms(1) unfolding r_def by simp_all
  ultimately show ?thesis using square_bound_trans square_bound_trans' by metis
qed

text \<open>The radicand whose root the estimate approximates, by the parity of the exponent.\<close>

definition sqrt_radicand :: "int \<Rightarrow> bits32 \<Rightarrow> int" where
  "sqrt_radicand e a = uint a * (if odd e then 2 ^ 31 else 2 ^ 32)"

lemma and_1_odd: "e AND 1 \<noteq> 0 \<longleftrightarrow> odd e" for e :: int
  by (simp add: and_one_eq odd_iff_mod_2_eq_one)

lemma val64_high: "val64 (h, 0) = uint h * 2 ^ 32" by (simp add: val64_def)

lemma uint_c_shl_small: "0 \<le> n \<Longrightarrow> uint w * 2 ^ nat n < 2 ^ 32 \<Longrightarrow> uint (c_shl w n) = uint w * 2 ^ nat n" for w :: bits32
  by (simp add: uint_c_shl)

lemma uint_plus_small: "uint v + uint w < 2 ^ 32 \<Longrightarrow> uint (v + w) = uint v + uint w" for v w :: bits32
  by (simp add: uint_word_ariths)

lemma uint_sar_high:
  fixes a :: bits32
  assumes "2 ^ 31 \<le> uint a"
  shows "uint (signed_drop_bit 1 a) = 2 ^ 31 + uint a div 2"
proof -
  have s: "sint a = uint a - 2 ^ 32" using sint32_neg_iff [of a] assms sint_eq [of a] by simp
  have "sint (signed_drop_bit 1 a) = sint a div 2" by (simp add: sint_signed_drop_bit_eq drop_bit_eq_div)
  also have "\<dots> = uint a div 2 - 2 ^ 31" unfolding s by simp
  finally have d: "sint (signed_drop_bit 1 a) = uint a div 2 - 2 ^ 31" .
  then have "sint (signed_drop_bit 1 a) < 0" using uint_lt2p [of a] by simp
  then show ?thesis using d sint_eq [of "signed_drop_bit 1 a"] by simp
qed

lemma div_mod_cases: "2 * (a div 2) \<le> a" "a \<le> 2 * (a div 2) + 1" for a :: int
  by presburger+

lemma estimateSqrt32_bounds:
  assumes "2 ^ 31 \<le> uint a"
  shows "\<exists>r. estimateSqrt32 aExp a = Some r \<and>
    (uint r - 2) * (uint r - 2) < sqrt_radicand aExp a \<and> sqrt_radicand aExp a < (uint r + 2) * (uint r + 2)"
proof (cases "odd aExp")
  case True
  define z0 where "z0 = (0x4000 + c_shr a 17 - ucast (sqrtOddAdjustments ! unat (c_shr a 27 AND 15)) :: bits32)"
  define z where "z = c_shl (a div z0) 14 + c_shl z0 15"
  note t = sqrt_odd_table [OF assms, folded z0_def, THEN conjunct1]
    sqrt_odd_table [OF assms, folded z0_def, THEN conjunct2, THEN conjunct1]
    sqrt_odd_table [OF assms, folded z0_def, THEN conjunct2, THEN conjunct2]
  note n = newton_odd [OF assms t]
  have w: "uint (a div z0) = uint a div uint z0" by (rule uint_div_distrib)
  have "uint (c_shl (a div z0) 14) = uint (a div z0) * 2 ^ 14" "uint (c_shl z0 15) = uint z0 * 2 ^ 15"
    using n(4,5) t by (simp_all add: uint_c_shl_small w)
  then have z: "uint z = 2 ^ 14 * (uint a div uint z0 + 2 * uint z0)"
    using uint_plus_small [of "c_shl (a div z0) 14" "c_shl z0 15"] n(2) by (simp add: z_def w)
  note n = n [folded z]
  have h: "uint (c_shr a 1) = uint a div 2" by (simp add: uint_c_shr)
  have ha: "uint a div 2 < 2 ^ 31" using uint_lt2p [of a] by (intro int_div_lt) simp_all
  obtain q where q: "estimateDiv64To32 (c_shr a 1) 0 z = Some q"
    "uint (c_shr a 1) * 2 ^ 32 div uint z \<le> uint q" "uint q \<le> uint (c_shr a 1) * 2 ^ 32 div uint z + 2"
    using estimateDiv64To32_bounds [OF n(1), of "c_shr a 1" 0] n(1) ha by (auto simp: h word_less_def val64_high)
  have u: "uint (c_shr q 1 + c_shr z 1) = uint q div 2 + uint z div 2"
    using uint_plus_small [of "c_shr q 1" "c_shr z 1"] uint_lt2p [of q] uint_lt2p [of z] by (simp add: uint_c_shr)
  have "estimateSqrt32 aExp a = Some (c_shr q 1 + c_shr z 1)"
    using True q(1) by (simp add: estimateSqrt32_def and_1_odd Let_def flip: z0_def z_def)
  moreover have "uint a div 2 * 2 ^ 32 \<le> 2 ^ 31 * uint a" "2 ^ 31 * uint a \<le> uint a div 2 * 2 ^ 32 + uint z" "uint z < 2 ^ 31 * uint a"
    using div_mod_cases [of "uint a"] n(1,2) assms by simp_all
  ultimately show ?thesis using heron_bounds [OF n(1) _ _ q(2,3), of "2 ^ 31 * uint a"] n(3) True
    by (simp add: sqrt_radicand_def u h mult.commute)
next
  case False
  define z0 where "z0 = (0x8000 + c_shr a 17 - ucast (sqrtEvenAdjustments ! unat (c_shr a 27 AND 15)) :: bits32)"
  define v where "v = a div z0 + z0"
  define z where "z = (if 0x20000 \<le> v then 0xFFFF8000 else c_shl v 15)"
  have t: "2 ^ 15 \<le> uint z0" "uint z0 < 2 ^ 16" "\<bar>uint z0 * uint z0 - uint a\<bar> \<le> 420 * uint z0"
    using sqrt_even_table [OF assms, folded z0_def] by simp_all
  have ua: "uint a < 2 ^ 32" using uint_lt2p [of a] by simp
  note n = newton_even [OF assms ua t]
  have v: "uint v = uint a div uint z0 + uint z0"
    using uint_plus_small [of "a div z0" z0] n(5) t(2) by (simp add: v_def uint_div_distrib)
  have z: "uint z = (if 2 ^ 17 \<le> uint v then 2 ^ 32 - 2 ^ 15 else 2 ^ 15 * uint v)"
    by (simp add: z_def word_le_def uint_c_shl_small)
  note n = n [folded v, folded z]
  show ?thesis
  proof (cases "z \<le> a")
    case True
    have "estimateSqrt32 aExp a = Some (signed_drop_bit 1 a)"
      using False True unfolding estimateSqrt32_def Let_def z0_def [symmetric] v_def [symmetric] z_def [symmetric]
      by (simp add: and_1_odd)
    then show ?thesis using heron_top [OF assms ua _ n(1) n(3)] uint_sar_high [OF assms] True False
      by (simp add: sqrt_radicand_def word_le_def mult.commute)
  next
    case za: False
    obtain q where q: "estimateDiv64To32 a 0 z = Some q"
      "uint a * 2 ^ 32 div uint z \<le> uint q" "uint q \<le> uint a * 2 ^ 32 div uint z + 2"
      using estimateDiv64To32_bounds [OF n(1), of a 0] za by (auto simp: not_le val64_high)
    have u: "uint (c_shr q 1 + c_shr z 1) = uint q div 2 + uint z div 2"
      using uint_plus_small [of "c_shr q 1" "c_shr z 1"] uint_lt2p [of q] uint_lt2p [of z] by (simp add: uint_c_shr)
    have "estimateSqrt32 aExp a = Some (c_shr q 1 + c_shr z 1)"
      using False za q(1) unfolding estimateSqrt32_def Let_def z0_def [symmetric] v_def [symmetric] z_def [symmetric]
      by (simp add: and_1_odd)
    moreover have "uint z < uint a * 2 ^ 32" using assms n(2) by simp
    ultimately show ?thesis using heron_bounds [OF n(1) _ _ q(2,3), of "uint a * 2 ^ 32"] n(1,3) False
      by (simp add: sqrt_radicand_def u mult.commute)
  qed
qed

section \<open>Significands that approximate a square root\<close>

text \<open>
  \<open>root_sticks j y N\<close>: the integer \<open>y\<close> agrees with the square root of \<open>N\<close> down to bit \<open>j\<close>, and the bits below
  are zero in both or in neither, as \<open>sticks\<close> states of a quotient.  \<open>jam_root V M\<close>: \<open>V\<close> is the square root of \<open>M\<close>
  rounded down, its lowest bit set when it is not exact.
\<close>

definition root_sticks :: "nat \<Rightarrow> int \<Rightarrow> int \<Rightarrow> bool" where
  "root_sticks j y N \<longleftrightarrow>
     (let h = y - y mod 2 ^ j in 0 \<le> h \<and> h * h \<le> N \<and> N < (h + 2 ^ j) * (h + 2 ^ j) \<and> (y mod 2 ^ j = 0 \<longleftrightarrow> N = h * h))"

definition jam_root :: "int \<Rightarrow> int \<Rightarrow> bool" where
  "jam_root V M \<longleftrightarrow>
     0 \<le> V \<and> (V * V = M \<or> odd V \<and> (V - 1) * (V - 1) < M \<and> M < (V + 1) * (V + 1))"

lemma square_le_iff: "0 \<le> x \<Longrightarrow> 0 \<le> y \<Longrightarrow> x * x \<le> y * y \<longleftrightarrow> x \<le> y" for x y :: int
  using mult_mono [of x y x y] mult_strict_mono [of y x y x] by (auto simp flip: not_less)

lemma square_less_iff: "0 \<le> x \<Longrightarrow> 0 \<le> y \<Longrightarrow> x * x < y * y \<longleftrightarrow> x < y" for x y :: int
  using square_le_iff [of y x] by (simp flip: not_le)

lemma floor_root_exists: "\<exists>f. 0 \<le> f \<and> f * f \<le> int n \<and> int n < (f + 1) * (f + 1)"
proof (induction n)
  case 0
  show ?case by (intro exI [of _ 0]) simp
next
  case (Suc n)
  then obtain f where f: "0 \<le> f" "f * f \<le> int n" "int n < (f + 1) * (f + 1)" by blast
  show ?case
  proof (cases "int (Suc n) < (f + 1) * (f + 1)")
    case False
    then show ?thesis using f by (intro exI [of _ "f + 1"]) (simp add: algebra_simps)
  qed (use f in auto)
qed

lemma floor_root:
  fixes M :: int
  assumes "0 \<le> M"
  obtains f where "0 \<le> f" "f * f \<le> M" "M < (f + 1) * (f + 1)"
  using floor_root_exists [of "nat M"] assms by auto

lemma jam_root_exists:
  assumes "0 \<le> M"
  obtains V where "jam_root V M"
proof -
  obtain f where f: "0 \<le> f" "f * f \<le> M" "M < (f + 1) * (f + 1)" using floor_root [OF assms] by blast
  show thesis
  proof (cases "f * f = M \<or> odd f")
    case True
    have "f * f = M \<or> odd f \<and> (f - 1) * (f - 1) < M"
    proof (cases "f * f = M")
      case False
      then have "odd f" using True by blast
      then have "(f - 1) * (f - 1) < f * f" using f(1) by (subst square_less_iff) (auto elim: oddE)
      then show ?thesis using \<open>odd f\<close> f(2) by simp
    qed simp
    then show thesis using that [of f] f by (auto simp: jam_root_def)
  next
    case False
    have "(f + 1) * (f + 1) < (f + 2) * (f + 2)" using f(1) by (simp add: square_less_iff)
    then show thesis using that [of "f + 1"] False f by (simp add: jam_root_def algebra_simps)
  qed
qed

text \<open>Compared with an even number, the jammed root stands for the root itself.\<close>

lemma jam_root_even:
  assumes "jam_root V M" "even e" "0 \<le> e"
  shows "V \<le> e \<longleftrightarrow> M \<le> e * e" "e \<le> V \<longleftrightarrow> e * e \<le> M"
proof -
  have V: "0 \<le> V" using assms(1) by (simp add: jam_root_def)
  consider (exact) "M = V * V" | (odd) "odd V" "(V - 1) * (V - 1) < M" "M < (V + 1) * (V + 1)"
    using assms(1) by (auto simp: jam_root_def)
  then have "(V \<le> e \<longleftrightarrow> M \<le> e * e) \<and> (e \<le> V \<longleftrightarrow> e * e \<le> M)"
  proof cases
    case exact
    then show ?thesis using V assms(3) by (simp add: square_le_iff)
  next
    case odd
    have ne: "V \<noteq> e" using odd(1) assms(2) by auto
    show ?thesis
    proof (cases "V < e")
      case True
      then have "(V + 1) * (V + 1) \<le> e * e" using V by (intro mult_mono) simp_all
      then show ?thesis using True odd(3) by linarith
    next
      case False
      then have "e * e \<le> (V - 1) * (V - 1)" using ne assms(3) by (intro mult_mono) simp_all
      then show ?thesis using False ne odd(2) by linarith
    qed
  qed
  then show "V \<le> e \<longleftrightarrow> M \<le> e * e" "e \<le> V \<longleftrightarrow> e * e \<le> M" by blast+
qed

text \<open>A significand agrees with the jammed root of the radicand at any finer scale.\<close>

lemma root_sticks_sticks:
  assumes "root_sticks j y N" "jam_root V M" "N * 2 ^ (2 * k) = M * 2 ^ (2 * i)" "i < j + k"
  shows "sticks j y (V * 2 ^ i) (2 ^ k)"
proof -
  define q r h where "q = y div 2 ^ j" and "r = y mod 2 ^ j" and "h = q * 2 ^ (j + k - i)"
  have y: "y = q * 2 ^ j + r" "0 \<le> r" "r < 2 ^ j" unfolding q_def r_def by (simp_all only: div_mult_mod_eq) simp_all
  have yh: "y - y mod 2 ^ j = q * 2 ^ j" using y(1) by (simp add: r_def)
  have rs: "0 \<le> q * 2 ^ j" "q * 2 ^ j * (q * 2 ^ j) \<le> N" "N < (q * 2 ^ j + 2 ^ j) * (q * 2 ^ j + 2 ^ j)"
    "r = 0 \<longleftrightarrow> N = q * 2 ^ j * (q * 2 ^ j)"
    using assms(1) unfolding root_sticks_def Let_def yh by (simp_all add: r_def)
  have q0: "0 \<le> q" using rs(1) by (simp add: zero_le_mult_iff)
  have scale: "(c * 2 ^ (j + k - i)) * (c * 2 ^ (j + k - i)) * 2 ^ (2 * i) = (c * 2 ^ j) * (c * 2 ^ j) * 2 ^ (2 * k)" for c :: int
  proof -
    have "(2::int) ^ (j + k - i) * 2 ^ i = 2 ^ j * 2 ^ k" using assms(4) by (simp flip: power_add)
    then show ?thesis by (simp add: mult_2 power_add) (metis mult.assoc mult.commute mult.left_commute)
  qed
  have le: "(c * 2 ^ (j + k - i)) * (c * 2 ^ (j + k - i)) \<le> M \<longleftrightarrow> (c * 2 ^ j) * (c * 2 ^ j) \<le> N" for c
    using mult_le_cancel_right_pos [of "2 ^ (2 * i)" "(c * 2 ^ (j + k - i)) * (c * 2 ^ (j + k - i))" M]
      mult_le_cancel_right_pos [of "2 ^ (2 * k)" "(c * 2 ^ j) * (c * 2 ^ j)" N] by (simp add: scale assms(3))
  have eq: "M = h * h \<longleftrightarrow> N = q * 2 ^ j * (q * 2 ^ j)"
    using mult_cancel_right [of "h * h" "2 ^ (2 * i)" M] mult_cancel_right [of "(q * 2 ^ j) * (q * 2 ^ j)" "2 ^ (2 * k)" N]
      scale [of q] by (auto simp: h_def assms(3))
  have ev: "even (c * 2 ^ (j + k - i))" for c :: int using assms(4) by simp
  have lo: "h \<le> V" using jam_root_even(2) [OF assms(2) ev [of q]] le [of q] rs(2) q0 by (simp add: h_def)
  have "\<not> (q + 1) * 2 ^ (j + k - i) \<le> V"
    using jam_root_even(2) [OF assms(2) ev [of "q + 1"]] le [of "q + 1"] rs(3) q0 by (simp add: distrib_right)
  then have hi: "V < h + 2 ^ (j + k - i)" by (simp add: h_def distrib_right)
  have ex: "V = h \<longleftrightarrow> M = h * h" using jam_root_even [OF assms(2) ev [of q]] q0 by (auto simp: h_def)
  have s: "(2::int) ^ (j + k - i) * 2 ^ i = 2 ^ k * 2 ^ j" using assms(4) by (simp flip: power_add add: add.commute)
  show ?thesis
  proof (rule sticksI [OF y])
    show "V * 2 ^ i = q * (2 ^ k * 2 ^ j) + (V - h) * 2 ^ i" by (simp add: h_def left_diff_distrib mult.assoc s)
    have "(V - h) * 2 ^ i < 2 ^ (j + k - i) * 2 ^ i" using hi by simp
    then show "(V - h) * 2 ^ i < 2 ^ k * 2 ^ j" unfolding s .
    show "(r = 0) = ((V - h) * 2 ^ i = 0)" using ex eq rs(4) by auto
  qed (use lo in simp)
qed

text \<open>The nearest quotient of the jammed root is the nearest to the root itself.\<close>

lemma jam_root_nearest:
  assumes "jam_root V (M * 16)" "\<bar>A * 4 - V\<bar> \<le> \<bar>C * 4 - V\<bar>" "0 \<le> A" "0 \<le> C" "0 \<le> M"
  shows "\<bar>real_of_int A - sqrt (real_of_int M)\<bar> \<le> \<bar>real_of_int C - sqrt (real_of_int M)\<bar>"
proof -
  have mid: "V \<le> 2 * (A + C) \<longleftrightarrow> 2 * sqrt M \<le> real_of_int (A + C)" "2 * (A + C) \<le> V \<longleftrightarrow> real_of_int (A + C) \<le> 2 * sqrt M"
  proof -
    have s: "2 * sqrt (real_of_int M) = sqrt (real_of_int (4 * M))" by (simp add: real_sqrt_mult)
    have e: "real_of_int (A + C) = sqrt (real_of_int ((A + C) * (A + C)))" using assms(3,4) by simp
    have "V \<le> 2 * (A + C) \<longleftrightarrow> 4 * M \<le> (A + C) * (A + C)" "2 * (A + C) \<le> V \<longleftrightarrow> (A + C) * (A + C) \<le> 4 * M"
      using jam_root_even [OF assms(1), of "2 * (A + C)"] assms(3,4) by (auto simp: algebra_simps)
    then show "V \<le> 2 * (A + C) \<longleftrightarrow> 2 * sqrt M \<le> real_of_int (A + C)" "2 * (A + C) \<le> V \<longleftrightarrow> real_of_int (A + C) \<le> 2 * sqrt M"
      unfolding s e real_sqrt_le_iff of_int_le_iff by simp_all
  qed
  show ?thesis using assms(2) mid by (cases A C rule: linorder_cases) (auto simp: abs_if split: if_splits)
qed

lemma mod_pow2_less: "y mod 2 ^ j < 2 ^ j" for y :: int by simp

lemma root_sticksI:
  assumes "y = h + t" "2 ^ j dvd h" "0 \<le> h" "0 \<le> t" "t < 2 ^ j" "h * h \<le> N" "N < (h + 2 ^ j) * (h + 2 ^ j)" "t = 0 \<longleftrightarrow> N = h * h"
  shows "root_sticks j y N"
proof -
  obtain q where q: "h = 2 ^ j * q" using assms(2) by blast
  have "y mod 2 ^ j = t" using assms(4,5) by (simp add: assms(1) q)
  then show ?thesis using assms by (simp add: root_sticks_def Let_def)
qed

text \<open>The exact root with its sticky bit, and an estimate that is close enough, both agree with the root.\<close>

lemma root_sticks_exact:
  assumes "jam_root y N" "0 < j"
  shows "root_sticks j y N"
proof (rule root_sticksI)
  have y: "0 \<le> y" using assms(1) by (simp add: jam_root_def)
  let ?h = "y - y mod 2 ^ j"
  show d: "2 ^ j dvd ?h" by (rule dvd_minus_mod)
  show h0: "0 \<le> ?h" using y by (simp add: zmod_le_nonneg_dividend)
  have ev: "even ?h" "even (?h + 2 ^ j)" using assms(2) by (simp_all add: dvd_mod_iff)
  have "?h \<le> y" "\<not> ?h + 2 ^ j \<le> y" using mod_pow2_less [of y j] by (simp, linarith)
  then show "?h * ?h \<le> N" "N < (?h + 2 ^ j) * (?h + 2 ^ j)"
    using jam_root_even(2) [OF assms(1) ev(1) h0] jam_root_even(2) [OF assms(1) ev(2)] h0 by simp_all
  have "y = ?h \<longleftrightarrow> N = ?h * ?h" using jam_root_even [OF assms(1) ev(1) h0] by (metis order.eq_iff)
  then show "y mod 2 ^ j = 0 \<longleftrightarrow> N = ?h * ?h" by simp
qed simp_all

lemma root_sticks_near:
  assumes "0 \<le> f" "f * f \<le> N" "N < (f + 1) * (f + 1)" "f \<le> y" "y \<le> f + k" "k < y mod 2 ^ j"
  shows "root_sticks j y N"
proof (rule root_sticksI)
  let ?h = "y - y mod 2 ^ j"
  show "2 ^ j dvd ?h" by (rule dvd_minus_mod)
  show h0: "0 \<le> ?h" using assms(1,4) by (simp add: zmod_le_nonneg_dividend)
  have "?h * ?h < f * f" using h0 assms(1,5,6) by (subst square_less_iff) simp_all
  then show "?h * ?h \<le> N" "y mod 2 ^ j = 0 \<longleftrightarrow> N = ?h * ?h" using assms(2,4-6) by simp_all
  have "f + 1 \<le> ?h + 2 ^ j" using mod_pow2_less [of y j] assms(4) by linarith
  then have "(f + 1) * (f + 1) \<le> (?h + 2 ^ j) * (?h + 2 ^ j)" using assms(1) by (intro mult_mono) simp_all
  then show "N < (?h + 2 ^ j) * (?h + 2 ^ j)" using assms(3) by linarith
qed simp_all

lemma root_sticks_ge:
  assumes "root_sticks j y N" "2 ^ i * 2 ^ i \<le> N" "j \<le> i" 
  shows "2 ^ i \<le> y"
proof (rule ccontr)
  assume less: "\<not> ?thesis"
  let ?h = "y - y mod 2 ^ j"
  have h: "0 \<le> ?h" "N < (?h + 2 ^ j) * (?h + 2 ^ j)" using assms(1) by (simp_all add: root_sticks_def Let_def)
  obtain q where q: "?h = 2 ^ j * q" using dvd_minus_mod [of "2 ^ j" y] by blast
  have i: "(2::int) ^ i = 2 ^ j * 2 ^ (i - j)" using assms(3) by (simp flip: power_add)
  have "?h \<le> y" by simp
  then have "2 ^ j * q < 2 ^ j * 2 ^ (i - j)" using less by (simp only: q [symmetric] i [symmetric] not_le)
  then have "q + 1 \<le> 2 ^ (i - j)" by simp
  then have "2 ^ j * (q + 1) \<le> 2 ^ j * 2 ^ (i - j)" by simp
  then have "?h + 2 ^ j \<le> 2 ^ i" unfolding q i by (simp add: distrib_left)
  then have "(?h + 2 ^ j) * (?h + 2 ^ j) \<le> 2 ^ i * 2 ^ i" using h(1) by (intro mult_mono) simp_all
  then show False using h(2) assms(2) by linarith
qed

lemma double_or_1: "val64 (shortShift64Left 0 z 1) = 2 * uint z" "shortShift64Left 0 z 1 = (t0, t1) \<Longrightarrow> val64 (t0, t1 OR 1) = 2 * uint z + 1"
proof -
  show v: "val64 (shortShift64Left 0 z 1) = 2 * uint z" using uint_lt2p [of z] by (simp add: val64_shortShift64Left)
  assume t: "shortShift64Left 0 z 1 = (t0, t1)"
  have e: "uint t0 * 2 ^ 32 + uint t1 = 2 * uint z" using v by (simp add: t val64_def)
  have "even (uint t0 * 2 ^ 32 + uint t1)" unfolding e by simp
  then have "even (uint t1)" by simp
  then have "uint (t1 OR 1) = uint t1 + 1" using uint_or_bit_of [of t1 True] by (simp add: bit_of_def)
  then show "val64 (t0, t1 OR 1) = 2 * uint z + 1" using e by (simp add: val64_def)
qed

lemma jam_rootI:
  assumes "0 \<le> f" "f * f \<le> M" "M < (f + 1) * (f + 1)"
  shows "jam_root (f + (if M \<noteq> f * f \<and> even f then 1 else 0)) M"
proof (cases "M = f * f")
  case False
  show ?thesis
  proof (cases "even f")
    case True
    have "(f + 1) * (f + 1) < (f + 2) * (f + 2)" using assms(1) by (simp add: square_less_iff)
    then show ?thesis using False True assms by (simp add: jam_root_def algebra_simps)
  next
    case odd: False
    then have "(f - 1) * (f - 1) < f * f" using assms(1) by (subst square_less_iff) (auto elim: oddE)
    then show ?thesis using False odd assms by (simp add: jam_root_def)
  qed
qed (use assms(1) in \<open>simp add: jam_root_def\<close>)

lemma jam_half_range:
  fixes y :: int
  assumes "2 ^ 31 \<le> y" "y < 2 ^ 32"
  shows "2 ^ 30 \<le> jam_div y (2 ^ 1)" "jam_div y (2 ^ 1) < 2 ^ 31"
proof -
  have q: "2 ^ 30 \<le> y div 2" "y div 2 < 2 ^ 31" using assms by simp_all
  have "y div 2 + 1 < 2 ^ 31" if "even (y div 2)" using that q(2) by (cases "y div 2 = 2 ^ 31 - 1") auto
  then show "2 ^ 30 \<le> jam_div y (2 ^ 1)" "jam_div y (2 ^ 1) < 2 ^ 31" using q by (auto simp: jam_div_def Let_def)
qed

lemma nearest_nonneg:
  fixes z :: real and v :: "'a \<Rightarrow> int"
  assumes r: "\<And>c'. 0 \<le> v c' \<Longrightarrow> \<bar>z - sqrt (real_of_int M)\<bar> \<le> \<bar>real_of_int (v c') - sqrt (real_of_int M)\<bar>" and o: "v o' = 0" and M: "0 \<le> M"
  shows "\<bar>z - sqrt (real_of_int M)\<bar> \<le> \<bar>real_of_int (v c) - sqrt (real_of_int M)\<bar>"
proof (cases "0 \<le> v c")
  case False
  then have "real_of_int (v c) \<le> 0" by simp
  moreover have "0 \<le> sqrt (real_of_int M)" "\<bar>z - sqrt (real_of_int M)\<bar> \<le> sqrt (real_of_int M)" using r [of o'] o M by simp_all
  ultimately show ?thesis by linarith
qed (rule r)

end
