(* ===== verification/Float32_Sqrt.thy ===== *)
theory Float32_Sqrt
  imports Float32_Correct Float_Order Square_Root
begin

text \<open>
  The single-precision square root: its loop ends, and no single-precision number is nearer to the exact root
  than the one \<open>float32_sqrt\<close> returns.
\<close>

text \<open>The correction loop steps down to the root; the remainder tells whether it is exact.\<close>

lemma float32_sqrt_loop_returns:
  assumes "val64 (rem0, rem1) = (N - uint z * uint z) mod 2 ^ 64" "uint z * uint z - N \<le> 2 ^ 62" "0 \<le> f" "f * f \<le> N" "N < (f + 1) * (f + 1)"
    "f \<le> uint z"
  shows "\<exists>z' r0 r1. float32_sqrt_loop z rem0 rem1 = Some (z', r0, r1) \<and> uint z' = f \<and> val64 (r0, r1) = N - f * f"
  using assms
proof (induction "nat (uint z - f)" arbitrary: z rem0 rem1 rule: less_induct)
  case less
  have f32: "f < 2 ^ 32" using less.prems(6) uint_lt2p [of z] by simp
  have Nb: "N - f * f < 2 ^ 34" using less.prems(5) f32 by (simp add: algebra_simps)
  have "N - uint z * uint z \<le> N - f * f" using less.prems(3,6) by (simp add: mult_mono)
  then have neg: "sint rem0 < 0 \<longleftrightarrow> N < uint z * uint z"
    using signed_rem_neg [OF less.prems(1)] less.prems(2) Nb by simp
  show ?case
  proof (cases "N < uint z * uint z")
    case False
    then have "uint z < f + 1" using less.prems(3,5) square_less_iff [of "uint z" "f + 1"] by simp
    then have z: "uint z = f" using less.prems(6) by simp
    have "(N - f * f) mod 2 ^ 64 = N - f * f" using less.prems(4) Nb by simp
    then show ?thesis using False neg less.prems(1) by (subst float32_sqrt_loop.simps) (simp add: z)
  next
    case True
    have fz: "f < uint z" using less.prems(3,4) True square_less_iff [of f "uint z"] by simp
    have z1: "uint (z - 1) = uint z - 1" using fz less.prems(3) uint_lt2p [of z] by (simp add: uint_word_ariths)
    obtain t0 t1 where t: "shortShift64Left 0 (z - 1) 1 = (t0, t1)" by fastforce
    obtain s0 s1 where s: "add64 rem0 rem1 t0 (t1 OR 1) = (s0, s1)" by fastforce
    have "val64 (s0, s1) = (N - uint z * uint z + (2 * uint (z - 1) + 1)) mod 2 ^ 64"
      using val64_add64 [of rem0 rem1 t0 "t1 OR 1"] less.prems(1) double_or_1(2) [OF t] by (simp add: s mod_simps)
    also have "N - uint z * uint z + (2 * uint (z - 1) + 1) = N - uint (z - 1) * uint (z - 1)" by (simp add: z1 algebra_simps)
    finally have v: "val64 (s0, s1) = (N - uint (z - 1) * uint (z - 1)) mod 2 ^ 64" .
    have "uint (z - 1) * uint (z - 1) - N \<le> 2 ^ 62" using less.prems(2,3) fz by (simp add: z1 algebra_simps)
    then have "\<exists>z' r0 r1. float32_sqrt_loop (z - 1) s0 s1 = Some (z', r0, r1) \<and> uint z' = f \<and> val64 (r0, r1) = N - f * f"
      using fz less.prems(3-5) by (intro less.hyps [OF _ v]) (simp_all add: z1)
    then show ?thesis using neg True by (subst float32_sqrt_loop.simps) (simp add: t s)
  qed
qed

lemma sqrt_significand:
  assumes "2 ^ 31 \<le> uint A" "even (uint A)"
  shows "\<exists>y. (do {
      zSig \<leftarrow> estimateSqrt32 aExp A;
      let zSig = zSig + 2;
      if zSig AND 0x7F \<le> 5 \<and> zSig < 2 then Some (g 0x7FFFFFFF)
      else do {
        zSig \<leftarrow>
          (if zSig AND 0x7F \<le> 5
           then
             let aSig = c_shr A (aExp AND 1);
                 (term0, term1) = mul32To64 zSig zSig;
                 (rem0, rem1) = sub64 aSig 0 term0 term1
             in do {
               (zSig, rem0, rem1) \<leftarrow> float32_sqrt_loop zSig rem0 rem1;
               Some (zSig OR bit_of (rem0 OR rem1 \<noteq> 0)) }
           else Some zSig);
        Some (g (shift32RightJamming zSig 1)) } }) = Some (g (shift32RightJamming y 1)) \<and>
    root_sticks 7 (uint y) (sqrt_radicand aExp A) \<and> 2 ^ 31 \<le> uint y"
    (is "\<exists>y. ?body = _ \<and> _ \<and> _")
proof -
  define N where "N = sqrt_radicand aExp A"
  obtain r where r: "estimateSqrt32 aExp A = Some r" "(uint r - 2) * (uint r - 2) < N" "N < (uint r + 2) * (uint r + 2)"
    using estimateSqrt32_bounds [OF assms(1), of aExp] by (auto simp: N_def)
  have N: "2 ^ 31 * 2 ^ 31 \<le> N" "N < 2 ^ 64" using assms(1) uint_lt2p [of A] by (simp_all add: N_def sqrt_radicand_def)
  then have N0: "0 \<le> N" by simp
  have r31: "2 ^ 31 < uint r + 2" using N(1) r(3) square_less_iff [of "2 ^ 31" "uint r + 2"] by simp
  define z where "z = r + 2"
  have "\<exists>y. ?body = Some (g (shift32RightJamming y 1)) \<and> root_sticks 7 (uint y) N"
  proof (cases "uint r + 2 < 2 ^ 32")
    case False
    then have "uint z = uint r + 2 - 2 ^ 32" using uint_lt2p [of r] by (simp add: z_def uint_word_ariths mod_add_if_z)
    then have "uint z < 2" using uint_lt2p [of r] by simp
    then have "uint z = 0 \<or> uint z = 1" using uint_ge_0 [of z] by linarith
    then have z: "z = 0 \<or> z = 1" by (simp add: word_uint_eq_iff)
    have "?body = Some (g (shift32RightJamming 0xFFFFFFFF 1))"
      using z by (auto simp: r(1) Let_def shift32RightJamming_def c_shr_def bit_of_def simp flip: z_def)
    moreover have "root_sticks 7 (uint (0xFFFFFFFF :: bits32)) N"
    proof (rule root_sticksI [where h = "2 ^ 32 - 128" and t = 127])
      have "(2 ^ 32 - 128) * (2 ^ 32 - 128) \<le> (uint r - 2) * (uint r - 2)" using False by (intro mult_mono) simp_all
      then show "(2 ^ 32 - 128) * (2 ^ 32 - 128) \<le> N" "((127::int) = 0) = (N = (2 ^ 32 - 128) * (2 ^ 32 - 128))"
        using r(2) by simp_all
    qed (use N in simp_all)
    ultimately show ?thesis by blast
  next
    case True
    then have z: "uint z = uint r + 2" by (simp add: z_def uint_word_ariths)
    then have z2: "\<not> z < 2" using r31 by (simp add: word_less_def)
    have low: "uint (z AND 0x7F) = uint z mod 2 ^ 7" using uint_and_mask [of z 7] by (simp add: mask_eq_exp_minus_1)
    obtain f where f: "0 \<le> f" "f * f \<le> N" "N < (f + 1) * (f + 1)" using floor_root [OF N0] by blast
    have "f * f < uint z * uint z" using f(2) r(3) z by simp
    then have fz: "f \<le> uint z" using f(1) by (simp add: square_less_iff)
    have "(uint r - 2) * (uint r - 2) < (f + 1) * (f + 1)" using r(2) f(3) by linarith
    then have zf: "uint z \<le> f + 4" using f(1) r31 by (subst (asm) square_less_iff) (simp_all add: z)
    show ?thesis
    proof (cases "z AND 0x7F \<le> 5")
      case False
      then have "4 < uint z mod 2 ^ 7" using low by (simp add: word_le_def)
      then have "root_sticks 7 (uint z) N" using fz zf by (intro root_sticks_near [OF f]) simp_all
      moreover have "?body = Some (g (shift32RightJamming z 1))" using False z2 by (simp add: r(1) Let_def flip: z_def)
      ultimately show ?thesis by blast
    next
      case low5: True
      obtain t0 t1 where t: "mul32To64 z z = (t0, t1)" by fastforce
      obtain r0 r1 where d: "sub64 (c_shr A (aExp AND 1)) 0 t0 t1 = (r0, r1)" by fastforce
      have "val64 (c_shr A (aExp AND 1), 0) = N"
        using assms(2) by (cases "odd aExp") (auto simp: val64_high uint_c_shr and_one_eq N_def sqrt_radicand_def odd_iff_mod_2_eq_one)
      then have v: "val64 (r0, r1) = (N - uint z * uint z) mod 2 ^ 64"
        using val64_sub64 [of "c_shr A (aExp AND 1)" 0 t0 t1] val64_mul32To64 [of z z] by (simp add: d t)
      have "uint z * uint z - N \<le> 2 ^ 62" using r(2) uint_lt2p [of r] by (simp add: z algebra_simps)
      from float32_sqrt_loop_returns [OF v this f fz] obtain z' s0 s1 where
        l: "float32_sqrt_loop z r0 r1 = Some (z', s0, s1)" "uint z' = f" "val64 (s0, s1) = N - f * f" by blast
      define y where "y = z' OR bit_of (s0 OR s1 \<noteq> 0)"
      have "s0 OR s1 \<noteq> 0 \<longleftrightarrow> N \<noteq> f * f" using l(3) val64_inject [of s0 s1 0 0] or_word_eq_0 [of s0 s1] by (auto simp: val64_def)
      then have "uint y = f + (if N \<noteq> f * f \<and> even f then 1 else 0)" by (simp only: y_def uint_or_bit_of l(2))
      then have "jam_root (uint y) N" using jam_rootI [OF f] by simp
      then have "root_sticks 7 (uint y) N" by (rule root_sticks_exact) simp
      moreover have "?body = Some (g (shift32RightJamming y 1))"
        using low5 z2 by (simp add: r(1) Let_def t d l(1) y_def flip: z_def)
      ultimately show ?thesis by blast
    qed
  qed
  then show ?thesis using root_sticks_ge [of 7 _ N 31] N(1) unfolding N_def by auto
qed

lemma sqrt_exponents:
  fixes E m va :: int and A :: bits32
  assumes "va * 2 ^ nat (1 - E) = m * 2 ^ nat (E - 1)" "uint A = m * 2 ^ 8" "- 22 \<le> E" 
  defines "e \<equiv> (E - 0x7F) div 2 + 0x7E"
  shows "sqrt_radicand E A * 2 ^ (2 * nat e) = va * 2 ^ 149 * 16 * 2 ^ (2 * 6)" "51 \<le> e"
proof -
  show e: "51 \<le> e" using assms(3) by (simp add: e_def)
  define i where "i = (if odd E then 39 else 40 :: nat)"
  have "i + 2 * nat e + nat (1 - E) = 165 + nat (E - 1)"
  proof (cases "odd E")
    case True
    then obtain k where k: "E = 2 * k + 1" by (rule oddE)
    have "(E - 0x7F) div 2 = k - 63" by (simp add: k)
    then show ?thesis using e by (simp add: e_def i_def k nat_eq_iff)
  next
    case False
    then obtain k where k: "E = 2 * k" by blast
    have "(E - 0x7F) div 2 = k - 64" unfolding k by presburger
    then show ?thesis using e by (simp add: e_def i_def k nat_eq_iff)
  qed
  then have "(2::int) ^ i * 2 ^ (2 * nat e) * 2 ^ nat (1 - E) = 2 ^ 165 * 2 ^ nat (E - 1)" by (simp only: power_add [symmetric])
  then have "(m * 2 ^ i * 2 ^ (2 * nat e)) * 2 ^ nat (1 - E) = 2 ^ 165 * (m * 2 ^ nat (E - 1))" by (simp only: mult_ac)
  also have "\<dots> = (va * 2 ^ 165) * 2 ^ nat (1 - E)" unfolding assms(1) [symmetric] by (simp only: mult_ac)
  finally have "m * 2 ^ i * 2 ^ (2 * nat e) = va * 2 ^ 165" by simp
  then show "sqrt_radicand E A * 2 ^ (2 * nat e) = va * 2 ^ 149 * 16 * 2 ^ (2 * 6)"
    by (simp add: sqrt_radicand_def assms(2) i_def split: if_splits)
qed

lemma float32_sqrt_positive:
  assumes "nearest_even s" "finite32 a" "\<not> extractFloat32Sign a" "abs32 a \<noteq> 0" "jam_root V (abs32 a * 2 ^ 149 * 16)"
  shows "\<exists>z s'. float32_sqrt a s = Some (z, s') \<and> uint z = sign32 False + round32 V 4 \<and> uint z < float32_inf"
proof -
  obtain E S where u: "unpack32 a = (E, S)" by fastforce
  note va = unpack32_value [OF assms(2,4) u]
  define A where "A = c_shl (S OR 0x00800000) 8"
  have A: "uint A = uint (S OR 0x00800000) * 2 ^ 8" using va(2) by (simp add: A_def uint_shl_sig)
  define e where "e = (E - 0x7F) div 2 + 0x7E"
  note ex = sqrt_exponents [OF va(5) A va(3), folded e_def]
  have e: "e \<le> 189" using va(4) by (simp add: e_def)
  have nf: "(extractFloat32Exp a = 0xFF) = False" "(extractFloat32Exp a = 0 \<and> extractFloat32Frac a = 0) = False"
    "extractFloat32Sign a = False" using assms(2-4) by (simp_all add: finite32_def abs32_0_iff)
  define g where "g = (\<lambda>z. roundAndPackFloat32 False e z s)"
  have A31: "2 ^ 31 \<le> uint A" "even (uint A)" using va(1) by (simp_all add: A)
  obtain y where y: "float32_sqrt a s = Some (g (shift32RightJamming y 1))"
    "root_sticks 7 (uint y) (sqrt_radicand E A)" "2 ^ 31 \<le> uint y"
    using sqrt_significand [OF A31, of E g]
    by (auto simp only: float32_sqrt_def Let_def unpack32_def [symmetric] u prod.case nf if_False e_def [symmetric] A_def [symmetric] g_def)
  define z where "z = shift32RightJamming y 1"
  have z: "uint z = jam_div (uint y) (2 ^ 1)" using shift32RightJamming_jam_div [of 1 y] by (simp add: z_def)
  have "sticks 7 (uint y) (V * 2 ^ 6) (2 ^ nat e)" using ex(2) by (intro root_sticks_sticks [OF y(2) assms(5) ex(1)]) simp
  then have s: "sticks 6 (uint z) (V * 2 ^ 6) (2 ^ nat e * 2 ^ 1)" unfolding z by (rule sticks_jam_shift) simp_all
  have zr: "2 ^ 30 \<le> uint z" "uint z < 2 ^ 31" using jam_half_range [OF y(3)] uint_lt2p [of y] by (simp_all add: z)
  have V: "0 \<le> V" using assms(5) by (simp add: jam_root_def)
  have "uint (fst (g z)) = sign32 False + round32 V 4"
    unfolding g_def by (rule round32_pack [OF assms(1) _ V s]) (use ex(2) e zr in simp_all)
  moreover have "uint (fst (g z)) < float32_inf"
    using roundAndPackFloat32_value [OF assms(1) zr(2), of e False] rne_div_bounds_31 [of "uint z"] ex(2) e zr
    by (simp add: g_def packed_def float32_inf_def)
  ultimately show ?thesis using y(1) by (cases "g z") (auto simp: z_def)
qed

text \<open>
  C8. The single-precision square root is correctly rounded: for every finite operand that is not negative, in
  the rounding mode to nearest even, \<open>float32_sqrt\<close> terminates and returns a finite number, and no number \<open>c\<close> of
  the format is nearer to the exact root.  A negative operand gives the default NaN and the invalid flag.  Values
  count units of \<open>2 ^ -149\<close>, so the root of the value is scaled by the root of \<open>2 ^ 149\<close>.
\<close>

theorem float32_sqrt_correct:
  assumes "nearest_even s" "finite32 a" "finite32 c"
  shows "if val32 a < 0 then float32_sqrt a s = Some (float32_default_nan, float_raise float_flag_invalid s)
    else \<exists>z s'. float32_sqrt a s = Some (z, s') \<and> finite32 z \<and> 0 \<le> val32 z \<and>
      \<bar>real_of_int (val32 z) - sqrt (real_of_int (val32 a * 2 ^ 149))\<bar> \<le> \<bar>real_of_int (val32 c) - sqrt (real_of_int (val32 a * 2 ^ 149))\<bar>"
proof (cases "abs32 a = 0")
  case True
  then have "float32_sqrt a s = Some (a, s) \<or> float32_sqrt a s = Some (0, s)"
    using assms(2) by (auto simp: float32_sqrt_def abs32_0_iff finite32_def)
  moreover have "val32 a = 0" "val32 0 = 0" "finite32 0" using True by (auto simp: val32_def) code_simp+
  ultimately show ?thesis using assms(2) by auto
next
  case False
  show ?thesis
  proof (cases "extractFloat32Sign a")
    case True
    have "word_of_int (extractFloat32Exp a) = (0 :: bits32) \<longleftrightarrow> extractFloat32Exp a = 0"
      using float32_ranges(1,2) [of a] by (simp add: word_uint_eq_iff uint_word_of_int)
    then have "float32_sqrt a s = Some (float32_default_nan, float_raise float_flag_invalid s)"
      using True False assms(2) by (auto simp: float32_sqrt_def finite32_def abs32_0_iff or_word_eq_0)
    then show ?thesis using True False abs32_nonneg [of a] by (simp add: val32_def)
  next
    case pos: False
    define M where "M = abs32 a * 2 ^ 149"
    have M: "0 \<le> M" "val32 a * 2 ^ 149 = M" using pos abs32_nonneg [of a] by (simp_all add: M_def val32_def)
    obtain V where V: "jam_root V (M * 16)" using jam_root_exists [of "M * 16"] M(1) by auto
    obtain z s' where z: "float32_sqrt a s = Some (z, s')" "uint z = sign32 False + round32 V 4" "uint z < float32_inf"
      using float32_sqrt_positive [OF assms(1,2) pos False V [unfolded M_def]] by blast
    have "uint z < 2 ^ 31" using z(3) by (simp add: float32_inf_def)
    then have zf: "\<not> extractFloat32Sign z" "finite32 z" "0 \<le> val32 z"
      using z(3) abs32_nonneg [of z] by (auto simp: float32_fields finite32_mag mag32_def float32_inf_def val32_def)
    have V0: "0 \<le> V" using V by (simp add: jam_root_def)
    have near: "\<bar>val32 z * 4 - V\<bar> \<le> \<bar>val32 c' * 4 - V\<bar>" for c'
      by (rule binary32.nearest [where sg = False]) (use zf(2) z(2) V0 in simp_all)
    have r: "\<bar>real_of_int (val32 z) - sqrt (real_of_int M)\<bar> \<le> \<bar>real_of_int (val32 c') - sqrt (real_of_int M)\<bar>" if "0 \<le> val32 c'" for c'
      by (rule jam_root_nearest [OF V near zf(3) that M(1)])
    have "\<bar>real_of_int (val32 z) - sqrt (real_of_int M)\<bar> \<le> \<bar>real_of_int (val32 c) - sqrt (real_of_int M)\<bar>"
      by (rule nearest_nonneg [where o' = 0, OF r _ M(1)]) (assumption, code_simp)
    then show ?thesis using z(1) zf M pos abs32_nonneg [of a] by (auto simp: val32_def)
  qed
qed

theorem float32_sqrt_correct_witness:
  "\<exists>z s'. float32_sqrt 0x40000000 fp_init = Some (z, s') \<and>
    \<bar>real_of_int (val32 z) - sqrt (real_of_int (val32 0x40000000 * 2 ^ 149))\<bar>
      \<le> \<bar>real_of_int (val32 0x3FB504F4) - sqrt (real_of_int (val32 0x40000000 * 2 ^ 149))\<bar>"
proof -
  have "nearest_even fp_init" "finite32 0x40000000" "finite32 0x3FB504F4" "\<not> val32 0x40000000 < 0" by code_simp+
  then show ?thesis using float32_sqrt_correct [of fp_init "0x40000000" "0x3FB504F4"] by auto
qed

end
