(* ===== verification/Float64_Sqrt.thy ===== *)
theory Float64_Sqrt
  imports Float64_Correct Square_Root
begin

text \<open>
  The double-precision square root.  The upper half of the root is corrected exactly; the lower half is one
  estimated digit, corrected only when its last bits could be wrong.
\<close>

section \<open>The upper half of the root\<close>

lemma float64_sqrt_loop0_returns:
  assumes "val64 (rem0, rem1) = (A - uint z * uint z) mod 2 ^ 64" "uint z \<le> 2 ^ 31" "0 \<le> f" "f * f \<le> A" "A < (f + 1) * (f + 1)"
    "f \<le> uint z"
  shows "\<exists>z' r0 r1. float64_sqrt_loop0 z (z + z) rem0 rem1 = Some (z', z' + z', r0, r1) \<and> uint z' = f \<and> val64 (r0, r1) = A - f * f"
  using assms
proof (induction "nat (uint z - f)" arbitrary: z rem0 rem1 rule: less_induct)
  case less
  have Nb: "A - f * f < 2 ^ 34" using less.prems(2,5,6) by (simp add: algebra_simps)
  have "A - uint z * uint z \<le> A - f * f" using less.prems(3,6) by (simp add: mult_mono)
  moreover have "uint z * uint z \<le> 2 ^ 31 * 2 ^ 31" using less.prems(2) by (intro mult_mono) simp_all
  moreover have "0 \<le> A" using less.prems(3,4) zero_le_square [of f] by linarith
  ultimately have neg: "sint rem0 < 0 \<longleftrightarrow> A < uint z * uint z"
    using signed_rem_neg [OF less.prems(1)] Nb by simp
  show ?case
  proof (cases "A < uint z * uint z")
    case False
    then have "uint z < f + 1" using less.prems(3,5) square_less_iff [of "uint z" "f + 1"] by simp
    then have z: "uint z = f" using less.prems(6) by simp
    have "(A - f * f) mod 2 ^ 64 = A - f * f" using less.prems(4) Nb by simp
    then show ?thesis using False neg less.prems(1) by (subst float64_sqrt_loop0.simps) (simp add: z)
  next
    case True
    have fz: "f < uint z" using less.prems(3,4) True square_less_iff [of f "uint z"] by simp
    have z1: "uint (z - 1) = uint z - 1" using fz less.prems(3) uint_lt2p [of z] by (simp add: uint_word_ariths)
    define d where "d = z + z - 2"
    have d: "d = (z - 1) + (z - 1)" by (simp add: d_def)
    have "uint d = 2 * uint (z - 1)" unfolding d using less.prems(2) fz less.prems(3) by (subst uint_plus_small) (simp_all add: z1)
    then have t: "uint (d OR 1) = 2 * uint (z - 1) + 1" using uint_or_bit_of [of d True] by (simp add: bit_of_def)
    obtain s0 s1 where s: "add64 rem0 rem1 0 (d OR 1) = (s0, s1)" by fastforce
    have "val64 (s0, s1) = (A - uint z * uint z + (2 * uint (z - 1) + 1)) mod 2 ^ 64"
      using val64_add64 [of rem0 rem1 0 "d OR 1"] less.prems(1) t by (simp add: s mod_simps)
    also have "A - uint z * uint z + (2 * uint (z - 1) + 1) = A - uint (z - 1) * uint (z - 1)" by (simp add: z1 algebra_simps)
    finally have v: "val64 (s0, s1) = (A - uint (z - 1) * uint (z - 1)) mod 2 ^ 64" .
    have "\<exists>z' r0 r1. float64_sqrt_loop0 (z - 1) ((z - 1) + (z - 1)) s0 s1 = Some (z', z' + z', r0, r1) \<and> uint z' = f \<and> val64 (r0, r1) = A - f * f"
      using fz less.prems(2-5) by (intro less.hyps [OF _ v]) (simp_all add: z1)
    from this [folded d]
    show ?thesis using neg True by (subst float64_sqrt_loop0.simps) (simp only: d_def [symmetric] s Let_def prod.case if_True)
  qed
qed

text \<open>The estimate, halved and raised by one, is not below the root.\<close>

lemma sqrt_start:
  fixes e f A N :: int
  assumes "N < (e + 2) * (e + 2)" "4 * A < N + 2 ^ 32" "2 ^ 62 \<le> N" "0 \<le> e" "0 \<le> f" "f * f \<le> A"
  shows "f \<le> e div 2 + 1"
proof -
  have "2 ^ 31 < e + 2" using assms(1,3,4) square_less_iff [of "2 ^ 31" "e + 2"] by simp
  then have "(e + 2) * (e + 2) + 2 ^ 32 < (e + 3) * (e + 3)" by (simp add: algebra_simps)
  moreover have "(2 * f) * (2 * f) \<le> 4 * A" using assms(6) by simp
  ultimately have "(2 * f) * (2 * f) < (e + 3) * (e + 3)" using assms(1,2) by linarith
  then have "2 * f < e + 3" using assms(4,5) square_less_iff [of "2 * f" "e + 3"] by simp
  then show ?thesis by linarith
qed

section \<open>The lower half\<close>

lemma double_or_high:
  assumes "shortShift64Left 0 z 1 = (t2, t3)" "even (uint b)"
  shows "val64 (t2 OR b, t3 OR 1) = uint b * 2 ^ 32 + 2 * uint z + 1"
proof -
  have v: "uint t2 * 2 ^ 32 + uint (t3 OR 1) = 2 * uint z + 1" using double_or_1(2) [OF assms(1)] by (simp add: val64_def)
  have z: "uint z < 2 ^ 32" using uint_lt2p [of z] by simp
  have "uint t2 * 2 ^ 32 < 2 * 2 ^ 32" using v z uint_ge_0 [of "t3 OR 1"] by linarith
  then have "uint t2 < 2" by simp
  then have "uint t2 = 0 \<or> uint t2 = 1" using uint_ge_0 [of t2] by linarith
  then obtain c where c: "t2 = bit_of c" by (metis bit_of_def uint_0_eq uint_1_eq word_uint_eq_iff)
  have "uint (t2 OR b) = uint b + uint t2" using assms(2) uint_or_bit_of [of b c] by (simp add: c or.commute uint_bit_of)
  then show ?thesis using v by (simp add: val64_def algebra_simps)
qed

lemma float64_sqrt_loop1_returns:
  assumes "val96 (rem1, rem2, rem3) = (N - (S + uint z) * (S + uint z)) mod 2 ^ 96" "(S + uint z) * (S + uint z) - N \<le> 2 ^ 69"
    "S = uint b * 2 ^ 31" "even (uint b)" "S \<le> f" "f * f \<le> N" "N < (f + 1) * (f + 1)" "f \<le> S + uint z"
  shows "\<exists>z' r1 r2 r3. float64_sqrt_loop1 b z rem1 rem2 rem3 = Some (z', r1, r2, r3) \<and> S + uint z' = f \<and> val96 (r1, r2, r3) = N - f * f"
  using assms(1,2,8)
proof (induction "nat (S + uint z - f)" arbitrary: z rem1 rem2 rem3 rule: less_induct)
  case less
  have S: "0 \<le> S" "S < 2 ^ 63" using assms(3) uint_lt2p [of b] by simp_all
  then have f: "0 \<le> f" "f < 2 ^ 64" using assms(5) less.prems(3) uint_lt2p [of z] by simp_all
  have Nb: "N - f * f < 2 ^ 66" using assms(7) f by (simp add: algebra_simps)
  have "f * f \<le> (S + uint z) * (S + uint z)" using less.prems(3) f by (intro mult_mono) simp_all
  then have neg: "sint rem1 < 0 \<longleftrightarrow> N < (S + uint z) * (S + uint z)"
    using signed_rem96_neg [OF less.prems(1)] less.prems(2) Nb by simp
  show ?case
  proof (cases "N < (S + uint z) * (S + uint z)")
    case False
    then have "S + uint z < f + 1" using f S assms(7) square_less_iff [of "S + uint z" "f + 1"] by simp
    then have z: "S + uint z = f" using less.prems(3) by simp
    have "(N - f * f) mod 2 ^ 96 = N - f * f" using assms(6) Nb by simp
    then show ?thesis using False neg less.prems(1) by (subst float64_sqrt_loop1.simps) (simp add: z)
  next
    case True
    have fz: "f < S + uint z" using f S assms(6) True square_less_iff [of f "S + uint z"] by simp
    have z1: "uint (z - 1) = uint z - 1" using fz assms(5) uint_lt2p [of z] by (simp add: uint_word_ariths)
    obtain t2 t3 where t: "shortShift64Left 0 (z - 1) 1 = (t2, t3)" by fastforce
    obtain s1 s2 s3 where s: "add96 rem1 rem2 rem3 0 (t2 OR b) (t3 OR 1) = (s1, s2, s3)" by (metis prod_cases3)
    have "val96 (s1, s2, s3) = (N - (S + uint z) * (S + uint z) + (uint b * 2 ^ 32 + 2 * uint (z - 1) + 1)) mod 2 ^ 96"
      using val96_add96 [of rem1 rem2 rem3 0 "t2 OR b" "t3 OR 1"] less.prems(1) double_or_high [OF t assms(4)]
      by (simp add: s mod_simps val96_split_high [of 0])
    also have "N - (S + uint z) * (S + uint z) + (uint b * 2 ^ 32 + 2 * uint (z - 1) + 1) = N - (S + uint (z - 1)) * (S + uint (z - 1))"
      unfolding z1 assms(3) by (simp add: algebra_simps)
    finally have v: "val96 (s1, s2, s3) = (N - (S + uint (z - 1)) * (S + uint (z - 1))) mod 2 ^ 96" .
    have "(S + uint (z - 1)) * (S + uint (z - 1)) - N \<le> 2 ^ 69" using less.prems(2) fz f S by (simp add: z1 algebra_simps)
    then have "\<exists>z' r1 r2 r3. float64_sqrt_loop1 b (z - 1) s1 s2 s3 = Some (z', r1, r2, r3) \<and> S + uint z' = f \<and> val96 (r1, r2, r3) = N - f * f"
      using fz by (intro less.hyps [OF _ v]) (simp_all add: z1)
    then show ?thesis using neg True by (subst float64_sqrt_loop1.simps) (simp add: t s)
  qed
qed

text \<open>The estimated digit is at most four too large.\<close>

lemma sqrt_digit_bounds:
  fixes s0 A x q R :: int
  assumes "R = A - s0 * s0" "0 \<le> R" "2 ^ 30 \<le> s0" "0 \<le> x" "x < 2 ^ 32" 
    "(s0 * 2 ^ 32 + x) * (s0 * 2 ^ 32 + x) \<le> A * 2 ^ 64" "A * 2 ^ 64 < (s0 * 2 ^ 32 + x + 1) * (s0 * 2 ^ 32 + x + 1)"
  shows "x \<le> R * 2 ^ 32 div (2 * s0)" "R * 2 ^ 32 div (2 * s0) \<le> x + 2" "R = 2 * s0 \<Longrightarrow> 2 ^ 32 \<le> x + 2"
proof -
  have A: "A = R + s0 * s0" using assms(1) by simp
  have B: "0 < 2 * s0" using assms(3) by simp
  have lo: "2 * s0 * x * 2 ^ 32 + x * x \<le> R * 2 ^ 64" using assms(6) unfolding A by (simp add: algebra_simps)
  have hi: "R * 2 ^ 64 < 2 * s0 * (x + 1) * 2 ^ 32 + (x + 1) * (x + 1)" using assms(7) unfolding A by (simp add: algebra_simps)
  have "R * 2 ^ 64 = R * 2 ^ 32 * 2 ^ 32" by simp
  then have "2 * s0 * x * 2 ^ 32 \<le> R * 2 ^ 32 * 2 ^ 32" using lo zero_le_square [of x] by linarith
  then have "x * (2 * s0) \<le> R * 2 ^ 32" by (simp add: mult_ac)
  then show "x \<le> R * 2 ^ 32 div (2 * s0)" by (simp only: le_div_iff_mult_le [OF B])
  have "(x + 1) * (x + 1) \<le> 2 ^ 32 * 2 ^ 32" using assms(4,5) by (intro mult_mono) simp_all
  then have x2: "R * 2 ^ 64 < 2 * s0 * (x + 1) * 2 ^ 32 + 2 ^ 32 * 2 ^ 32" using hi by linarith
  also have "\<dots> \<le> 2 * s0 * (x + 1) * 2 ^ 32 + 2 ^ 2 * s0 * 2 ^ 32" using assms(3) by simp
  finally have x3: "R * 2 ^ 32 < (x + 3) * (2 * s0)" by (simp add: algebra_simps)
  then show "R * 2 ^ 32 div (2 * s0) \<le> x + 2" using le_div_iff_mult_le [OF B, of "x + 3" "R * 2 ^ 32"] by simp
  assume "R = 2 * s0"
  then have "2 ^ 32 * (2 * s0) < (x + 3) * (2 * s0)" using x3 by simp
  then have "2 ^ 32 < x + 3" using B by simp
  then show "2 ^ 32 \<le> x + 2" by simp
qed

lemma sqrt64_low_digit:
  fixes s0 A :: int and b r :: bits32
  defines "N \<equiv> A * 2 ^ 64" and "S \<equiv> s0 * 2 ^ 32"
  assumes "s0 * s0 \<le> A" "A < (s0 + 1) * (s0 + 1)" "2 ^ 30 \<le> s0" "uint b = 2 * s0" "uint r = A - s0 * s0"
  shows "\<exists>z. (do {
      zSig1 \<leftarrow> estimateDiv64To32 r 0 b;
      if zSig1 AND 0x1FF \<le> 5
      then
        let zSig1 = (if zSig1 = 0 then 1 else zSig1);
            (term1, term2) = mul32To64 b zSig1;
            (rem1, rem2) = sub64 r 0 term1 term2;
            (term2, term3) = mul32To64 zSig1 zSig1;
            (rem1, rem2, rem3) = sub96 rem1 rem2 0 0 term2 term3
        in do {
          (zSig1, rem1, rem2, rem3) \<leftarrow> float64_sqrt_loop1 b zSig1 rem1 rem2 rem3;
          Some (zSig1 OR bit_of (rem1 OR rem2 OR rem3 \<noteq> 0)) }
      else Some zSig1 }) = Some z \<and> root_sticks 9 (S + uint z) N"
    (is "\<exists>z. ?body = Some z \<and> _")
proof -
  have s0: "0 \<le> s0" "s0 < 2 ^ 31" using assms(5,6) uint_lt2p [of b] by simp_all
  have "0 \<le> A" using assms(3) zero_le_square [of s0] by linarith
  then have N0: "0 \<le> N" by (simp add: N_def)
  obtain f where f: "0 \<le> f" "f * f \<le> N" "N < (f + 1) * (f + 1)" using floor_root [OF N0] by blast
  have "S * S = s0 * s0 * 2 ^ 64" by (simp add: S_def)
  then have "S * S \<le> N" using assms(3) by (simp add: N_def)
  then have "S * S < (f + 1) * (f + 1)" using f(3) by linarith
  then have fS: "S \<le> f" using f(1) s0 by (subst (asm) square_less_iff) (simp_all add: S_def)
  have "N < (S + 2 ^ 32) * (S + 2 ^ 32)"
  proof -
    have "N < (s0 + 1) * (s0 + 1) * 2 ^ 64" using assms(4) by (simp add: N_def)
    also have "\<dots> = (S + 2 ^ 32) * (S + 2 ^ 32)" by (simp add: S_def algebra_simps)
    finally show ?thesis .
  qed
  then have "f * f < (S + 2 ^ 32) * (S + 2 ^ 32)" using f(2) by linarith
  then have fS2: "f < S + 2 ^ 32" using f(1) s0 by (subst (asm) square_less_iff) (simp_all add: S_def)
  define x where "x = f - S"
  have R: "uint r = A - s0 * s0" "0 \<le> A - s0 * s0" using assms(3,7) by simp_all
  have x: "0 \<le> x" "x < 2 ^ 32" "(s0 * 2 ^ 32 + x) * (s0 * 2 ^ 32 + x) \<le> A * 2 ^ 64" "A * 2 ^ 64 < (s0 * 2 ^ 32 + x + 1) * (s0 * 2 ^ 32 + x + 1)"
    using fS fS2 f(2,3) by (simp_all add: x_def S_def N_def)
  note q = sqrt_digit_bounds [OF refl R(2) assms(5) x, folded R(1)]
  have b31: "2 ^ 31 \<le> uint b" using assms(5,6) by simp
  have "uint r \<le> 2 * s0" using assms(4) R(1) by (simp add: algebra_simps)
  obtain e where e: "estimateDiv64To32 r 0 b = Some e" "x \<le> uint e" "uint e \<le> x + 4"
  proof (cases "r < b")
    case True
    obtain e where "estimateDiv64To32 r 0 b = Some e" "uint r * 2 ^ 32 div (2 * s0) \<le> uint e" "uint e \<le> uint r * 2 ^ 32 div (2 * s0) + 2"
      using estimateDiv64To32_bounds [OF b31 True, of 0] by (auto simp: val64_high assms(6))
    then show thesis using that q(1,2) by simp
  next
    case False
    then have "uint r = 2 * s0" using \<open>uint r \<le> 2 * s0\<close> by (simp add: word_less_def assms(6))
    then have "2 ^ 32 \<le> x + 2" by (rule q(3))
    then show thesis using that [of "0xFFFFFFFF"] False x(2) by (simp add: estimateDiv64To32_def not_less)
  qed
  have low: "uint (e AND 0x1FF) = uint e mod 2 ^ 9" using uint_and_mask [of e 9] by (simp add: mask_eq_exp_minus_1)
  have Sm: "(S + uint w) mod 2 ^ 9 = uint w mod 2 ^ 9" for w :: bits32
  proof -
    have "S + uint w = uint w + (s0 * 2 ^ 23) * 2 ^ 9" by (simp add: S_def)
    then show ?thesis by (simp only: mod_mult_self1)
  qed
  show ?thesis
  proof (cases "e AND 0x1FF \<le> 5")
    case False
    then have "4 < uint e mod 2 ^ 9" using low by (simp add: word_le_def)
    then have "4 < (S + uint e) mod 2 ^ 9" unfolding Sm .
    then have "root_sticks 9 (S + uint e) N" using e(2,3) by (intro root_sticks_near [OF f]) (simp_all add: x_def)
    then show ?thesis using e(1) False by auto
  next
    case True
    define z where "z = (if e = 0 then 1 else e)"
    have z: "x \<le> uint z" "uint z \<le> x + 4" using e(2,3) x(1) by (auto simp: z_def)
    obtain t1 t2 where t: "mul32To64 b z = (t1, t2)" by fastforce
    obtain r1 r2 where r: "sub64 r 0 t1 t2 = (r1, r2)" by fastforce
    obtain u2 u3 where u: "mul32To64 z z = (u2, u3)" by fastforce
    obtain v1 v2 v3 where v: "sub96 r1 r2 0 0 u2 u3 = (v1, v2, v3)" by (metis prod_cases3)
    have "val64 (r1, r2) = (uint r * 2 ^ 32 - 2 * s0 * uint z) mod 2 ^ 64"
      using val64_sub64 [of r 0 t1 t2] val64_mul32To64 [of b z] by (simp add: r t val64_high assms(6))
    then have "val64 (r1, r2) * 2 ^ 32 = ((uint r * 2 ^ 32 - 2 * s0 * uint z) * 2 ^ 32) mod 2 ^ 96"
      using mult_mod_left [of "uint r * 2 ^ 32 - 2 * s0 * uint z" "2 ^ 64" "2 ^ 32"] by simp
    then have "val96 (v1, v2, v3) = ((uint r * 2 ^ 32 - 2 * s0 * uint z) * 2 ^ 32 - uint z * uint z) mod 2 ^ 96"
      using val96_sub96 [of r1 r2 0 0 u2 u3] val64_mul32To64 [of z z] by (simp add: v u val96_split [of r1 r2 0] val96_split_high [of 0] mod_simps)
    also have "(uint r * 2 ^ 32 - 2 * s0 * uint z) * 2 ^ 32 - uint z * uint z = N - (S + uint z) * (S + uint z)"
      unfolding R(1) N_def S_def by (simp add: algebra_simps)
    finally have val: "val96 (v1, v2, v3) = (N - (S + uint z) * (S + uint z)) mod 2 ^ 96" .
    have zf: "f \<le> S + uint z" "S + uint z \<le> f + 4" using z by (simp_all add: x_def)
    have "f < 2 ^ 64" using fS2 s0 by (simp add: S_def)
    moreover have "(S + uint z) * (S + uint z) \<le> (f + 4) * (f + 4)" using zf f(1) by (intro mult_mono) simp_all
    ultimately have "(S + uint z) * (S + uint z) - N \<le> 2 ^ 69" using f(1,2) by (simp add: algebra_simps)
    moreover have "S = uint b * 2 ^ 31" "even (uint b)" by (simp_all add: S_def assms(6))
    ultimately obtain z' w1 w2 w3 where
      l: "float64_sqrt_loop1 b z v1 v2 v3 = Some (z', w1, w2, w3)" "S + uint z' = f" "val96 (w1, w2, w3) = N - f * f"
      using float64_sqrt_loop1_returns [OF val _ _ _ fS f(2,3) zf(1)] by blast
    have nz: "w1 OR w2 OR w3 \<noteq> 0 \<longleftrightarrow> N \<noteq> f * f"
      using l(3) val64_eq_0 [of w2 w3] val64_nonneg [of w2 w3] by (auto simp: val96_split_high or_word_eq_0 add_nonneg_eq_0_iff uint_0_iff)
    have ev: "even (uint z') \<longleftrightarrow> even f" using l(2) by (auto simp: S_def)
    have "S + uint (z' OR bit_of (w1 OR w2 OR w3 \<noteq> 0)) = f + (if N \<noteq> f * f \<and> even f then 1 else 0)"
      unfolding uint_or_bit_of nz ev using l(2) by simp
    then have "root_sticks 9 (S + uint (z' OR bit_of (w1 OR w2 OR w3 \<noteq> 0))) N" using root_sticks_exact [OF jam_rootI [OF f]] by simp
    moreover have "?body = Some (z' OR bit_of (w1 OR w2 OR w3 \<noteq> 0))"
      using True e(1) by (simp add: Let_def t r u v l(1) flip: z_def)
    ultimately show ?thesis by blast
  qed
qed

lemma sqrt64_significand:
  fixes a0 a1 :: bits32
  defines "S \<equiv> val64 (a0, a1)"
  assumes "2 ^ 52 \<le> S" "S < 2 ^ 53"
  shows "\<exists>y0 y1 y2. (let (term0, term1) = shortShift64Left a0 a1 11 in do {
      e \<leftarrow> estimateSqrt32 aExp term0;
      let zSig0 = c_shr e 1 + 1;
      let zSig0 = (if zSig0 = 0 then 0x7FFFFFFF else zSig0);
      let doubleZSig0 = zSig0 + zSig0;
      let (aSig0, aSig1) = shortShift64Left a0 a1 (9 - (aExp AND 1));
      let (term0, term1) = mul32To64 zSig0 zSig0;
      let (rem0, rem1) = sub64 aSig0 aSig1 term0 term1;
      (zSig0, doubleZSig0, rem0, rem1) \<leftarrow> float64_sqrt_loop0 zSig0 doubleZSig0 rem0 rem1;
      zSig1 \<leftarrow> estimateDiv64To32 rem1 0 doubleZSig0;
      zSig1 \<leftarrow>
        (if zSig1 AND 0x1FF \<le> 5
         then
           let zSig1 = (if zSig1 = 0 then 1 else zSig1);
               (term1, term2) = mul32To64 doubleZSig0 zSig1;
               (rem1, rem2) = sub64 rem1 0 term1 term2;
               (term2, term3) = mul32To64 zSig1 zSig1;
               (rem1, rem2, rem3) = sub96 rem1 rem2 0 0 term2 term3
           in do {
             (zSig1, rem1, rem2, rem3) \<leftarrow> float64_sqrt_loop1 doubleZSig0 zSig1 rem1 rem2 rem3;
             Some (zSig1 OR bit_of (rem1 OR rem2 OR rem3 \<noteq> 0)) }
         else Some zSig1);
      let (zSig0, zSig1, zSig2) = shift64ExtraRightJamming zSig0 zSig1 0 10;
      Some (g zSig0 zSig1 zSig2) }) = Some (g y0 y1 y2) \<and>
    (\<exists>y. root_sticks 9 y (S * 2 ^ (if odd aExp then 8 else 9) * 2 ^ 64) \<and> 2 ^ 62 \<le> y \<and> y < 2 ^ 63 \<and>
      sticks 31 (val96 (y0, y1, y2)) (y * 2 ^ 32) (2 ^ 10))"
proof -
  define c where "c = (if odd aExp then 8 else 9 :: nat)"
  define A where "A = S * 2 ^ c"
  obtain t0 t1 where t: "shortShift64Left a0 a1 11 = (t0, t1)" by fastforce
  obtain b0 b1 where b: "shortShift64Left a0 a1 (9 - (aExp AND 1)) = (b0, b1)" by fastforce
  have vt: "val64 (t0, t1) = S * 2 ^ 11" using val64_shortShift64Left [of 11 a0 a1] assms(2,3) by (simp add: t S_def)
  have cn: "9 - (aExp AND 1) = int c" by (simp add: c_def and_one_eq odd_iff_mod_2_eq_one)
  have vb: "val64 (b0, b1) = A"
    using val64_shortShift64Left [of "int c" a0 a1] assms(2,3) b unfolding cn by (auto simp: A_def c_def S_def)
  have t31: "2 ^ 31 \<le> uint t0" using vt assms(2) val64_high_lt [of t0 t1 31] by simp
  have A: "2 ^ 60 \<le> A" "A < 2 ^ 62" using assms(2,3) by (auto simp: A_def c_def)
  then have A0: "0 \<le> A" by simp
  define N where "N = sqrt_radicand aExp t0"
  have N: "2 ^ 62 \<le> N" "4 * A < N + 2 ^ 32"
    using t31 vt uint_lt2p [of t1] by (auto simp: N_def sqrt_radicand_def A_def c_def val64_def)
  obtain e where e: "estimateSqrt32 aExp t0 = Some e" "N < (uint e + 2) * (uint e + 2)"
    using estimateSqrt32_bounds [OF t31, of aExp] by (auto simp: N_def)
  define z where "z = c_shr e 1 + 1"
  have "uint (c_shr e 1) = uint e div 2" by (simp add: uint_c_shr)
  moreover have "uint e div 2 < 2 ^ 31" using uint_lt2p [of e] by (intro int_div_lt) simp_all
  ultimately have z: "uint z = uint e div 2 + 1" "uint z \<le> 2 ^ 31" using uint_plus_small [of "c_shr e 1" 1] by (simp_all add: z_def)
  have "0 \<le> uint e div 2" by (simp add: pos_imp_zdiv_nonneg_iff)
  then have "0 < uint z" unfolding z(1) by linarith
  then have znz: "(z = 0) = False" by auto
  obtain m0 m1 where m: "mul32To64 z z = (m0, m1)" by fastforce
  obtain r0 r1 where r: "sub64 b0 b1 m0 m1 = (r0, r1)" by fastforce
  have v: "val64 (r0, r1) = (A - uint z * uint z) mod 2 ^ 64"
    using val64_sub64 [of b0 b1 m0 m1] val64_mul32To64 [of z z] by (simp add: r m vb)
  obtain s0 where s0: "0 \<le> s0" "s0 * s0 \<le> A" "A < (s0 + 1) * (s0 + 1)" using floor_root [OF A0] by blast
  have "s0 \<le> uint z" using sqrt_start [OF e(2) N(2,1) _ s0(1,2)] by (simp add: z(1))
  from float64_sqrt_loop0_returns [OF v z(2) s0 this] obtain z0 q0 q1 where
    l: "float64_sqrt_loop0 z (z + z) r0 r1 = Some (z0, z0 + z0, q0, q1)" "uint z0 = s0" "val64 (q0, q1) = A - s0 * s0" by blast
  have "2 ^ 30 * 2 ^ 30 < (s0 + 1) * (s0 + 1)" using s0(3) A(1) by simp
  then have s30: "2 ^ 30 \<le> s0" using s0(1) by (subst (asm) square_less_iff) simp_all
  have "s0 * s0 < 2 ^ 31 * 2 ^ 31" using s0(2) A(2) by simp
  then have s31: "s0 < 2 ^ 31" using s0(1) by (subst (asm) square_less_iff) simp_all
  have B: "uint (z0 + z0) = 2 * s0" using uint_plus_small [of z0 z0] s31 by (simp add: l(2))
  have "A - s0 * s0 < 2 ^ 32" using s0(3) s31 by (simp add: algebra_simps)
  then have "uint q0 * 2 ^ 32 + uint q1 < 1 * 2 ^ 32" using l(3) by (simp add: val64_def)
  then have "uint q0 < 1" by (rule high_part_lt) simp_all
  then have "uint q0 = 0" using uint_ge_0 [of q0] by linarith
  then have q1: "uint q1 = A - s0 * s0" using l(3) by (simp add: val64_def)
  from sqrt64_low_digit [OF s0(2,3) s30 B q1] obtain z1 where z1: "(do {
      zSig1 \<leftarrow> estimateDiv64To32 q1 0 (z0 + z0);
      if zSig1 AND 0x1FF \<le> 5
      then
        let zSig1 = (if zSig1 = 0 then 1 else zSig1);
            (term1, term2) = mul32To64 (z0 + z0) zSig1;
            (rem1, rem2) = sub64 q1 0 term1 term2;
            (term2, term3) = mul32To64 zSig1 zSig1;
            (rem1, rem2, rem3) = sub96 rem1 rem2 0 0 term2 term3
        in do {
          (zSig1, rem1, rem2, rem3) \<leftarrow> float64_sqrt_loop1 (z0 + z0) zSig1 rem1 rem2 rem3;
          Some (zSig1 OR bit_of (rem1 OR rem2 OR rem3 \<noteq> 0)) }
      else Some zSig1 }) = Some z1" "root_sticks 9 (s0 * 2 ^ 32 + uint z1) (A * 2 ^ 64)" by blast
  then obtain d where d: "estimateDiv64To32 q1 0 (z0 + z0) = Some d" and low: "(if d AND 0x1FF \<le> 5
      then
        let zSig1 = (if d = 0 then 1 else d);
            (term1, term2) = mul32To64 (z0 + z0) zSig1;
            (rem1, rem2) = sub64 q1 0 term1 term2;
            (term2, term3) = mul32To64 zSig1 zSig1;
            (rem1, rem2, rem3) = sub96 rem1 rem2 0 0 term2 term3
        in do {
          (zSig1, rem1, rem2, rem3) \<leftarrow> float64_sqrt_loop1 (z0 + z0) zSig1 rem1 rem2 rem3;
          Some (zSig1 OR bit_of (rem1 OR rem2 OR rem3 \<noteq> 0)) }
      else Some d) = Some z1"
    unfolding bind_eq_Some_conv by blast
  obtain y0 y1 y2 where y: "shift64ExtraRightJamming z0 z1 0 10 = (y0, y1, y2)" by (metis prod_cases3)
  define f where "f = s0 * 2 ^ 32 + uint z1"
  have f: "root_sticks 9 f (S * 2 ^ c * 2 ^ 64)" using z1(2) by (simp add: f_def A_def)
  have fr: "2 ^ 62 \<le> f" "f < 2 ^ 63" using s30 s31 uint_lt2p [of z1] by (simp_all add: f_def add_increasing2)
  have sy: "sticks 31 (val96 (y0, y1, y2)) (f * 2 ^ 32) (2 ^ 10)"
    using sticks_shift64ExtraRightJamming [of 10 z0 z1 0] by (simp add: y f_def val96_split val64_def l(2))
  show ?thesis
    unfolding t Let_def prod.case Option.bind.bind_lunit e(1) z_def [symmetric] znz if_False b m r l(1) d low [unfolded Let_def] y
    using f fr sy unfolding c_def by blast
qed

section \<open>The root of a number\<close>

lemma sqrt64_exponents:
  fixes E m va :: int
  assumes "va * 2 ^ nat (1 - E) = m * 2 ^ nat (E - 1)" "- 51 \<le> E" 
  defines "e \<equiv> (E - 0x3FF) div 2 + 0x3FE"
  shows "m * 2 ^ (if odd E then 8 else 9) * 2 ^ 64 * 2 ^ (2 * nat e) = va * 2 ^ 1074 * 16 * 2 ^ (2 * 8)" "485 \<le> e"
proof -
  show e: "485 \<le> e" using assms(2) by (simp add: e_def)
  define i where "i = (if odd E then 8 else 9 :: nat)"
  have "i + 64 + 2 * nat e + nat (1 - E) = 1094 + nat (E - 1)"
  proof (cases "odd E")
    case True
    then obtain k where k: "E = 2 * k + 1" by (rule oddE)
    have "(E - 0x3FF) div 2 = k - 511" by (simp add: k)
    then show ?thesis using e by (simp add: e_def i_def k nat_eq_iff)
  next
    case False
    then obtain k where k: "E = 2 * k" by blast
    have "(E - 0x3FF) div 2 = k - 512" unfolding k by presburger
    then show ?thesis using e by (simp add: e_def i_def k nat_eq_iff)
  qed
  then have "(2::int) ^ i * 2 ^ 64 * 2 ^ (2 * nat e) * 2 ^ nat (1 - E) = 2 ^ 1094 * 2 ^ nat (E - 1)" by (simp only: power_add [symmetric])
  then have "(m * 2 ^ i * 2 ^ 64 * 2 ^ (2 * nat e)) * 2 ^ nat (1 - E) = 2 ^ 1094 * (m * 2 ^ nat (E - 1))" by (simp only: mult_ac)
  also have "\<dots> = (va * 2 ^ 1094) * 2 ^ nat (1 - E)" unfolding assms(1) [symmetric] by (simp only: mult_ac)
  finally have "m * 2 ^ i * 2 ^ 64 * 2 ^ (2 * nat e) = va * 2 ^ 1094" by simp
  moreover have "va * 2 ^ 1074 * 16 * 2 ^ (2 * 8) = va * 2 ^ 1094" by simp
  ultimately show "m * 2 ^ (if odd E then 8 else 9) * 2 ^ 64 * 2 ^ (2 * nat e) = va * 2 ^ 1074 * 16 * 2 ^ (2 * 8)" by (simp only: i_def)
qed

lemma float64_sqrt_positive:
  assumes "nearest_even s" "finite64 a" "\<not> extractFloat64Sign a" "abs64 a \<noteq> 0" "jam_root V (abs64 a * 2 ^ 1074 * 16)"
  shows "\<exists>z s'. float64_sqrt a s = Some (z, s') \<and> bits_f64 z = sign64 False + round64 V 4 \<and> bits_f64 z < float64_inf"
proof -
  obtain E S0 S1 where u: "unpack64 a = (E, S0, S1)" by (metis prod_cases3)
  define m where "m = val64 (S0 OR 0x00100000, S1)"
  have va: "2 ^ 52 \<le> m" "m < 2 ^ 53" "- 51 \<le> E" "E \<le> 0x7FE" "abs64 a * 2 ^ nat (1 - E) = m * 2 ^ nat (E - 1)"
    using unpack64_value [OF assms(2,4) u] by (simp_all add: m_def)
  define e where "e = (E - 0x3FF) div 2 + 0x3FE"
  note ex = sqrt64_exponents [OF va(5,3), folded e_def]
  have e: "e \<le> 1534" using va(4) by (simp add: e_def)
  have nf: "(extractFloat64Exp a = 0x7FF) = False" "(extractFloat64Exp a = 0 \<and> extractFloat64Frac0 a OR extractFloat64Frac1 a = 0) = False"
    "extractFloat64Sign a = False" using assms(2-4) by (auto simp: finite64_def abs64_0_iff or_word_eq_0)
  define g where "g = (\<lambda>z0 z1 z2. roundAndPackFloat64 False e z0 z1 z2 s)"
  obtain y0 y1 y2 y where y: "float64_sqrt a s = Some (g y0 y1 y2)"
    "root_sticks 9 y (m * 2 ^ (if odd E then 8 else 9) * 2 ^ 64)" "2 ^ 62 \<le> y" "y < 2 ^ 63" "sticks 31 (val96 (y0, y1, y2)) (y * 2 ^ 32) (2 ^ 10)"
    using sqrt64_significand [OF va(1,2) [unfolded m_def], of E g, folded m_def]
    unfolding float64_sqrt_def Let_def unpack64_def [symmetric] u prod.case nf if_False e_def [symmetric] g_def by blast
  have "sticks 9 y (V * 2 ^ 8) (2 ^ nat e)" using ex(2) by (intro root_sticks_sticks [OF y(2) assms(5) ex(1)]) simp
  from sticks_mult [OF this, of 32] have "sticks 41 (y * 2 ^ 32) (V * 2 ^ 8 * 2 ^ 32) (2 ^ nat e)" by simp
  from sticks_trans [OF y(5) this] have s: "sticks 31 (val96 (y0, y1, y2)) (V * 2 ^ 8 * 2 ^ 32) (2 ^ nat e * 2 ^ 10)" by simp
  have yr: "2 ^ 84 \<le> val96 (y0, y1, y2)" "val96 (y0, y1, y2) < 2 ^ 85"
    using sticks_le_iff [OF y(5), of 84] sticks_le_iff [OF y(5), of 85] y(3,4) by simp_all
  have V: "0 \<le> V" using assms(5) by (simp add: jam_root_def)
  have "bits_f64 (fst (g y0 y1 y2)) = sign64 False + round64 V 4"
    unfolding g_def by (rule round64_pack [OF assms(1) _ V s]) (use ex(2) e yr in simp_all)
  moreover have "bits_f64 (fst (g y0 y1 y2)) < float64_inf"
  proof -
    have "rne_div (val96 (y0, y1, y2)) (2 ^ 32) \<le> 2 ^ 53" using yr(2) by (intro rne_div_le) simp_all
    then show ?thesis using roundAndPackFloat64_value [OF assms(1) yr(2), of e False] ex(2) e yr(1)
      by (simp add: g_def packed_def float64_inf_def sign64_def)
  qed
  ultimately show ?thesis using y(1) by (cases "g y0 y1 y2") auto
qed

text \<open>
  C9. The double-precision square root is correctly rounded: for every finite operand that is not negative, in
  the rounding mode to nearest even, \<open>float64_sqrt\<close> terminates and returns a finite number, and no number \<open>c\<close> of
  the format is nearer to the exact root.  A negative operand gives the default NaN and the invalid flag.  Values
  count units of \<open>2 ^ -1074\<close>.
\<close>

theorem float64_sqrt_correct:
  assumes "nearest_even s" "finite64 a" "finite64 c"
  shows "if val_f64 a < 0 then float64_sqrt a s = Some (float64_invalid s)
    else \<exists>z s'. float64_sqrt a s = Some (z, s') \<and> finite64 z \<and> 0 \<le> val_f64 z \<and>
      \<bar>real_of_int (val_f64 z) - sqrt (real_of_int (val_f64 a * 2 ^ 1074))\<bar> \<le> \<bar>real_of_int (val_f64 c) - sqrt (real_of_int (val_f64 a * 2 ^ 1074))\<bar>"
proof (cases "abs64 a = 0")
  case True
  then have "float64_sqrt a s = Some (a, s) \<or> float64_sqrt a s = Some (packFloat64 False 0 0 0, s)"
    using assms(2) by (auto simp: float64_sqrt_def abs64_0_iff finite64_def)
  moreover have "val_f64 a = 0" "val_f64 (packFloat64 False 0 0 0) = 0" "finite64 (packFloat64 False 0 0 0)"
    using True by (auto simp: val_f64_def) code_simp+
  ultimately show ?thesis using assms(2) by auto
next
  case False
  show ?thesis
  proof (cases "extractFloat64Sign a")
    case True
    have "word_of_int (extractFloat64Exp a) = (0 :: bits32) \<longleftrightarrow> extractFloat64Exp a = 0"
      using float64_ranges(1,2) [of a] by (simp add: word_uint_eq_iff uint_word_of_int)
    then have "float64_sqrt a s = Some (float64_invalid s)"
      using True False assms(2) by (auto simp: float64_sqrt_def finite64_def abs64_0_iff or_word_eq_0)
    then show ?thesis using True False abs64_nonneg [of a] by (simp add: val_f64_def)
  next
    case pos: False
    define M where "M = abs64 a * 2 ^ 1074"
    have va: "val_f64 a = abs64 a" using pos by (simp add: val_f64_def)
    have M0: "0 \<le> M" unfolding M_def using abs64_nonneg [of a] by (intro mult_nonneg_nonneg) simp_all
    obtain V where V: "jam_root V (M * 16)" using jam_root_exists [of "M * 16"] M0 by auto
    obtain z s' where z: "float64_sqrt a s = Some (z, s')" "bits_f64 z = sign64 False + round64 V 4" "bits_f64 z < float64_inf"
      using float64_sqrt_positive [OF assms(1,2) pos False V [unfolded M_def]] by blast
    have zm: "\<not> extractFloat64Sign z" "mag64 z < float64_inf"
      using z(3) float64_ranges(4) [of z] by (auto simp: bits_f64_split sign64_def float64_inf_def split: if_splits)
    then have zf: "finite64 z" "0 \<le> val_f64 z" using abs64_nonneg [of z] by (auto simp: finite64_mag float64_inf_def val_f64_def)
    have V0: "0 \<le> V" using V by (simp add: jam_root_def)
    have near: "\<bar>val_f64 z * 4 - V\<bar> \<le> \<bar>val_f64 c' * 4 - V\<bar>" for c'
      by (rule binary64.nearest [where sg = False]) (use zf(1) z(2) V0 in simp_all)
    have r: "\<bar>real_of_int (val_f64 z) - sqrt (real_of_int M)\<bar> \<le> \<bar>real_of_int (val_f64 c') - sqrt (real_of_int M)\<bar>" if "0 \<le> val_f64 c'" for c'
      by (rule jam_root_nearest [OF V near zf(2) that M0])
    have "\<bar>real_of_int (val_f64 z) - sqrt (real_of_int M)\<bar> \<le> \<bar>real_of_int (val_f64 c) - sqrt (real_of_int M)\<bar>"
      by (rule nearest_nonneg [where o' = "packFloat64 False 0 0 0", OF r _ M0]) (assumption, code_simp)
    then show ?thesis using z(1) zf abs64_nonneg [of a] unfolding va M_def [symmetric] by auto
  qed
qed

theorem float64_sqrt_correct_witness:
  "\<exists>z s'. float64_sqrt \<lparr>low = 0, high = 0x40000000\<rparr> fp_init = Some (z, s') \<and>
    \<bar>real_of_int (val_f64 z) - sqrt (real_of_int (val_f64 \<lparr>low = 0, high = 0x40000000\<rparr> * 2 ^ 1074))\<bar>
      \<le> \<bar>real_of_int (val_f64 \<lparr>low = 0x667F3BCC, high = 0x3FF6A09E\<rparr>) - sqrt (real_of_int (val_f64 \<lparr>low = 0, high = 0x40000000\<rparr> * 2 ^ 1074))\<bar>"
proof -
  have "nearest_even fp_init" "finite64 \<lparr>low = 0, high = 0x40000000\<rparr>" "finite64 \<lparr>low = 0x667F3BCC, high = 0x3FF6A09E\<rparr>"
    "\<not> extractFloat64Sign \<lparr>low = 0, high = 0x40000000\<rparr>" by code_simp+
  moreover then have "\<not> val_f64 \<lparr>low = 0, high = 0x40000000\<rparr> < 0" using abs64_nonneg by (simp add: val_f64_def not_less)
  ultimately show ?thesis using float64_sqrt_correct [of fp_init "\<lparr>low = 0, high = 0x40000000\<rparr>" "\<lparr>low = 0x667F3BCC, high = 0x3FF6A09E\<rparr>"]
    by (metis (mono_tags, lifting))
qed

end
