(* ===== verification/Float_Remainder.thy ===== *)
theory Float_Remainder
  imports Float_Rounding
begin

text \<open>
  What the remainders of both precisions share: the digits of the quotient that the code subtracts, the
  choice of the remainder nearest to zero, and the exactness of the result.
\<close>

section \<open>Digits of the quotient\<close>

text \<open>A digit that is at most \<open>c\<close> too small leaves a rest below \<open>c + 1\<close> times the divisor, at any shorter length.\<close>

lemma rem_digit:
  fixes A B q c :: int
  assumes "0 \<le> A" "A < B" "q \<le> A * 2 ^ 32 div B" "A * 2 ^ 32 div B \<le> q + c" "k \<le> 32" "0 \<le> c"
  shows "0 \<le> A * 2 ^ k - B * (q div 2 ^ (32 - k))" "A * 2 ^ k - B * (q div 2 ^ (32 - k)) < (c + 1) * B"
proof -
  define p where "p = q div 2 ^ (32 - k)"
  define T where "T = A * 2 ^ k div B"
  have B: "0 < B" using assms(1,2) by linarith
  have pow: "(2::int) ^ k * 2 ^ (32 - k) = 2 ^ 32" using assms(5) by (simp flip: power_add)
  have "A * 2 ^ 32 div B div 2 ^ (32 - k) = (A * 2 ^ k * 2 ^ (32 - k)) div (B * 2 ^ (32 - k))"
    unfolding mult.assoc pow using B by (simp add: zdiv_zmult2_eq)
  also have "\<dots> = T" by (simp add: T_def)
  finally have T: "A * 2 ^ 32 div B div 2 ^ (32 - k) = T" .
  have "p \<le> T" unfolding p_def T [symmetric] using assms(3) by (intro zdiv_mono1) simp_all
  then have "B * p \<le> B * T" using B by simp
  moreover have TB: "A * 2 ^ k = B * T + A * 2 ^ k mod B" "0 \<le> A * 2 ^ k mod B" "A * 2 ^ k mod B < B" using B by (simp_all add: T_def)
  ultimately show "0 \<le> A * 2 ^ k - B * (q div 2 ^ (32 - k))" unfolding p_def by linarith
  have "T \<le> (q + c * 2 ^ (32 - k)) div 2 ^ (32 - k)"
    unfolding T [symmetric] using assms(4) mult_left_mono [OF one_le_power [of "2::int" "32 - k"] assms(6)] by (intro zdiv_mono1) (simp_all, linarith?)
  also have "\<dots> = p + c" by (simp add: p_def)
  finally have "B * T \<le> B * (p + c)" using B by simp
  then show "A * 2 ^ k - B * (q div 2 ^ (32 - k)) < (c + 1) * B" using TB unfolding p_def by (simp add: algebra_simps)
qed

text \<open>
  Of the two remainders next to zero the nearer one is taken, and of two at the same distance the one whose
  quotient is even; \<open>q\<close> is the low word of the quotient \<open>n + 1\<close>.
\<close>

lemma nearest_remainder:
  fixes b c n q :: int
  assumes "0 \<le> c" "c < b" "even q \<longleftrightarrow> odd n"
  defines "alt \<equiv> 2 * c < b \<or> 2 * c = b \<and> odd q"
  defines "r \<equiv> (if alt then c else c - b)" and "n' \<equiv> (if alt then n else n + 1)"
  shows "b * n + c = b * n' + r" "2 * \<bar>r\<bar> \<le> b" "2 * \<bar>r\<bar> = b \<longrightarrow> even n'"
  using assms(1-3) by (auto simp: r_def n'_def alt_def abs_if algebra_simps)

lemma odd_uint_plus:
  fixes q :: bits32
  shows "even (uint (q + word_of_int k)) \<longleftrightarrow> even (uint q + k)"
proof -
  have "uint (q + word_of_int k) = (uint q + k) mod 2 ^ 32" by (simp add: uint_word_ariths uint_word_of_int mod_simps)
  then show ?thesis by (simp add: dvd_mod_iff)
qed

section \<open>Exactness\<close>

text \<open>Every significand of the format at every exponent is a number of the format.\<close>

lemma fval_onto:
  assumes "0 \<le> m" "m < 2 ^ (p + 1)"
  shows "\<exists>M. 0 \<le> M \<and> fval p M = m * 2 ^ k"
  using assms
proof (induction k arbitrary: m)
  case 0
  then show ?case using fval_small [of m p] by auto
next
  case (Suc k)
  show ?case
  proof (cases "m < 2 ^ p")
    case True
    then show ?thesis using Suc.IH [of "2 * m"] Suc.prems by (simp add: mult.assoc mult.left_commute)
  next
    case False
    then show ?thesis using Suc.prems fval_binade [of p m "Suc k"] by (intro exI [of _ "int (Suc k) * 2 ^ p + m"]) simp
  qed
qed

lemma fval_round_mag_onto:
  assumes "0 \<le> N" "N * 2 ^ i = m * 2 ^ k" "m < 2 ^ (p + 1)"
  shows "fval p (round_mag p N 1) = N"
proof -
  have m: "0 \<le> m" using assms(1,2) by (metis mult_nonneg_nonneg zero_le_mult_iff zero_le_numeral zero_le_power zero_less_numeral zero_less_power linorder_not_less mult_less_0_iff)
  have "\<exists>M. 0 \<le> M \<and> fval p M = N"
  proof (cases "i \<le> k")
    case True
    then have "(2::int) ^ k = 2 ^ (k - i) * 2 ^ i" by (simp flip: power_add)
    then have "N * 2 ^ i = (m * 2 ^ (k - i)) * 2 ^ i" using assms(2) by (simp add: mult.assoc)
    then have "N = m * 2 ^ (k - i)" by simp
    then show ?thesis using fval_onto [OF m assms(3), of "k - i"] by simp
  next
    case False
    then have "(2::int) ^ i = 2 ^ (i - k) * 2 ^ k" by (simp flip: power_add)
    then have "(N * 2 ^ (i - k)) * 2 ^ k = m * 2 ^ k" using assms(2) by (simp add: mult.assoc)
    then have "N * 2 ^ (i - k) = m" by simp
    moreover have "N * 1 \<le> N * 2 ^ (i - k)" using assms(1) by (intro mult_left_mono) simp_all
    ultimately have "N < 2 ^ (p + 1)" using assms(3) by linarith
    then show ?thesis using fval_onto [OF assms(1), of p 0] by simp
  qed
  then obtain M where "0 \<le> M" "fval p M = N" by blast
  then show ?thesis using round_mag_fval [of M 1 p] by auto
qed

lemma rem_exponents:
  fixes v m E F :: int
  assumes "v * 2 ^ nat (1 - E) = m * 2 ^ nat (E - 1)" "- 1 \<le> E - F"
    "X = (if E - F < 0 then m * 2 ^ g else m * 2 ^ (g + 1) * 2 ^ nat (E - F))"
  shows "v * 2 ^ (g + 2 + nat (- F)) = X * 2 ^ nat F"
proof -
  obtain i where i: "X = m * 2 ^ i" "int i = int g + 1 + (E - F)" 
  proof (cases "E - F < 0")
    case True
    then show thesis using that [of g] assms(2,3) by simp
  next
    case False
    then show thesis using that [of "g + 1 + nat (E - F)"] assms(3) by (simp add: power_add)
  qed
  have "nat (E - 1) + (g + 2 + nat (- F)) = i + nat F + nat (1 - E)" using i(2) by linarith
  then have "m * 2 ^ nat (E - 1) * 2 ^ (g + 2 + nat (- F)) = m * 2 ^ i * 2 ^ nat F * 2 ^ nat (1 - E)"
    by (simp only: mult.assoc power_add [symmetric])
  then have "(v * 2 ^ (g + 2 + nat (- F))) * 2 ^ nat (1 - E) = (X * 2 ^ nat F) * 2 ^ nat (1 - E)"
    unfolding i(1) assms(1) [symmetric] by (simp only: mult_ac)
  then show ?thesis by simp
qed

lemma rem_small:
  fixes va vb ma mb Ea Eb :: int
  assumes "va * 2 ^ nat (1 - Ea) = ma * 2 ^ nat (Ea - 1)" "vb * 2 ^ nat (1 - Eb) = mb * 2 ^ nat (Eb - 1)"
    "0 \<le> ma" "ma < 2 * mb" "Ea - Eb < - 1"
  shows "2 * va < vb"
proof -
  define P where "P = nat (Ea - 1) + nat (1 - Eb)"
  have "nat (Eb - 1) + nat (1 - Ea) = P + nat (Eb - Ea)" using assms(5) unfolding P_def by linarith
  then have e: "(2::int) ^ nat (Eb - 1) * 2 ^ nat (1 - Ea) = 2 ^ P * 2 ^ nat (Eb - Ea)" by (simp only: power_add [symmetric])
  have "(2::int) ^ 2 \<le> 2 ^ nat (Eb - Ea)" by (rule power_increasing) (use assms(5) in simp_all)
  then have four: "mb * 4 \<le> mb * 2 ^ nat (Eb - Ea)" using assms(3,4) by (intro mult_left_mono) simp_all
  have "(2 * va) * (2 ^ nat (1 - Ea) * 2 ^ nat (1 - Eb)) = 2 * ma * 2 ^ P"
    using assms(1) by (simp add: P_def power_add)
  also have "\<dots> < mb * 4 * 2 ^ P" using assms(4) by simp
  also have "\<dots> \<le> mb * 2 ^ nat (Eb - Ea) * 2 ^ P" using four by (intro mult_right_mono) simp_all
  also have "\<dots> = mb * (2 ^ P * 2 ^ nat (Eb - Ea))" by (simp only: mult_ac)
  also have "\<dots> = mb * 2 ^ nat (Eb - 1) * 2 ^ nat (1 - Ea)" unfolding e [symmetric] by (simp only: mult_ac)
  also have "\<dots> = vb * (2 ^ nat (1 - Ea) * 2 ^ nat (1 - Eb))" unfolding assms(2) [symmetric] by (simp only: mult_ac)
  finally show ?thesis by simp
qed

end
