(* ===== verification/Float32_Rem.thy ===== *)
theory Float32_Rem
  imports Float32_Correct Float_Remainder
begin

text \<open>
  The single-precision remainder \<open>float32_rem\<close>: its loops end and it returns the exact IEEE remainder.
  Each step keeps a quarter of the rest, whose two lowest bits are zero; the shifts that the code leaves out
  disappear modulo \<open>2 ^ 32\<close>.
\<close>

section \<open>The partial remainder\<close>

lemma estimate_less_two:
  fixes A B :: bits32
  assumes "2 ^ 31 \<le> uint B" "A < B"
  shows "\<exists>e. estimateDiv64To32 A 0 B = Some e \<and> uint (if 2 < e then e - 2 else 0) \<le> uint A * 2 ^ 32 div uint B \<and>
    uint A * 2 ^ 32 div uint B \<le> uint (if 2 < e then e - 2 else 0) + 2"
proof -
  define Q where "Q = uint A * 2 ^ 32 div uint B"
  have "0 \<le> Q" using assms(1) by (simp add: Q_def pos_imp_zdiv_nonneg_iff)
  obtain e where e: "estimateDiv64To32 A 0 B = Some e" "Q \<le> uint e" "uint e \<le> Q + 2"
    using estimateDiv64To32_bounds [OF assms, of 0] by (auto simp: Q_def val64_def)
  have "uint (e - 2) = uint e - 2" if "2 < e"
    using that uint_lt2p [of e] by (simp add: word_less_def uint_word_ariths)
  then have "uint (if 2 < e then e - 2 else 0) = max 0 (uint e - 2)" by (auto simp: word_less_def)
  then show ?thesis using e \<open>0 \<le> Q\<close> unfolding Q_def [symmetric] by auto
qed

lemma uint_quarter: "4 dvd uint B \<Longrightarrow> 4 * uint (c_shr B 2) = uint B" for B :: bits32
  by (simp add: uint_c_shr)

text \<open>A word that is congruent to a quarter of a small number is that quarter.\<close>

lemma uint_quarter_eq:
  fixes w :: bits32
  assumes "uint w = V mod 2 ^ 32" "4 * V = T" "0 \<le> T" "T < 3 * 2 ^ 32"
  shows "4 * uint w = T"
  using assms by simp

lemma rem_reduce_step:
  fixes A B q :: bits32
  assumes "A < B" "2 ^ 8 dvd uint B" "2 ^ 6 dvd uint A"
    "uint q \<le> uint A * 2 ^ 32 div uint B" "uint A * 2 ^ 32 div uint B \<le> uint q + 2"
  defines "A' \<equiv> - (c_shr B 2 * q)"
  shows "4 * uint A' = uint A * 2 ^ 32 - uint B * uint q" "A' < B" "2 ^ 6 dvd uint A'"
proof -
  have B4: "4 * uint (c_shr B 2) = uint B" using assms(2) by (intro uint_quarter) (auto elim: dvd_trans [rotated])
  have d: "0 \<le> uint A * 2 ^ 32 - uint B * uint q" "uint A * 2 ^ 32 - uint B * uint q < 3 * uint B"
    using rem_digit [OF _ _ assms(4,5), of 32] assms(1) by (simp_all add: word_less_def)
  obtain a where a: "uint A = 4 * a" using dvd_trans [of 4 "2 ^ 6" "uint A"] assms(3) by auto
  have "uint A' = (- (uint (c_shr B 2) * uint q)) mod 2 ^ 32" by (simp add: A'_def uint_word_ariths mod_simps)
  also have "\<dots> = (- (uint (c_shr B 2) * uint q) + a * 2 ^ 32) mod 2 ^ 32" by (simp only: mod_mult_self1)
  also have "- (uint (c_shr B 2) * uint q) + a * 2 ^ 32 = a * 2 ^ 32 - uint (c_shr B 2) * uint q" by simp
  finally have "uint A' = (a * 2 ^ 32 - uint (c_shr B 2) * uint q) mod 2 ^ 32" .
  then show e: "4 * uint A' = uint A * 2 ^ 32 - uint B * uint q"
    by (rule uint_quarter_eq) (use B4 a d uint_lt2p [of B] in \<open>auto simp: algebra_simps\<close>)
  then show "A' < B" using d by (simp add: word_less_def)
  obtain b where b: "uint B = 2 ^ 8 * b" using assms(2) by blast
  have "4 * uint A' = 4 * (2 ^ 6 * (a * 2 ^ 26 - b * uint q))" unfolding e by (simp add: a b algebra_simps)
  then have "uint A' = 2 ^ 6 * (a * 2 ^ 26 - b * uint q)" by simp
  then show "2 ^ 6 dvd uint A'" by (rule dvdI)
qed

lemma float32_rem_reduce_returns:
  assumes "2 ^ 31 \<le> uint B" "2 ^ 8 dvd uint B" "A < B" "2 ^ 6 dvd uint A"
  shows "\<exists>q' A' d'. float32_rem_reduce B q A d = Some (q', A', d') \<and> A' < B \<and> 2 ^ 6 dvd uint A' \<and> d' \<le> 0 \<and>
    (if d \<le> 0 then q' = q \<and> A' = A \<and> d' = d
     else - 30 < d' \<and> (\<exists>M. uint A * 2 ^ nat (d + 32) = uint A' * 2 ^ nat (d' + 32) + uint B * (2 * M)))"
  using assms(3,4)
proof (induction "nat d" arbitrary: q A d rule: less_induct)
  case less
  show ?case
  proof (cases "0 < d")
    case False
    then show ?thesis using less.prems by simp
  next
    case True
    obtain e where e: "estimateDiv64To32 A 0 B = Some e" "uint (if 2 < e then e - 2 else 0) \<le> uint A * 2 ^ 32 div uint B"
      "uint A * 2 ^ 32 div uint B \<le> uint (if 2 < e then e - 2 else 0) + 2"
      using estimate_less_two [OF assms(1) less.prems(1)] by blast
    define p where "p = (if 2 < e then e - 2 else 0)"
    define A1 where "A1 = - (c_shr B 2 * p)"
    note st = rem_reduce_step [OF less.prems(1) assms(2) less.prems(2) e(2,3), folded p_def, folded A1_def]
    obtain q' A' d' where r: "float32_rem_reduce B p A1 (d - 30) = Some (q', A', d')" "A' < B" "2 ^ 6 dvd uint A'" "d' \<le> 0"
      "if d - 30 \<le> 0 then q' = p \<and> A' = A1 \<and> d' = d - 30
       else - 30 < d' \<and> (\<exists>M. uint A1 * 2 ^ nat (d - 30 + 32) = uint A' * 2 ^ nat (d' + 32) + uint B * (2 * M))"
      using less.hyps [OF _ st(2,3), of "d - 30" p] True by auto
    have n: "nat (d + 32) = 32 + nat d" "nat (d + 2) = 2 + nat d" "nat d = Suc (nat (d - 1))" using True by simp_all
    have "uint A * 2 ^ 32 = 4 * uint A1 + uint B * uint p" using st(1) by simp
    then have "uint A * 2 ^ 32 * 2 ^ nat d = (4 * uint A1 + uint B * uint p) * 2 ^ nat d" by (simp only:)
    also have "\<dots> = uint A1 * 2 ^ nat (d + 2) + uint B * (2 * (uint p * 2 ^ nat (d - 1)))" unfolding n(2) by (simp add: n(3) power_add algebra_simps)
    finally have up: "uint A * 2 ^ nat (d + 32) = uint A1 * 2 ^ nat (d + 2) + uint B * (2 * (uint p * 2 ^ nat (d - 1)))"
      unfolding n(1) power_add by (simp only: mult.assoc)
    have "- 30 < d' \<and> (\<exists>M. uint A * 2 ^ nat (d + 32) = uint A' * 2 ^ nat (d' + 32) + uint B * (2 * M))"
    proof (cases "d - 30 \<le> 0")
      case True
      then have "A' = A1" "d' = d - 30" using r(5) by simp_all
      then show ?thesis using \<open>0 < d\<close> up by (intro conjI exI [of _ "uint p * 2 ^ nat (d - 1)"]) (simp_all add: add.commute)
    next
      case False
      then obtain M where M: "uint A1 * 2 ^ nat (d - 30 + 32) = uint A' * 2 ^ nat (d' + 32) + uint B * (2 * M)" "- 30 < d'" using r(5) by auto
      then have "uint A * 2 ^ nat (d + 32) = uint A' * 2 ^ nat (d' + 32) + uint B * (2 * (M + uint p * 2 ^ nat (d - 1)))"
        using up by (simp add: algebra_simps)
      then show ?thesis using M(2) by blast
    qed
    moreover have "float32_rem_reduce B q A d = Some (q', A', d')"
      using True r(1) by (subst float32_rem_reduce.simps)
        (simp only: if_True e(1) Option.bind.bind_lunit Let_def p_def [symmetric] A1_def [symmetric])
    ultimately show ?thesis using True r(2-4) by auto
  qed
qed

text \<open>The last subtractions end with the two remainders next to zero.\<close>

lemma float32_rem_final_returns:
  assumes "uint A < 3 * uint b" "0 < uint b" "uint b < 2 ^ 30"
  shows "\<exists>c. float32_rem_final b q A = Some (c, q + word_of_int (uint A div uint b + 1), c - b) \<and> uint c = uint A mod uint b"
  using assms(1)
proof (induction "nat (uint A)" arbitrary: A q rule: less_induct)
  case less
  have s: "sint (A - b) = uint A - uint b"
  proof (cases "uint b \<le> uint A")
    case True
    then have "uint (A - b) = uint A - uint b" by (simp add: word_le_def flip: uint_minus_simple_alt)
    then show ?thesis using less.prems assms(3) sint32_neg_iff [of "A - b"] sint_eq [of "A - b"] by simp
  next
    case False
    have lo: "- (2 ^ 30) \<le> uint A - uint b" using assms(3) uint_ge_0 [of A] by linarith
    then have "uint (A - b) = uint A - uint b + 2 ^ 32"
      using False int_mod_if_neg [of "2 ^ 32" "uint A - uint b"] by (simp add: uint_word_ariths)
    then show ?thesis using False lo assms(3) sint32_neg_iff [of "A - b"] sint_eq [of "A - b"] by simp
  qed
  show ?case
  proof (cases "uint b \<le> uint A")
    case False
    then show ?thesis using assms(2) by (subst float32_rem_final.simps) (simp add: s)
  next
    case True
    then have u: "uint (A - b) = uint A - uint b" by (simp add: word_le_def flip: uint_minus_simple_alt)
    have "uint (A - b) div uint b = uint A div uint b - 1" "uint (A - b) mod uint b = uint A mod uint b"
      using assms(2) div_add_self2 [of "uint b" "uint A - uint b"] by (simp_all add: u)
    moreover have lt: "nat (uint (A - b)) < nat (uint A)" unfolding u using True assms(2) by (intro nat_less_eq_zless [THEN iffD2]) simp_all
    have le: "uint (A - b) < 3 * uint b" using less.prems assms(2) by (simp add: u)
    moreover obtain c where "float32_rem_final b (q + 1) (A - b) = Some (c, q + 1 + word_of_int (uint (A - b) div uint b + 1), c - b)"
      "uint c = uint (A - b) mod uint b"
      using less.hyps [OF lt, of "q + 1"] le by blast
    ultimately show ?thesis using True by (subst float32_rem_final.simps) (simp add: s)
  qed
qed

section \<open>The nearest remainder\<close>

lemma float32_rem_digit:
  fixes A B :: bits32
  assumes "2 ^ 31 \<le> uint B" "2 ^ 8 dvd uint B" "A < B" "2 ^ 6 dvd uint A" "0 < k" "k \<le> 32"
  shows "\<exists>q A2. (do {
      q \<leftarrow> estimateDiv64To32 A 0 B;
      let q = (if 2 < q then q - 2 else 0);
      let q = c_shr q (32 - k);
      let bSig = c_shr B 2;
      Some (q, c_shl (c_shr A 1) (k - 1) - bSig * q, bSig) }) = Some (q, A2, c_shr B 2) \<and>
    uint A * 2 ^ nat k = 4 * uint A2 + uint B * uint q \<and> uint A2 < 3 * uint (c_shr B 2) \<and> 2 ^ 5 dvd uint A2"
proof -
  obtain e where e: "estimateDiv64To32 A 0 B = Some e" "uint (if 2 < e then e - 2 else 0) \<le> uint A * 2 ^ 32 div uint B"
    "uint A * 2 ^ 32 div uint B \<le> uint (if 2 < e then e - 2 else 0) + 2"
    using estimate_less_two [OF assms(1,3)] by blast
  define q0 where "q0 = (if 2 < e then e - 2 else 0)"
  define q where "q = c_shr q0 (32 - k)"
  define b where "b = c_shr B 2"
  define A2 where "A2 = c_shl (c_shr A 1) (k - 1) - b * q"
  have q: "uint q = uint q0 div 2 ^ (32 - nat k)" using assms(5,6) nat_diff_distrib [of k 32] by (simp add: q_def uint_c_shr)
  have B4: "4 * uint b = uint B" using assms(2) unfolding b_def by (intro uint_quarter) (auto elim: dvd_trans [rotated])
  have d: "0 \<le> uint A * 2 ^ nat k - uint B * uint q" "uint A * 2 ^ nat k - uint B * uint q < 3 * uint B"
    using rem_digit [OF _ _ e(2,3) [folded q0_def], of "nat k"] assms(3,6) by (simp_all add: word_less_def q)
  obtain a where a: "uint A = 2 ^ 6 * a" using assms(4) by blast
  obtain b' where b': "uint B = 2 ^ 8 * b'" using assms(2) by blast
  have k: "(2::int) ^ nat k = 2 * 2 ^ nat (k - 1)" using assms(5) by (simp flip: power_Suc add: Suc_nat_eq_nat_zadd1)
  have "uint A2 = (uint A div 2 * 2 ^ nat (k - 1) - uint b * uint q) mod 2 ^ 32"
    using assms(5) by (simp add: A2_def uint_word_ariths uint_c_shl uint_c_shr mod_simps)
  moreover have "4 * (uint A div 2 * 2 ^ nat (k - 1) - uint b * uint q) = uint A * 2 ^ nat k - uint B * uint q"
    unfolding k B4 [symmetric] a by (simp add: algebra_simps)
  ultimately have v: "4 * uint A2 = uint A * 2 ^ nat k - uint B * uint q"
    by (rule uint_quarter_eq) (use d uint_lt2p [of B] in simp_all)
  have "4 * uint A2 = 4 * (2 ^ 5 * (a * 2 ^ nat (k - 1) - 2 * b' * uint q))" unfolding v k a b' by (simp add: algebra_simps)
  then have "uint A2 = 2 ^ 5 * (a * 2 ^ nat (k - 1) - 2 * b' * uint q)" by simp
  then have "2 ^ 5 dvd uint A2" by (rule dvdI)
  moreover have "uint A2 < 3 * uint b" using v d(2) B4 by simp
  ultimately show ?thesis using e(1) v by (simp add: Let_def A2_def b_def q_def q0_def)
qed

text \<open>The nearer of the two remainders next to zero, the one with the even quotient of two at the same distance.\<close>

lemma nearest_choice:
  fixes c b q :: bits32
  assumes "uint c < uint b" "uint b < 2 ^ 30"
  defines "r \<equiv> (if 2 * uint c < uint b \<or> 2 * uint c = uint b \<and> odd (uint q) then uint c else uint c - uint b)"
  shows "(let sigMean = (c - b) + c;
      aSig = (if sint sigMean < 0 \<or> sigMean = 0 \<and> q AND 1 \<noteq> 0 then c else c - b);
      zSign = sint aSig < 0; aSig = (if zSign then - aSig else aSig) in g zSign aSig) = g (r < 0) (word_of_int \<bar>r\<bar>)"
proof -
  have w: "c = word_of_int (uint c)" "c - b = word_of_int (uint c - uint b)" "(c - b) + c = word_of_int (2 * uint c - uint b)"
    by (simp_all flip: wi_hom_syms)
  obtain C B where CB: "uint c = C" "uint b = B" "0 \<le> C" by (metis uint_ge_0)
  have s: "sint (word_of_int (2 * uint c - uint b) :: bits32) = 2 * uint c - uint b"
    "sint (word_of_int (uint c - uint b) :: bits32) = uint c - uint b" "sint (word_of_int (uint c) :: bits32) = uint c"
    using assms(1,2) CB(3) unfolding CB(1,2) by (intro sint_word_of_int_32; simp)+
  have z: "(word_of_int (2 * uint c - uint b) :: bits32) = 0 \<longleftrightarrow> 2 * uint c = uint b" using s(1) by (metis diff_eq_diff_eq cancel_comm_monoid_add_class.diff_cancel right_minus_eq sint_0 word_of_int_0)
  have o: "q AND 1 \<noteq> 0 \<longleftrightarrow> odd (uint q)" using uint_and_mask [of q 1] by (simp add: mask_eq_exp_minus_1 odd_iff_mod_2_eq_one flip: uint_0_iff)
  have cond: "(sint ((c - b) + c) < 0 \<or> (c - b) + c = 0 \<and> q AND 1 \<noteq> 0) = (2 * uint c < uint b \<or> 2 * uint c = uint b \<and> odd (uint q))"
    unfolding w(3) s z o by simp
  have a: "(if sint ((c - b) + c) < 0 \<or> (c - b) + c = 0 \<and> q AND 1 \<noteq> 0 then c else c - b) = word_of_int r"
    unfolding cond r_def by (simp split: if_split)
  have sr: "sint (word_of_int r :: bits32) = r" using s(2,3) unfolding r_def by (simp only: split: if_split) simp
  have neg: "(if r < 0 then - word_of_int r else word_of_int r) = (word_of_int \<bar>r\<bar> :: bits32)" by (simp only: abs_if wi_hom_neg split: if_split) simp
  show ?thesis by (simp only: Let_def a sr neg)
qed

lemma rem_parts:
  fixes A B :: bits32
  assumes "2 ^ 31 \<le> uint B" "2 ^ 8 dvd uint B" "2 ^ 7 dvd uint A"
  defines "qi \<equiv> bit_of (B \<le> A) :: bits32" and "A1 \<equiv> (if (bit_of (B \<le> A) :: bits32) \<noteq> 0 then A - B else A)"
  shows "A1 < B" "2 ^ 7 dvd uint A1" "uint A = uint A1 + uint B * uint qi"
proof -
  have lt: "uint A < 2 * uint B" using assms(1) uint_lt2p [of A] by simp
  have A1': "A1 < B \<and> 2 ^ 7 dvd uint A1 \<and> uint A = uint A1 + uint B * uint qi"
  proof (cases "B \<le> A")
    case True
    then have "uint (A - B) = uint A - uint B" using uint_minus_simple_alt by blast
    moreover have "2 ^ 7 dvd uint B" using assms(2) by (auto elim: dvd_trans [rotated])
    ultimately show ?thesis using True lt assms(3) by (simp add: A1_def qi_def bit_of_def word_less_def)
  qed (use assms(3) in \<open>auto simp: A1_def qi_def bit_of_def not_le dest: leD\<close>)
  show "A1 < B" "2 ^ 7 dvd uint A1" "uint A = uint A1 + uint B * uint qi" using A1' by blast+
qed

lemma float32_rem_core:
  fixes A B :: bits32
  assumes "2 ^ 31 \<le> uint B" "2 ^ 8 dvd uint B" "2 ^ 7 dvd uint A"
  shows "\<exists>r n. (let q = bit_of (B \<le> A); aSig = (if q \<noteq> 0 then A - B else A) in do {
      (q, aSig, expDiff) \<leftarrow> float32_rem_reduce B q aSig (e - 32);
      let expDiff = expDiff + 32;
      (q, aSig, bSig) \<leftarrow>
        (if 0 < expDiff
         then do {
           q \<leftarrow> estimateDiv64To32 aSig 0 B;
           let q = (if 2 < q then q - 2 else 0);
           let q = c_shr q (32 - expDiff);
           let bSig = c_shr B 2;
           Some (q, c_shl (c_shr aSig 1) (expDiff - 1) - bSig * q, bSig) }
         else Some (q, c_shr aSig 2, c_shr B 2));
      (alternateASig, q, aSig) \<leftarrow> float32_rem_final bSig q aSig;
      let sigMean = aSig + alternateASig;
      let aSig = (if sint sigMean < 0 \<or> sigMean = 0 \<and> q AND 1 \<noteq> 0 then alternateASig else aSig);
      let zSign = sint aSig < 0;
      let aSig = (if zSign then - aSig else aSig);
      Some (g zSign aSig) }) = Some (g (r < 0) (word_of_int \<bar>r\<bar>)) \<and>
    uint A * 2 ^ nat e = 4 * r + uint B * n \<and> 8 * \<bar>r\<bar> \<le> uint B \<and> (8 * \<bar>r\<bar> = uint B \<longrightarrow> even n) \<and> 2 ^ 5 dvd r"
proof -
  define qi A1 where "qi = (bit_of (B \<le> A) :: bits32)" and "A1 = (if (bit_of (B \<le> A) :: bits32) \<noteq> 0 then A - B else A)"
  have A1: "A1 < B" "2 ^ 7 dvd uint A1" "uint A = uint A1 + uint B * uint qi"
    unfolding A1_def qi_def using rem_parts [OF assms] by auto
  have A16: "2 ^ 6 dvd uint A1" using A1(2) by (auto elim: dvd_trans [rotated])
  define b where "b = c_shr B 2"
  have B4: "4 * uint b = uint B" using assms(2) unfolding b_def by (intro uint_quarter) (auto elim: dvd_trans [rotated])
  have b: "0 < uint b" "uint b < 2 ^ 30" using B4 assms(1) uint_lt2p [of B] by simp_all
  obtain q' A' d' where red: "float32_rem_reduce B qi A1 (e - 32) = Some (q', A', d')" "A' < B" "2 ^ 6 dvd uint A'" "d' \<le> 0"
    "if e - 32 \<le> 0 then q' = qi \<and> A' = A1 \<and> d' = e - 32
     else - 30 < d' \<and> (\<exists>M. uint A1 * 2 ^ nat (e - 32 + 32) = uint A' * 2 ^ nat (d' + 32) + uint B * (2 * M))"
    using float32_rem_reduce_returns [OF assms(1,2) A1(1) A16, of qi "e - 32"] by blast
  obtain q2 A2 N where mid: "(if 0 < d' + 32
      then do {
        q \<leftarrow> estimateDiv64To32 A' 0 B;
        let q = (if 2 < q then q - 2 else 0);
        let q = c_shr q (32 - (d' + 32));
        let bSig = c_shr B 2;
        Some (q, c_shl (c_shr A' 1) (d' + 32 - 1) - bSig * q, bSig) }
      else Some (q', c_shr A' 2, c_shr B 2)) = Some (q2, A2, b)"
    "uint A * 2 ^ nat e = 4 * uint A2 + uint B * N" "even N \<longleftrightarrow> even (uint q2)" "uint A2 < 3 * uint b" "2 ^ 5 dvd uint A2"
  proof (cases "0 < e")
    case False
    then have eq: "q' = qi" "A' = A1" "d' = e - 32" using red(5) by simp_all
    have four: "4 * uint (c_shr A1 2) = uint A1" using A1(2) by (intro uint_quarter) (auto elim: dvd_trans [rotated])
    obtain a where a: "uint A1 = 2 ^ 7 * a" using A1(2) by blast
    show thesis
    proof (rule that [of qi "c_shr A1 2" "uint qi"])
      show "uint A * 2 ^ nat e = 4 * uint (c_shr A1 2) + uint B * uint qi" using False A1(3) four by simp
      show "uint (c_shr A1 2) < 3 * uint b" using four B4 A1(1) b(1) by (simp add: word_less_def)
      have "uint (c_shr A1 2) = 2 ^ 5 * a" using four a by simp
      then show "2 ^ 5 dvd uint (c_shr A1 2)" by (rule dvdI)
    qed (use False in \<open>simp_all add: eq b_def\<close>)
  next
    case True
    have k: "0 < d' + 32" "d' + 32 \<le> 32" using red(4,5) True by (auto split: if_splits)
    have "\<exists>M. uint A1 * 2 ^ nat e = uint A' * 2 ^ nat (d' + 32) + uint B * (2 * M)"
      using red(5) by (auto split: if_splits intro: exI [of _ 0])
    then obtain M where M: "uint A1 * 2 ^ nat e = uint A' * 2 ^ nat (d' + 32) + uint B * (2 * M)" by blast
    obtain q2 A2 where d: "(do {
        q \<leftarrow> estimateDiv64To32 A' 0 B;
        let q = (if 2 < q then q - 2 else 0);
        let q = c_shr q (32 - (d' + 32));
        let bSig = c_shr B 2;
        Some (q, c_shl (c_shr A' 1) (d' + 32 - 1) - bSig * q, bSig) }) = Some (q2, A2, b)"
      "uint A' * 2 ^ nat (d' + 32) = 4 * uint A2 + uint B * uint q2" "uint A2 < 3 * uint b" "2 ^ 5 dvd uint A2"
      using float32_rem_digit [OF assms(1,2) red(2,3) k] unfolding b_def by blast
    have ne: "(2::int) ^ nat e = 2 * 2 ^ nat (e - 1)" using True by (simp flip: power_Suc add: Suc_nat_eq_nat_zadd1)
    show thesis
    proof (rule that [of q2 A2 "uint q2 + 2 * M + uint qi * 2 ^ nat e"])
      have "uint A * 2 ^ nat e = uint A1 * 2 ^ nat e + uint B * (uint qi * 2 ^ nat e)" unfolding A1(3) by (simp add: algebra_simps)
      then show "uint A * 2 ^ nat e = 4 * uint A2 + uint B * (uint q2 + 2 * M + uint qi * 2 ^ nat e)"
        unfolding M d(2) by (simp add: algebra_simps)
      show "even (uint q2 + 2 * M + uint qi * 2 ^ nat e) = even (uint q2)" unfolding ne by simp
      show "(if 0 < d' + 32
        then do {
          q \<leftarrow> estimateDiv64To32 A' 0 B;
          let q = (if 2 < q then q - 2 else 0);
          let q = c_shr q (32 - (d' + 32));
          let bSig = c_shr B 2;
          Some (q, c_shl (c_shr A' 1) (d' + 32 - 1) - bSig * q, bSig) }
        else Some (q', c_shr A' 2, c_shr B 2)) = Some (q2, A2, b)" by (subst if_P [OF k(1)]) (rule d(1))
    qed (use d in simp_all)
  qed
  define t where "t = uint A2 div uint b"
  define q3 where "q3 = q2 + word_of_int (t + 1)"
  obtain c where c: "float32_rem_final b q2 A2 = Some (c, q3, c - b)" "uint c = uint A2 mod uint b"
    using float32_rem_final_returns [OF mid(4) b, of q2] by (auto simp: q3_def t_def)
  have cb: "uint c < uint b" unfolding c(2) using b(1) by simp
  define alt where "alt \<longleftrightarrow> 2 * uint c < uint b \<or> 2 * uint c = uint b \<and> odd (uint q3)"
  define r where "r = (if alt then uint c else uint c - uint b)"
  define n where "n = (if alt then N + t else N + t + 1)"
  have ev: "even (uint q3) \<longleftrightarrow> odd (N + t)" unfolding q3_def odd_uint_plus using mid(3) by auto
  note near = nearest_remainder [OF uint_ge_0 cb ev, folded alt_def, folded r_def n_def]
  have A2: "uint A2 = uint b * t + uint c" by (simp add: t_def c(2))
  have "uint A * 2 ^ nat e = 4 * (uint b * (N + t) + uint c)" unfolding mid(2) A2 B4 [symmetric] by (simp add: algebra_simps)
  then have "uint A * 2 ^ nat e = 4 * r + uint B * n" unfolding near(1) B4 [symmetric] by (simp add: algebra_simps)
  moreover have "8 * \<bar>r\<bar> \<le> uint B \<and> (8 * \<bar>r\<bar> = uint B \<longrightarrow> even n)" using near(2,3) B4 by auto
  moreover have "2 ^ 5 dvd r"
  proof -
    obtain b' where b': "uint B = 2 ^ 8 * b'" using assms(2) by blast
    then have "uint b = 2 ^ 5 * (2 * b')" using B4 by simp
    then have db: "2 ^ 5 dvd uint b" by (rule dvdI)
    then have "2 ^ 5 dvd uint c" unfolding c(2) using mid(5) by (simp add: dvd_mod)
    then show ?thesis using db by (simp add: r_def)
  qed
  moreover have "(let q = bit_of (B \<le> A); aSig = (if q \<noteq> 0 then A - B else A) in do {
      (q, aSig, expDiff) \<leftarrow> float32_rem_reduce B q aSig (e - 32);
      let expDiff = expDiff + 32;
      (q, aSig, bSig) \<leftarrow>
        (if 0 < expDiff
         then do {
           q \<leftarrow> estimateDiv64To32 aSig 0 B;
           let q = (if 2 < q then q - 2 else 0);
           let q = c_shr q (32 - expDiff);
           let bSig = c_shr B 2;
           Some (q, c_shl (c_shr aSig 1) (expDiff - 1) - bSig * q, bSig) }
         else Some (q, c_shr aSig 2, c_shr B 2));
      (alternateASig, q, aSig) \<leftarrow> float32_rem_final bSig q aSig;
      let sigMean = aSig + alternateASig;
      let aSig = (if sint sigMean < 0 \<or> sigMean = 0 \<and> q AND 1 \<noteq> 0 then alternateASig else aSig);
      let zSign = sint aSig < 0;
      let aSig = (if zSign then - aSig else aSig);
      Some (g zSign aSig) }) = Some (g (r < 0) (word_of_int \<bar>r\<bar>))"
    unfolding Let_def qi_def [symmetric] A1_def [symmetric, folded qi_def] red(1) Option.bind.bind_lunit prod.case mid(1) [unfolded Let_def] c(1)
    using nearest_choice [OF cb b(2), where g = "\<lambda>z w. Some (g z w)" and q = q3] unfolding Let_def r_def alt_def by simp
  ultimately show ?thesis by blast
qed

section \<open>The remainder of two numbers\<close>

lemma normalize_zero: "- 200 \<le> E \<Longrightarrow> E \<le> 254 \<Longrightarrow> nearest_even s \<Longrightarrow>
  uint (fst (normalizeRoundAndPackFloat32 sg E 0 s)) = sign32 sg"
proof -
  assume E: "- 200 \<le> E" "E \<le> 254" "nearest_even s"
  have c: "countLeadingZeros32 0 = 32" by code_simp
  have "uint (fst (roundAndPackFloat32 sg (E - 31) 0 s)) = sign32 sg"
    using E by (auto simp: fst_roundAndPackFloat32 rounded32_def Let_def shift32RightJamming_def packFloat32_finite sign32_def c_shr_def c_shl_def bit_of_def)
  then show ?thesis by (simp add: normalizeRoundAndPackFloat32_def c c_shl_def)
qed

lemma float32_rem_nonzero:
  assumes "nearest_even s" "finite32 a" "finite32 b" "abs32 a \<noteq> 0" "abs32 b \<noteq> 0"
  shows "\<exists>z s' R n. float32_rem a b s = Some (z, s') \<and> abs32 a = n * abs32 b + R \<and>
    2 * \<bar>R\<bar> \<le> abs32 b \<and> (2 * \<bar>R\<bar> = abs32 b \<longrightarrow> even n) \<and> finite32 z \<and> mag32 z = round_mag 23 \<bar>R\<bar> 1 \<and> abs32 z = \<bar>R\<bar> \<and>
    extractFloat32Sign z = (extractFloat32Sign a \<noteq> (R < 0))"
proof -
  obtain Ea Sa where ua: "unpack32 a = (Ea, Sa)" by fastforce
  obtain Eb Sb where ub: "unpack32 b = (Eb, Sb)" by fastforce
  note va = unpack32_value [OF assms(2,4) ua] and vb = unpack32_value [OF assms(3,5) ub]
  define ma mb where "ma = uint (Sa OR 0x00800000)" and "mb = uint (Sb OR 0x00800000)"
  have m: "2 ^ 23 \<le> ma" "ma < 2 ^ 24" "2 ^ 23 \<le> mb" "mb < 2 ^ 24" using va(1,2) vb(1,2) by (simp_all add: ma_def mb_def)
  define sg where "sg = extractFloat32Sign a"
  define A B where "A = c_shl (Sa OR 0x00800000) 8" and "B = c_shl (Sb OR 0x00800000) 8"
  have A: "uint A = ma * 2 ^ 8" and B: "uint B = mb * 2 ^ 8" using m by (simp_all add: A_def B_def ma_def mb_def uint_shl_sig)
  have nf: "(extractFloat32Exp a = 0xFF) = False" "(extractFloat32Exp b = 0xFF) = False"
    "(extractFloat32Exp a = 0 \<and> extractFloat32Frac a = 0) = False" "(extractFloat32Exp b = 0 \<and> extractFloat32Frac b = 0) = False"
    using assms(2-5) by (simp_all add: finite32_def abs32_0_iff)
  have pos: "0 < abs32 a" "0 < abs32 b" using assms(4,5) abs32_nonneg [of a] abs32_nonneg [of b] by simp_all
  note unf = float32_rem_def Let_def unpack32_def [symmetric] ua ub prod.case nf if_False A_def [symmetric] B_def [symmetric] sg_def [symmetric]
  show ?thesis
  proof (cases "Ea - Eb < - 1")
    case True
    have "float32_rem a b s = Some (a, s)" unfolding unf using True by simp
    moreover have "2 * abs32 a < abs32 b" by (rule rem_small [OF va(5) vb(5) _ _ True]) (use va(1,2) vb(1,2) in simp_all)
    moreover have "round_mag 23 (abs32 a) 1 = mag32 a" using round_mag_fval [of "mag32 a" 1 23] float32_ranges(4) [of a] by simp
    ultimately show ?thesis using pos assms(2) by (intro exI [of _ a] exI [of _ s] exI [of _ "abs32 a"] exI [of _ 0]) simp
  next
    case False
    define A0 where "A0 = (if Ea - Eb < 0 then c_shr A 1 else A)"
    have A0: "uint A0 = (if Ea - Eb < 0 then ma * 2 ^ 7 else ma * 2 ^ 8)" by (simp add: A0_def A uint_c_shr)
    then have d7: "2 ^ 7 dvd uint A0" by simp
    have B31: "2 ^ 31 \<le> uint B" "2 ^ 8 dvd uint B" using m by (simp_all add: B)
    define g where "g = (\<lambda>z w. normalizeRoundAndPackFloat32 (sg \<noteq> z) Eb w s)"
    have "\<exists>r n. float32_rem a b s = Some (g (r < 0) (word_of_int \<bar>r\<bar>)) \<and>
      uint A0 * 2 ^ nat (Ea - Eb) = 4 * r + uint B * n \<and> 8 * \<bar>r\<bar> \<le> uint B \<and> (8 * \<bar>r\<bar> = uint B \<longrightarrow> even n) \<and> 2 ^ 5 dvd r"
      using float32_rem_core [OF B31 d7, of "Ea - Eb" g] unfolding unf A0_def [symmetric] g_def if_not_P [OF False] .
    then obtain r n where c: "float32_rem a b s = Some (g (r < 0) (word_of_int \<bar>r\<bar>))"
      "uint A0 * 2 ^ nat (Ea - Eb) = 4 * r + uint B * n" "8 * \<bar>r\<bar> \<le> uint B" "8 * \<bar>r\<bar> = uint B \<longrightarrow> even n" "2 ^ 5 dvd r"
      by blast
    define R where "R = abs32 a - n * abs32 b"
    define K where "K = nat (- Eb)"
    have ea: "abs32 a * 2 ^ (9 + K) = (4 * r + uint B * n) * 2 ^ nat Eb"
      unfolding K_def c(2) [symmetric] using rem_exponents [OF va(5), of Eb "uint A0 * 2 ^ nat (Ea - Eb)" 7] False A0 by (simp add: ma_def)
    have eb: "abs32 b * 2 ^ (9 + K) = uint B * 2 ^ nat Eb"
      unfolding K_def using rem_exponents [OF vb(5), of Eb "uint B" 7] by (simp add: B mb_def)
    have "R * 2 ^ (9 + K) = abs32 a * 2 ^ (9 + K) - n * (abs32 b * 2 ^ (9 + K))" by (simp add: R_def algebra_simps)
    also have "\<dots> = 4 * (r * 2 ^ nat Eb)" unfolding ea eb by (simp add: algebra_simps)
    finally have eR: "R * 2 ^ (7 + K) = r * 2 ^ nat Eb" by (simp add: power_add)
    then have eR': "\<bar>R\<bar> * 2 ^ (7 + K) = \<bar>r\<bar> * 2 ^ nat Eb" by (metis abs_mult abs_numeral power_abs)
    have eR8: "8 * \<bar>r\<bar> * 2 ^ nat Eb = 2 * \<bar>R\<bar> * 2 ^ (9 + K)" using eR' by (simp add: power_add)
    have le: "2 * \<bar>R\<bar> \<le> abs32 b"
    proof -
      have "8 * \<bar>r\<bar> * 2 ^ nat Eb \<le> uint B * 2 ^ nat Eb" using c(3) by (rule mult_right_mono) simp
      then have "2 * \<bar>R\<bar> * 2 ^ (9 + K) \<le> abs32 b * 2 ^ (9 + K)" unfolding eR8 eb .
      then show ?thesis by simp
    qed
    have tie: "even n" if "2 * \<bar>R\<bar> = abs32 b"
    proof -
      have "8 * \<bar>r\<bar> * 2 ^ nat Eb = uint B * 2 ^ nat Eb" unfolding eR8 that eb ..
      then show ?thesis using c(4) by simp
    qed
    have rw: "uint (word_of_int \<bar>r\<bar> :: bits32) = \<bar>r\<bar>" using c(3) uint_lt2p [of B] by (simp add: uint_word_of_int)
    have sR: "R < 0 \<longleftrightarrow> r < 0" "R = 0 \<longleftrightarrow> r = 0" using eR by (metis mult_less_0_iff zero_less_numeral zero_less_power linorder_not_less order.asym, metis mult_eq_0_iff power_not_zero zero_neq_numeral)
    obtain r' where r': "r = 2 ^ 5 * r'" using c(5) by blast
    have "\<bar>r'\<bar> < 2 ^ 24" using c(3) uint_lt2p [of B] by (simp add: r' abs_mult)
    moreover have "\<bar>R\<bar> * 2 ^ (7 + K) = \<bar>r'\<bar> * 2 ^ (5 + nat Eb)" unfolding eR' r' by (simp add: abs_mult power_add)
    ultimately have fv: "fval 23 (round_mag 23 \<bar>R\<bar> 1) = \<bar>R\<bar>" by (intro fval_round_mag_onto) simp_all
    have M0: "0 \<le> round_mag 23 \<bar>R\<bar> 1" by (rule round_mag_nonneg) simp_all
    have "fval 23 (round_mag 23 \<bar>R\<bar> 1) < abs32 b" unfolding fv using le pos(2) by linarith
    then have "round_mag 23 \<bar>R\<bar> 1 < mag32 b" using M0 float32_ranges(4) [of b] by (simp only: fval_less_iff)
    then have Mi: "round_mag 23 \<bar>R\<bar> 1 < float32_inf" using assms(3) by (simp add: finite32_mag float32_inf_def)
    have bits: "uint (fst (g (r < 0) (word_of_int \<bar>r\<bar>))) = sign32 (sg \<noteq> (R < 0)) + round_mag 23 \<bar>R\<bar> 1"
    proof (cases "r = 0")
      case True
      have "round_mag 23 0 1 = 0" by (rule round_mag_self) simp_all
      then show ?thesis using True sR normalize_zero [of Eb s sg] va(3,4) vb(3,4) assms(1) by (simp add: g_def)
    next
      case False
      have "\<bar>r\<bar> < 2 ^ 31" using c(3) uint_lt2p [of B] by simp
      then have "uint (fst (g (r < 0) (word_of_int \<bar>r\<bar>))) = sign32 (sg \<noteq> (r < 0)) + round32 \<bar>R\<bar> 1"
        unfolding g_def using False va(3,4) vb(3,4) eR' rw by (intro round32_normalize [OF assms(1)]) (auto simp: K_def)
      then show ?thesis using Mi by (simp add: round32_def sR)
    qed
    obtain z s' where z: "g (r < 0) (word_of_int \<bar>r\<bar>) = (z, s')" by fastforce
    have "uint z = sign32 (sg \<noteq> (R < 0)) + round_mag 23 \<bar>R\<bar> 1" using bits z by simp
    then have "mag32 z = round_mag 23 \<bar>R\<bar> 1" "extractFloat32Sign z = (sg \<noteq> (R < 0))"
      using binary32.bits_inject [of z "sg \<noteq> (R < 0)" "round_mag 23 \<bar>R\<bar> 1"] M0 Mi by (simp_all add: float32_inf_def)
    moreover from this have "finite32 z" using Mi by (simp add: finite32_mag float32_inf_def)
    ultimately show ?thesis using c(1) z le tie fv
      by (intro exI [of _ z] exI [of _ s'] exI [of _ R] exI [of _ n]) (simp add: R_def sg_def)
  qed
qed

text \<open>
  C10. The single-precision remainder is the IEEE remainder, exactly: for finite operands and a divisor that is
  not zero \<open>float32_rem\<close> terminates and returns \<open>a - n * b\<close> for an integer \<open>n\<close>, at most half the divisor in
  magnitude and with \<open>n\<close> even when it is half the divisor; a zero has the sign of \<open>a\<close>.  A divisor of zero gives
  the default NaN and the invalid flag.
\<close>

theorem float32_rem_correct:
  assumes "nearest_even s" "finite32 a" "finite32 b"
  shows "if val32 b = 0 then float32_rem a b s = Some (float32_default_nan, float_raise float_flag_invalid s)
    else \<exists>z s' n. float32_rem a b s = Some (z, s') \<and> finite32 z \<and> val32 a = n * val32 b + val32 z \<and>
      2 * \<bar>val32 z\<bar> \<le> \<bar>val32 b\<bar> \<and> (2 * \<bar>val32 z\<bar> = \<bar>val32 b\<bar> \<longrightarrow> even n) \<and>
      (val32 z = 0 \<longrightarrow> extractFloat32Sign z = extractFloat32Sign a)"
proof (cases "abs32 b = 0")
  case True
  then have "float32_rem a b s = Some (float32_default_nan, float_raise float_flag_invalid s)"
    using assms(2,3) by (simp add: float32_rem_def abs32_0_iff finite32_def)
  then show ?thesis using True by (simp add: val32_def)
next
  case b: False
  then have vb: "val32 b \<noteq> 0" by (simp add: val32_def)
  show ?thesis
  proof (cases "abs32 a = 0")
    case True
    then have a0: "extractFloat32Exp a = 0 \<and> extractFloat32Frac a = 0" by (simp add: abs32_0_iff)
    obtain E S where u: "unpack32 b = (E, S)" by fastforce
    have nf: "(extractFloat32Exp a = 0xFF) = False" "(extractFloat32Exp b = 0xFF) = False"
      "(extractFloat32Exp b = 0 \<and> extractFloat32Frac b = 0) = False" using assms(2,3) b by (simp_all add: finite32_def abs32_0_iff)
    have "float32_rem a b s = Some (a, s)"
      unfolding float32_rem_def Let_def unpack32_def [symmetric] nf if_False u prod.case by (simp only: if_P [OF a0])
    moreover have "val32 a = 0" using True by (simp add: val32_def)
    ultimately show ?thesis using vb assms(2) by (intro if_not_P [THEN iffD2]) (auto intro!: exI [of _ 0])
  next
    case False
    obtain z s' R n where z: "float32_rem a b s = Some (z, s')" "abs32 a = n * abs32 b + R"
      "2 * \<bar>R\<bar> \<le> abs32 b" "2 * \<bar>R\<bar> = abs32 b \<longrightarrow> even n" "finite32 z" "abs32 z = \<bar>R\<bar>"
      "extractFloat32Sign z = (extractFloat32Sign a \<noteq> (R < 0))"
      using float32_rem_nonzero [OF assms False b] by blast
    define n' where "n' = (if extractFloat32Sign a = extractFloat32Sign b then n else - n)"
    have v: "val32 a = n' * val32 b + val32 z" using z(2,6,7) by (auto simp: val32_def n'_def)
    have abs: "\<bar>val32 z\<bar> = \<bar>R\<bar>" "\<bar>val32 b\<bar> = abs32 b" using z(6) by (simp_all flip: abs32_val)
    have sz: "val32 z = 0 \<longrightarrow> extractFloat32Sign z = extractFloat32Sign a" using z(6,7) by (auto simp: val32_def split: if_splits)
    have "2 * \<bar>val32 z\<bar> = \<bar>val32 b\<bar> \<longrightarrow> even n'" using z(4) unfolding abs n'_def by simp
    then show ?thesis unfolding if_not_P [OF vb]
      by (intro exI [of _ z] exI [of _ s'] exI [of _ n'] conjI z(1,5) v sz) (unfold abs, rule z(3))
  qed
qed

theorem float32_rem_correct_witness:
  "(\<exists>z s' n. float32_rem 0x40E00000 0x40000000 fp_init = Some (z, s') \<and> val32 0x40E00000 = n * val32 0x40000000 + val32 z \<and>
      2 * \<bar>val32 z\<bar> \<le> \<bar>val32 0x40000000\<bar>) \<and>
   map_option fst (float32_rem 0x40E00000 0x40000000 fp_init) = Some 0xBF800000"
proof -
  have "nearest_even fp_init" "finite32 0x40E00000" "finite32 0x40000000" "val32 0x40000000 \<noteq> 0" by code_simp+
  moreover have "map_option fst (float32_rem 0x40E00000 0x40000000 fp_init) = Some 0xBF800000" by code_simp
  ultimately show ?thesis using float32_rem_correct [of fp_init "0x40E00000" "0x40000000"] by auto
qed

end
