(* ===== verification/Float64_Rem.thy ===== *)
theory Float64_Rem
  imports Float64_Correct Float_Remainder
begin

text \<open>
  The double-precision remainder \<open>float64_rem\<close>: its loops end and it returns the exact IEEE remainder.  Each
  step keeps an eighth of the rest; at the end divisor and rest are shifted right by eight bits, so that small
  multiples of the divisor keep the sign bit free.
\<close>

section \<open>The partial remainder\<close>

lemma estimate_less_four:
  fixes a0 a1 b0 b1 :: bits32
  assumes "2 ^ 63 \<le> val64 (b0, b1)" "val64 (a0, a1) < val64 (b0, b1)"
  shows "\<exists>e. estimateDiv64To32 a0 a1 b0 = Some e \<and>
    uint (if 4 < e then e - 4 else 0) \<le> val64 (a0, a1) * 2 ^ 32 div val64 (b0, b1) \<and>
    val64 (a0, a1) * 2 ^ 32 div val64 (b0, b1) \<le> uint (if 4 < e then e - 4 else 0) + 4"
proof -
  define Q where "Q = val64 (a0, a1) * 2 ^ 32 div val64 (b0, b1)"
  have "0 \<le> Q" using assms(1) val64_nonneg [of a0 a1] by (simp add: Q_def pos_imp_zdiv_nonneg_iff)
  obtain e where e: "estimateDiv64To32 a0 a1 b0 = Some e" "Q \<le> uint e" "uint e \<le> Q + 4"
    using div64_digit_estimate [OF assms] by (auto simp: Q_def)
  have "uint (e - 4) = uint e - 4" if "4 < e"
    using that uint_lt2p [of e] by (simp add: word_less_def uint_word_ariths)
  then have "uint (if 4 < e then e - 4 else 0) = max 0 (uint e - 4)" by (auto simp: word_less_def)
  then show ?thesis using e \<open>0 \<le> Q\<close> unfolding Q_def [symmetric] by auto
qed

lemma low_word_zero:
  assumes "val64 (h, l) = x * 2 ^ 32"
  shows "l = 0" "uint h = x"
proof -
  have "uint h * 2 ^ 32 + uint l = x * 2 ^ 32" using assms by (simp add: val64_def)
  moreover have "uint l < 2 ^ 32" using uint_lt2p [of l] by simp
  ultimately have "uint h = x \<and> uint l = 0"
    using div_mod_split [of "uint h * 2 ^ 32 + uint l" "uint h" "2 ^ 32" "uint l"] by simp
  then show "l = 0" "uint h = x" by (simp_all add: uint_0_iff)
qed

lemma low_word96_zero:
  assumes "val96 (u1, u2, l) = x * 2 ^ 32"
  shows "val64 (u1, u2) = x"
proof -
  have "val64 (u1, u2) * 2 ^ 32 + uint l = x * 2 ^ 32" using assms by (simp add: val96_split)
  then show ?thesis using div_mod_split(1) [of "val64 (u1, u2) * 2 ^ 32 + uint l" "val64 (u1, u2)" "2 ^ 32" "uint l"] uint_lt2p [of l] by simp
qed

text \<open>A step of the reduction keeps an eighth of the rest.\<close>

lemma rem64_step:
  fixes a0 a1 b0 b1 p :: bits32
  defines "A \<equiv> val64 (a0, a1)" and "B \<equiv> val64 (b0, b1)"
  assumes "A < B" "2 ^ 11 dvd B" "2 ^ 8 dvd A" "uint p \<le> A * 2 ^ 32 div B" "A * 2 ^ 32 div B \<le> uint p + 4"
    "mul64By32To96 b0 b1 p = (t0, t1, t2)" "shortShift96Left t0 t1 t2 29 = (u1, u2, u3)" "shortShift64Left a0 a1 29 = (h, l)"
    "sub64 h 0 u1 u2 = (c0, c1)"
  shows "8 * val64 (c0, c1) = A * 2 ^ 32 - B * uint p" "val64 (c0, c1) < B" "2 ^ 8 dvd val64 (c0, c1)"
proof -
  obtain a b where a: "A = 2 ^ 8 * a" and b: "B = 2 ^ 11 * b" using assms(4,5) by blast
  have d: "0 \<le> A * 2 ^ 32 - B * uint p" "A * 2 ^ 32 - B * uint p < 5 * B"
    using rem_digit [OF _ assms(3,6,7), of 32] val64_nonneg [of a0 a1] by (simp_all add: A_def)
  have B64: "B < 2 ^ 64" unfolding B_def by (rule val64_less)
  have "val64 (h, l) = (a * 2 ^ 5 * 2 ^ 32) mod (2 ^ 32 * 2 ^ 32)"
    using val64_shortShift64Left [of 29 a0 a1] assms(10) by (simp add: a A_def [symmetric] mult_ac)
  also have "\<dots> = (a * 2 ^ 5 mod 2 ^ 32) * 2 ^ 32" by (simp only: mult_mod_left)
  finally have "uint h = a * 2 ^ 5 mod 2 ^ 32" by (rule low_word_zero)
  then have vh: "val64 (h, 0) = (a * 2 ^ 37) mod 2 ^ 64" using mult_mod_left [of "a * 2 ^ 5" "2 ^ 32" "2 ^ 32"] by (simp add: val64_def mult.commute [of _ a])
  have "val96 (t0, t1, t2) = B * uint p" using val96_mul64By32To96 [of b0 b1 p] assms(8) by (simp add: B_def)
  then have "val96 (u1, u2, u3) = (b * uint p * 2 ^ 8 * 2 ^ 32) mod (2 ^ 64 * 2 ^ 32)"
    using val96_shortShift96Left [of 29 t0 t1 t2] assms(9) by (simp add: b mult_ac)
  also have "\<dots> = (b * uint p * 2 ^ 8 mod 2 ^ 64) * 2 ^ 32" by (simp only: mult_mod_left)
  finally have vu: "val64 (u1, u2) = b * uint p * 2 ^ 8 mod 2 ^ 64" by (rule low_word96_zero)
  define V where "V = a * 2 ^ 37 - b * uint p * 2 ^ 8"
  have V8: "8 * V = A * 2 ^ 32 - B * uint p" by (simp add: V_def a b algebra_simps)
  have "val64 (c0, c1) = V mod 2 ^ 64" using val64_sub64 [of h 0 u1 u2] assms(11) by (simp add: vh vu V_def mod_simps)
  also have "\<dots> = V" using d V8 B64 by simp
  finally have c: "val64 (c0, c1) = V" .
  show "8 * val64 (c0, c1) = A * 2 ^ 32 - B * uint p" unfolding c by (rule V8)
  show "val64 (c0, c1) < B" unfolding c using d V8 by simp
  have "V = 2 ^ 8 * (a * 2 ^ 29 - b * uint p)" by (simp add: V_def algebra_simps)
  then show "2 ^ 8 dvd val64 (c0, c1)" unfolding c by (rule dvdI)
qed

lemma float64_rem_reduce_returns:
  fixes a0 a1 b0 b1 :: bits32
  assumes "2 ^ 63 \<le> val64 (b0, b1)" "2 ^ 11 dvd val64 (b0, b1)" "val64 (a0, a1) < val64 (b0, b1)" "2 ^ 8 dvd val64 (a0, a1)"
  shows "\<exists>q' c0 c1 d'. float64_rem_reduce b0 b1 q a0 a1 d = Some (q', c0, c1, d') \<and> val64 (c0, c1) < val64 (b0, b1) \<and>
    2 ^ 8 dvd val64 (c0, c1) \<and> d' \<le> 0 \<and>
    (if d \<le> 0 then q' = q \<and> c0 = a0 \<and> c1 = a1 \<and> d' = d
     else - 29 < d' \<and> (\<exists>M. val64 (a0, a1) * 2 ^ nat (d + 32) = val64 (c0, c1) * 2 ^ nat (d' + 32) + val64 (b0, b1) * (2 * M)))"
  using assms(3,4)
proof (induction "nat d" arbitrary: q a0 a1 d rule: less_induct)
  case less
  define B where "B = val64 (b0, b1)"
  show ?case
  proof (cases "0 < d")
    case False
    then show ?thesis using less.prems by simp
  next
    case True
    obtain e where e: "estimateDiv64To32 a0 a1 b0 = Some e" "uint (if 4 < e then e - 4 else 0) \<le> val64 (a0, a1) * 2 ^ 32 div val64 (b0, b1)"
      "val64 (a0, a1) * 2 ^ 32 div val64 (b0, b1) \<le> uint (if 4 < e then e - 4 else 0) + 4"
      using estimate_less_four [OF assms(1) less.prems(1)] by blast
    define p where "p = (if 4 < e then e - 4 else 0)"
    obtain t0 t1 t2 where t: "mul64By32To96 b0 b1 p = (t0, t1, t2)" by (metis prod_cases3)
    obtain u1 u2 u3 where u: "shortShift96Left t0 t1 t2 29 = (u1, u2, u3)" by (metis prod_cases3)
    obtain h l where h: "shortShift64Left a0 a1 29 = (h, l)" by fastforce
    obtain x0 x1 where x: "sub64 h 0 u1 u2 = (x0, x1)" by fastforce
    note st = rem64_step [OF less.prems(1) assms(2) less.prems(2) e(2,3) [folded p_def] t u h x]
    have lt: "nat (d - 29) < nat d" using True by simp
    obtain q' c0 c1 d' where r: "float64_rem_reduce b0 b1 p x0 x1 (d - 29) = Some (q', c0, c1, d')" "val64 (c0, c1) < B" "2 ^ 8 dvd val64 (c0, c1)" "d' \<le> 0"
      "if d - 29 \<le> 0 then q' = p \<and> c0 = x0 \<and> c1 = x1 \<and> d' = d - 29
       else - 29 < d' \<and> (\<exists>M. val64 (x0, x1) * 2 ^ nat (d - 29 + 32) = val64 (c0, c1) * 2 ^ nat (d' + 32) + B * (2 * M))"
      using less.hyps [OF lt st(2,3), of p] unfolding B_def by blast
    have n: "nat (d + 32) = 32 + nat d" "nat (d + 3) = 3 + nat d" "nat d = Suc (nat (d - 1))" using True by simp_all
    have "val64 (a0, a1) * 2 ^ 32 = 8 * val64 (x0, x1) + B * uint p" using st(1) by (simp add: B_def)
    then have "val64 (a0, a1) * 2 ^ 32 * 2 ^ nat d = (8 * val64 (x0, x1) + B * uint p) * 2 ^ nat d" by (simp only:)
    also have "\<dots> = val64 (x0, x1) * 2 ^ nat (d + 3) + B * (2 * (uint p * 2 ^ nat (d - 1)))" unfolding n(2) by (simp add: n(3) power_add algebra_simps)
    finally have up: "val64 (a0, a1) * 2 ^ nat (d + 32) = val64 (x0, x1) * 2 ^ nat (d + 3) + B * (2 * (uint p * 2 ^ nat (d - 1)))"
      unfolding n(1) power_add by (simp only: mult.assoc)
    have "- 29 < d' \<and> (\<exists>M. val64 (a0, a1) * 2 ^ nat (d + 32) = val64 (c0, c1) * 2 ^ nat (d' + 32) + B * (2 * M))"
    proof (cases "d - 29 \<le> 0")
      case True
      then have "c0 = x0" "c1 = x1" "d' = d - 29" using r(5) by simp_all
      then show ?thesis using \<open>0 < d\<close> up by (intro conjI exI [of _ "uint p * 2 ^ nat (d - 1)"]) (simp_all add: add.commute)
    next
      case False
      then obtain M where M: "val64 (x0, x1) * 2 ^ nat (d - 29 + 32) = val64 (c0, c1) * 2 ^ nat (d' + 32) + B * (2 * M)" "- 29 < d'" using r(5) by auto
      then have "val64 (a0, a1) * 2 ^ nat (d + 32) = val64 (c0, c1) * 2 ^ nat (d' + 32) + B * (2 * (M + uint p * 2 ^ nat (d - 1)))"
        using up by (simp add: algebra_simps)
      then show ?thesis using M(2) by blast
    qed
    moreover have "float64_rem_reduce b0 b1 q a0 a1 d = Some (q', c0, c1, d')"
      using True r(1) by (subst float64_rem_reduce.simps)
        (simp only: if_True e(1) Option.bind.bind_lunit Let_def p_def [symmetric] t u h x prod.case)
    ultimately show ?thesis using True r(2-4) by (auto simp: B_def)
  qed
qed

lemma float64_rem_final_returns:
  fixes a0 a1 b0 b1 :: bits32
  assumes "val64 (a0, a1) < 5 * val64 (b0, b1)" "0 < val64 (b0, b1)" "val64 (b0, b1) < 2 ^ 56"
  shows "\<exists>c0 c1. float64_rem_final b0 b1 q a0 a1 =
      Some ((c0, c1), q + word_of_int (val64 (a0, a1) div val64 (b0, b1) + 1), sub64 c0 c1 b0 b1) \<and>
    val64 (c0, c1) = val64 (a0, a1) mod val64 (b0, b1)"
  using assms(1)
proof (induction "nat (val64 (a0, a1))" arbitrary: a0 a1 q rule: less_induct)
  case less
  define B where "B = val64 (b0, b1)"
  obtain z0 z1 where z: "sub64 a0 a1 b0 b1 = (z0, z1)" by fastforce
  have v: "val64 (z0, z1) = (val64 (a0, a1) - B) mod 2 ^ 64" using val64_sub64 [of a0 a1 b0 b1] by (simp add: z B_def)
  have B: "0 < B" "B < 2 ^ 56" using assms(2,3) by (simp_all add: B_def)
  have neg: "sint z0 < 0 \<longleftrightarrow> val64 (a0, a1) - B < 0"
    using less.prems val64_nonneg [of a0 a1] B by (intro signed_rem_neg [OF v]) (simp_all add: B_def)
  show ?case
  proof (cases "B \<le> val64 (a0, a1)")
    case False
    then have "val64 (a0, a1) div B = 0" "val64 (a0, a1) mod B = val64 (a0, a1)" using val64_nonneg [of a0 a1] by simp_all
    then show ?thesis using False neg by (subst float64_rem_final.simps) (simp add: z B_def)
  next
    case True
    have u: "val64 (z0, z1) = val64 (a0, a1) - B" using v True val64_less [of "(a0, a1)"] B(1) by simp
    have dm: "val64 (z0, z1) div B = val64 (a0, a1) div B - 1" "val64 (z0, z1) mod B = val64 (a0, a1) mod B"
      using B(1) div_add_self2 [of B "val64 (a0, a1) - B"] by (simp_all add: u)
    have lt: "nat (val64 (z0, z1)) < nat (val64 (a0, a1))" unfolding u using True B(1) by (intro nat_less_eq_zless [THEN iffD2]) simp_all
    have le: "val64 (z0, z1) < 5 * val64 (b0, b1)" using less.prems B(1) by (simp add: u)
    obtain c0 c1 where "float64_rem_final b0 b1 (q + 1) z0 z1 =
        Some ((c0, c1), q + 1 + word_of_int (val64 (z0, z1) div val64 (b0, b1) + 1), sub64 c0 c1 b0 b1)"
      "val64 (c0, c1) = val64 (z0, z1) mod val64 (b0, b1)"
      using less.hyps [OF lt, of "q + 1"] le by blast
    then show ?thesis using True neg dm by (subst float64_rem_final.simps) (simp add: z B_def)
  qed
qed

lemma float64_rem_digit:
  fixes a0 a1 b0 b1 :: bits32
  defines "A \<equiv> val64 (a0, a1)" and "B \<equiv> val64 (b0, b1)"
  assumes "2 ^ 63 \<le> B" "2 ^ 11 dvd B" "A < B" "2 ^ 8 dvd A" "2 ^ 10 dvd A * 2 ^ nat (d + 32)" "- 32 < d" "d \<le> 0"
    and y: "shift64Right b0 b1 8 = (y0, y1)"
  shows "\<exists>q c0 c1. (do {
      q \<leftarrow> estimateDiv64To32 a0 a1 b0;
      let q = (if 4 < q then q - 4 else 0);
      let q = c_shr q (- d);
      let (bSig0, bSig1) = shift64Right b0 b1 8;
      let expDiff = d + 24;
      let (aSig0, aSig1) = (if expDiff < 0 then shift64Right a0 a1 (- expDiff) else shortShift64Left a0 a1 expDiff);
      let (term0, term1, term2) = mul64By32To96 bSig0 bSig1 q;
      Some (q, sub64 aSig0 aSig1 term1 term2, (bSig0, bSig1)) }) = Some (q, (c0, c1), (y0, y1)) \<and>
    A * 2 ^ nat (d + 32) = 256 * val64 (c0, c1) + B * uint q \<and> val64 (c0, c1) < 5 * val64 (y0, y1) \<and> 2 ^ 2 dvd val64 (c0, c1)"
proof -
  define k where "k = nat (d + 32)"
  obtain a b where a: "A = 2 ^ 8 * a" and b: "B = 2 ^ 11 * b" using assms(4,6) by blast
  obtain e where e: "estimateDiv64To32 a0 a1 b0 = Some e" "uint (if 4 < e then e - 4 else 0) \<le> A * 2 ^ 32 div B"
    "A * 2 ^ 32 div B \<le> uint (if 4 < e then e - 4 else 0) + 4"
    using estimate_less_four [OF assms(3,5) [unfolded A_def B_def]] unfolding A_def B_def by blast
  define p where "p = (if 4 < e then e - 4 else 0)"
  define q where "q = c_shr p (- d)"
  have q: "uint q = uint p div 2 ^ (32 - k)" using assms(8,9) nat_diff_distrib [of "d + 32" 32] by (simp add: q_def uint_c_shr k_def)
  have dg: "0 \<le> A * 2 ^ k - B * uint q" "A * 2 ^ k - B * uint q < 5 * B"
    using rem_digit [OF _ assms(5) e(2,3) [folded p_def], of k] val64_nonneg [of a0 a1] assms(9) by (simp_all add: A_def k_def q)
  have vy: "val64 (y0, y1) = 2 ^ 3 * b" using val64_shift64Right [of 8 b0 b1] by (simp add: y B_def [symmetric] b)
  obtain x0 x1 where x: "(if d + 24 < 0 then shift64Right a0 a1 (- (d + 24)) else shortShift64Left a0 a1 (d + 24)) = (x0, x1)" by fastforce
  have vx: "val64 (x0, x1) = (a * 2 ^ k) mod 2 ^ 64"
  proof (cases "d + 24 < 0")
    case True
    have "8 = k + nat (- (d + 24))" using True assms(8) unfolding k_def by linarith
    then have "(2::int) ^ 8 = 2 ^ k * 2 ^ nat (- (d + 24))" by (metis power_add)
    then have "A = (a * 2 ^ k) * 2 ^ nat (- (d + 24))" unfolding a by (simp only: mult_ac)
    then have "A div 2 ^ nat (- (d + 24)) = a * 2 ^ k" by simp
    then have "val64 (x0, x1) = a * 2 ^ k" using True x val64_shift64Right [of "- (d + 24)" a0 a1] by (simp add: A_def)
    then show ?thesis using val64_less [of "(x0, x1)"] by simp
  next
    case False
    have "k = 8 + nat (d + 24)" using False unfolding k_def by linarith
    then have "A * 2 ^ nat (d + 24) = a * 2 ^ k" by (simp add: a power_add)
    then show ?thesis using False assms(9) x val64_shortShift64Left [of "d + 24" a0 a1] by (simp add: A_def)
  qed
  obtain t0 t1 t2 where t: "mul64By32To96 y0 y1 q = (t0, t1, t2)" by (metis prod_cases3)
  have "uint t0 * 2 ^ 64 + val64 (t1, t2) = 2 ^ 3 * b * uint q"
    using val96_mul64By32To96 [of y0 y1 q] by (simp add: t vy val96_split_high)
  then have "val64 (t1, t2) = 2 ^ 3 * b * uint q - uint t0 * 2 ^ 64" by simp
  moreover obtain c0 c1 where c: "sub64 x0 x1 t1 t2 = (c0, c1)" by fastforce
  ultimately have vc: "val64 (c0, c1) = (a * 2 ^ k - (2 ^ 3 * b * uint q - uint t0 * 2 ^ 64)) mod 2 ^ 64"
    using val64_sub64 [of x0 x1 t1 t2] by (simp add: vx mod_simps)
  define V where "V = a * 2 ^ k - 2 ^ 3 * b * uint q"
  have V: "256 * V = A * 2 ^ k - B * uint q" by (simp add: V_def a b algebra_simps)
  have "val64 (c0, c1) = (V + uint t0 * 2 ^ 64) mod 2 ^ 64" unfolding vc V_def by (simp add: algebra_simps)
  then have "val64 (c0, c1) = V mod 2 ^ 64" by (simp only: mod_mult_self1)
  then have vc: "val64 (c0, c1) = V" using dg V val64_less [of "(b0, b1)"] by (simp add: B_def)
  have "2 ^ 2 dvd V"
  proof -
    have "2 ^ 8 * 2 ^ 2 dvd 2 ^ 8 * (a * 2 ^ k)" using assms(7) by (simp add: a k_def mult.assoc)
    then have "2 ^ 2 dvd a * 2 ^ k" by (subst (asm) dvd_mult_cancel_left) simp
    moreover have "2 ^ 2 dvd 2 ^ 3 * b * uint q" by (simp add: dvd_mult2)
    ultimately show ?thesis unfolding V_def by (rule dvd_diff)
  qed
  moreover have "V < 5 * val64 (y0, y1)" using dg V by (simp add: b vy)
  moreover have "A * 2 ^ k = 256 * V + B * uint q" using V by simp
  ultimately show ?thesis using e(1) unfolding Let_def p_def [symmetric] q_def [symmetric] y prod.case x t c vc k_def [symmetric] e(1) Option.bind.bind_lunit
    by (intro exI [of _ q] exI [of _ c0] exI [of _ c1]) (simp add: vc)
qed

text \<open>The nearer of the two remainders next to zero.\<close>

lemma nearest_choice64:
  fixes c0 c1 b0 b1 q :: bits32
  defines "c \<equiv> val64 (c0, c1)" and "b \<equiv> val64 (b0, b1)"
  assumes "c < b" "b < 2 ^ 56"
  defines "r \<equiv> (if 2 * c < b \<or> 2 * c = b \<and> odd (uint q) then c else c - b)"
  shows "\<exists>w0 w1. (let (aSig0, aSig1) = sub64 c0 c1 b0 b1;
      (sigMean0, sigMean1) = add64 aSig0 aSig1 c0 c1;
      (aSig0, aSig1) = (if sint sigMean0 < 0 \<or> sigMean0 OR sigMean1 = 0 \<and> q AND 1 \<noteq> 0 then (c0, c1) else (aSig0, aSig1));
      zSign = sint aSig0 < 0;
      (aSig0, aSig1) = (if zSign then sub64 0 0 aSig0 aSig1 else (aSig0, aSig1)) in g zSign aSig0 aSig1) = g (r < 0) w0 w1 \<and>
    val64 (w0, w1) = \<bar>r\<bar>"
proof -
  have cb: "0 \<le> c" "0 < b" using assms(3) val64_nonneg [of c0 c1] by (simp_all add: c_def)
  obtain a0 a1 where a: "sub64 c0 c1 b0 b1 = (a0, a1)" by fastforce
  obtain m0 m1 where m: "add64 a0 a1 c0 c1 = (m0, m1)" by fastforce
  have va: "val64 (a0, a1) = (c - b) mod 2 ^ 64" using val64_sub64 [of c0 c1 b0 b1] by (simp add: a c_def b_def)
  have vm: "val64 (m0, m1) = (2 * c - b) mod 2 ^ 64" using val64_add64 [of a0 a1 c0 c1] by (simp add: m va c_def [symmetric] mod_simps algebra_simps)
  have sm: "sint m0 < 0 \<longleftrightarrow> 2 * c < b" using signed_rem_neg [OF vm] assms(3,4) cb by simp
  have zm: "m0 OR m1 = 0 \<longleftrightarrow> 2 * c = b"
  proof -
    have "m0 OR m1 = 0 \<longleftrightarrow> val64 (m0, m1) = 0" by (simp add: val64_eq_0 or_word_eq_0)
    also have "\<dots> \<longleftrightarrow> 2 * c = b" unfolding vm using int_mod_if_neg [of "2 ^ 64" "2 * c - b"] assms(3,4) cb by (auto split: if_splits)
    finally show ?thesis .
  qed
  have o: "q AND 1 \<noteq> 0 \<longleftrightarrow> odd (uint q)" using uint_and_mask [of q 1] by (simp add: mask_eq_exp_minus_1 odd_iff_mod_2_eq_one flip: uint_0_iff)
  obtain x0 x1 where x: "(if sint m0 < 0 \<or> m0 OR m1 = 0 \<and> q AND 1 \<noteq> 0 then (c0, c1) else (a0, a1)) = (x0, x1)" by fastforce
  have vc: "val64 (c0, c1) = c mod 2 ^ 64" using val64_less [of "(c0, c1)"] cb by (simp add: c_def)
  have vx: "val64 (x0, x1) = r mod 2 ^ 64" unfolding x [symmetric] sm zm o r_def using va vc by auto
  have rb: "- (2 ^ 56) < r" "r < 2 ^ 56" using assms(3,4) cb by (auto simp: r_def)
  have sx: "sint x0 < 0 \<longleftrightarrow> r < 0" using signed_rem_neg [OF vx] rb by simp
  obtain w0 w1 where w: "(if r < 0 then sub64 0 0 x0 x1 else (x0, x1)) = (w0, w1)" by fastforce
  have "val64 (w0, w1) = \<bar>r\<bar>"
  proof (cases "r < 0")
    case True
    have "val64 (w0, w1) = (- r) mod 2 ^ 64" using True w val64_sub64 [of 0 0 x0 x1] by (simp add: vx mod_simps)
    then show ?thesis using True rb by simp
  next
    case False
    then show ?thesis using w vx rb by simp
  qed
  then show ?thesis unfolding a Let_def prod.case m x sx w by blast
qed

section \<open>The remainder of two numbers\<close>

lemma rem64_parts:
  fixes a0 a1 b0 b1 :: bits32
  defines "A \<equiv> val64 (a0, a1)" and "B \<equiv> val64 (b0, b1)"
  assumes "2 ^ 63 \<le> B" "2 ^ 11 dvd B" "2 ^ 10 dvd A"
    "(if (bit_of (le64 b0 b1 a0 a1) :: bits32) \<noteq> 0 then sub64 a0 a1 b0 b1 else (a0, a1)) = (x0, x1)"
  shows "val64 (x0, x1) < B" "2 ^ 10 dvd val64 (x0, x1)" "A = val64 (x0, x1) + B * uint (bit_of (le64 b0 b1 a0 a1) :: bits32)"
proof -
  have lt: "A < 2 * B" using assms(3) val64_less [of "(a0, a1)"] by (simp add: A_def)
  have dB: "2 ^ 10 dvd B" using assms(4) by (auto elim: dvd_trans [rotated])
  have "val64 (x0, x1) < B \<and> 2 ^ 10 dvd val64 (x0, x1) \<and> A = val64 (x0, x1) + B * uint (bit_of (le64 b0 b1 a0 a1) :: bits32)"
  proof (cases "B \<le> A")
    case True
    then have "val64 (sub64 a0 a1 b0 b1) = A - B" unfolding A_def B_def by (rule val64_sub64_exact)
    moreover have "le64 b0 b1 a0 a1" using True by (simp add: val64_le64 A_def B_def)
    ultimately show ?thesis using assms(6) lt dB assms(5) by (simp add: bit_of_def)
  next
    case False
    then have "\<not> le64 b0 b1 a0 a1" by (simp add: val64_le64 A_def B_def)
    then show ?thesis using assms(5,6) False by (simp add: bit_of_def A_def)
  qed
  then show "val64 (x0, x1) < B" "2 ^ 10 dvd val64 (x0, x1)" "A = val64 (x0, x1) + B * uint (bit_of (le64 b0 b1 a0 a1) :: bits32)" by blast+
qed

lemma float64_rem_core:
  fixes a0 a1 b0 b1 :: bits32
  defines "A \<equiv> val64 (a0, a1)" and "B \<equiv> val64 (b0, b1)"
  assumes "2 ^ 63 \<le> B" "2 ^ 11 dvd B" "2 ^ 10 dvd A"
  shows "\<exists>w0 w1 r n. (let q = bit_of (le64 b0 b1 a0 a1);
      (aSig0, aSig1) = (if q \<noteq> 0 then sub64 a0 a1 b0 b1 else (a0, a1)) in do {
      (q, aSig0, aSig1, expDiff) \<leftarrow> float64_rem_reduce b0 b1 q aSig0 aSig1 (e - 32);
      (q, (aSig0, aSig1), (bSig0, bSig1)) \<leftarrow>
        (if - 32 < expDiff
         then do {
           q \<leftarrow> estimateDiv64To32 aSig0 aSig1 b0;
           let q = (if 4 < q then q - 4 else 0);
           let q = c_shr q (- expDiff);
           let (bSig0, bSig1) = shift64Right b0 b1 8;
           let expDiff = expDiff + 24;
           let (aSig0, aSig1) =
             (if expDiff < 0 then shift64Right aSig0 aSig1 (- expDiff) else shortShift64Left aSig0 aSig1 expDiff);
           let (term0, term1, term2) = mul64By32To96 bSig0 bSig1 q;
           Some (q, sub64 aSig0 aSig1 term1 term2, (bSig0, bSig1)) }
         else Some (q, shift64Right aSig0 aSig1 8, shift64Right b0 b1 8));
      ((alternateASig0, alternateASig1), q, aSig0, aSig1) \<leftarrow> float64_rem_final bSig0 bSig1 q aSig0 aSig1;
      let (sigMean0, sigMean1) = add64 aSig0 aSig1 alternateASig0 alternateASig1;
      let (aSig0, aSig1) =
        (if sint sigMean0 < 0 \<or> sigMean0 OR sigMean1 = 0 \<and> q AND 1 \<noteq> 0
         then (alternateASig0, alternateASig1) else (aSig0, aSig1));
      let zSign = sint aSig0 < 0;
      let (aSig0, aSig1) = (if zSign then sub64 0 0 aSig0 aSig1 else (aSig0, aSig1));
      Some (g zSign aSig0 aSig1) }) = Some (g (r < 0) w0 w1) \<and> val64 (w0, w1) = \<bar>r\<bar> \<and>
    A * 2 ^ nat e = 256 * r + B * n \<and> 512 * \<bar>r\<bar> \<le> B \<and> (512 * \<bar>r\<bar> = B \<longrightarrow> even n) \<and> 2 ^ 2 dvd r"
proof -
  define qi where "qi = (bit_of (le64 b0 b1 a0 a1) :: bits32)"
  obtain x0 x1 where x: "(if qi \<noteq> 0 then sub64 a0 a1 b0 b1 else (a0, a1)) = (x0, x1)" by fastforce
  have X: "val64 (x0, x1) < B" "2 ^ 10 dvd val64 (x0, x1)" "A = val64 (x0, x1) + B * uint qi"
    using rem64_parts [OF assms(3-5) [unfolded A_def B_def] x [unfolded qi_def]] by (simp_all add: A_def B_def qi_def)
  have X8: "2 ^ 8 dvd val64 (x0, x1)" using X(2) by (auto elim: dvd_trans [rotated])
  obtain y0 y1 where y: "shift64Right b0 b1 8 = (y0, y1)" by fastforce
  define b where "b = val64 (y0, y1)"
  have bB: "b = B div 2 ^ 8" using val64_shift64Right [of 8 b0 b1] by (simp add: y b_def B_def)
  obtain b' where b': "B = 2 ^ 11 * b'" using assms(4) by blast
  have b8: "b = 2 ^ 3 * b'" by (simp add: bB b')
  have B256: "256 * b = B" by (simp add: b8 b')
  have b: "0 < b" "b < 2 ^ 56" using B256 assms(3) val64_less [of "(b0, b1)"] by (simp_all add: B_def)
  obtain q' c0 c1 d' where red: "float64_rem_reduce b0 b1 qi x0 x1 (e - 32) = Some (q', c0, c1, d')" "val64 (c0, c1) < B" "2 ^ 8 dvd val64 (c0, c1)" "d' \<le> 0"
    "if e - 32 \<le> 0 then q' = qi \<and> c0 = x0 \<and> c1 = x1 \<and> d' = e - 32
     else - 29 < d' \<and> (\<exists>M. val64 (x0, x1) * 2 ^ nat (e - 32 + 32) = val64 (c0, c1) * 2 ^ nat (d' + 32) + B * (2 * M))"
    using float64_rem_reduce_returns [OF assms(3,4) [unfolded B_def] X(1) [unfolded B_def] X8, of qi "e - 32"] unfolding B_def by blast
  obtain q2 z0 z1 N where mid: "(if - 32 < d'
      then do {
        q \<leftarrow> estimateDiv64To32 c0 c1 b0;
        let q = (if 4 < q then q - 4 else 0);
        let q = c_shr q (- d');
        let (bSig0, bSig1) = shift64Right b0 b1 8;
        let expDiff = d' + 24;
        let (aSig0, aSig1) = (if expDiff < 0 then shift64Right c0 c1 (- expDiff) else shortShift64Left c0 c1 expDiff);
        let (term0, term1, term2) = mul64By32To96 bSig0 bSig1 q;
        Some (q, sub64 aSig0 aSig1 term1 term2, (bSig0, bSig1)) }
      else Some (q', shift64Right c0 c1 8, shift64Right b0 b1 8)) = Some (q2, (z0, z1), (y0, y1))"
    "A * 2 ^ nat e = 256 * val64 (z0, z1) + B * N" "even N \<longleftrightarrow> even (uint q2)" "val64 (z0, z1) < 5 * b" "2 ^ 2 dvd val64 (z0, z1)"
  proof (cases "0 < e")
    case False
    then have eq: "q' = qi" "c0 = x0" "c1 = x1" "d' = e - 32" using red(5) by simp_all
    obtain z0 z1 where z: "shift64Right x0 x1 8 = (z0, z1)" by fastforce
    obtain a where a: "val64 (x0, x1) = 2 ^ 10 * a" using X(2) by blast
    have vz: "val64 (z0, z1) = 2 ^ 2 * a" using val64_shift64Right [of 8 x0 x1] by (simp add: z a)
    show thesis
    proof (rule that [of qi z0 z1 "uint qi"])
      show "A * 2 ^ nat e = 256 * val64 (z0, z1) + B * uint qi" using False X(3) by (simp add: vz a)
      show "val64 (z0, z1) < 5 * b" using X(1) b(1) B256 by (simp add: vz a)
      show "2 ^ 2 dvd val64 (z0, z1)" unfolding vz by simp
    qed (use False in \<open>simp_all add: eq y z\<close>)
  next
    case True
    have d: "- 32 < d'" using red(5) True by (auto split: if_splits)
    have "\<exists>M. val64 (x0, x1) * 2 ^ nat e = val64 (c0, c1) * 2 ^ nat (d' + 32) + B * (2 * M)"
      using red(5) by (auto split: if_splits intro: exI [of _ 0])
    then obtain M where M: "val64 (x0, x1) * 2 ^ nat e = val64 (c0, c1) * 2 ^ nat (d' + 32) + B * (2 * M)" by blast
    have dv: "2 ^ 10 dvd val64 (c0, c1) * 2 ^ nat (d' + 32)"
    proof (cases "e - 32 \<le> 0")
      case True
      then have "c0 = x0" "c1 = x1" using red(5) by simp_all
      then show ?thesis using X(2) by (simp add: dvd_mult2)
    next
      case False
      then have "- 29 < d'" using red(5) by simp
      then have "2 \<le> nat (d' + 32)" by linarith
      then have "(2::int) ^ 2 dvd 2 ^ nat (d' + 32)" by (rule le_imp_power_dvd)
      then have "(2::int) ^ 8 * 2 ^ 2 dvd val64 (c0, c1) * 2 ^ nat (d' + 32)" using red(3) by (intro mult_dvd_mono)
      then show ?thesis by simp
    qed
    note dig = float64_rem_digit [OF assms(3,4) [unfolded B_def] red(2) [unfolded B_def] red(3) dv d red(4) y]
    obtain q2 z0 z1 where dg: "(do {
        q \<leftarrow> estimateDiv64To32 c0 c1 b0;
        let q = (if 4 < q then q - 4 else 0);
        let q = c_shr q (- d');
        let (bSig0, bSig1) = shift64Right b0 b1 8;
        let expDiff = d' + 24;
        let (aSig0, aSig1) = (if expDiff < 0 then shift64Right c0 c1 (- expDiff) else shortShift64Left c0 c1 expDiff);
        let (term0, term1, term2) = mul64By32To96 bSig0 bSig1 q;
        Some (q, sub64 aSig0 aSig1 term1 term2, (bSig0, bSig1)) }) = Some (q2, (z0, z1), (y0, y1))"
      "val64 (c0, c1) * 2 ^ nat (d' + 32) = 256 * val64 (z0, z1) + B * uint q2" "val64 (z0, z1) < 5 * b" "2 ^ 2 dvd val64 (z0, z1)"
      using dig unfolding b_def B_def by blast
    have ne: "(2::int) ^ nat e = 2 * 2 ^ nat (e - 1)" using True by (simp flip: power_Suc add: Suc_nat_eq_nat_zadd1)
    show thesis
    proof (rule that [of q2 z0 z1 "uint q2 + 2 * M + uint qi * 2 ^ nat e"])
      have "A * 2 ^ nat e = val64 (x0, x1) * 2 ^ nat e + B * (uint qi * 2 ^ nat e)" unfolding X(3) by (simp add: algebra_simps)
      then show "A * 2 ^ nat e = 256 * val64 (z0, z1) + B * (uint q2 + 2 * M + uint qi * 2 ^ nat e)"
        unfolding M dg(2) by (simp add: algebra_simps)
      show "even (uint q2 + 2 * M + uint qi * 2 ^ nat e) = even (uint q2)" unfolding ne by simp
    qed (use dg in \<open>simp_all only: if_P [OF d]\<close>)
  qed
  define t where "t = val64 (z0, z1) div b"
  define q3 where "q3 = q2 + word_of_int (t + 1)"
  obtain v0 v1 where v: "float64_rem_final y0 y1 q2 z0 z1 = Some ((v0, v1), q3, sub64 v0 v1 y0 y1)" "val64 (v0, v1) = val64 (z0, z1) mod b"
    using float64_rem_final_returns [of z0 z1 y0 y1 q2] mid(4) b unfolding b_def q3_def t_def by blast
  define c where "c = val64 (v0, v1)"
  have c: "0 \<le> c" "c < b" using b(1) by (simp_all add: c_def v(2))
  define alt where "alt \<longleftrightarrow> 2 * c < b \<or> 2 * c = b \<and> odd (uint q3)"
  define r where "r = (if alt then c else c - b)"
  define n where "n = (if alt then N + t else N + t + 1)"
  have ev: "even (uint q3) \<longleftrightarrow> odd (N + t)" unfolding q3_def odd_uint_plus using mid(3) by auto
  note near = nearest_remainder [OF c ev, folded alt_def, folded r_def n_def]
  have Z: "val64 (z0, z1) = b * t + c" by (simp add: t_def c_def v(2))
  have "A * 2 ^ nat e = 256 * (b * (N + t) + c)" unfolding mid(2) Z B256 [symmetric] by (simp add: algebra_simps)
  then have e: "A * 2 ^ nat e = 256 * r + B * n" unfolding near(1) B256 [symmetric] by (simp add: algebra_simps)
  have n: "512 * \<bar>r\<bar> \<le> B" "512 * \<bar>r\<bar> = B \<longrightarrow> even n" using near(2,3) B256 by auto
  have "2 ^ 2 dvd b" unfolding b8 by simp
  then have d: "2 ^ 2 dvd r" using dvd_mod [OF mid(5), of b] by (simp add: r_def c_def v(2))
  obtain w0 w1 where w: "(let (aSig0, aSig1) = sub64 v0 v1 y0 y1;
      (sigMean0, sigMean1) = add64 aSig0 aSig1 v0 v1;
      (aSig0, aSig1) = (if sint sigMean0 < 0 \<or> sigMean0 OR sigMean1 = 0 \<and> q3 AND 1 \<noteq> 0 then (v0, v1) else (aSig0, aSig1));
      zSign = sint aSig0 < 0;
      (aSig0, aSig1) = (if zSign then sub64 0 0 aSig0 aSig1 else (aSig0, aSig1)) in Some (g zSign aSig0 aSig1)) = Some (g (r < 0) w0 w1)"
    "val64 (w0, w1) = \<bar>r\<bar>"
    using nearest_choice64 [OF c(2) [unfolded c_def b_def] b(2) [unfolded b_def], where g = "\<lambda>z x y. Some (g z x y)" and q = q3]
    unfolding r_def alt_def c_def b_def by blast
  obtain f0 f1 where f: "sub64 v0 v1 y0 y1 = (f0, f1)" by fastforce
  show ?thesis
    using e n d w unfolding Let_def qi_def [symmetric] x prod.case red(1) Option.bind.bind_lunit mid(1) [unfolded Let_def] v(1) f by blast
qed

lemma normalize_zero64:
  assumes "- 200 \<le> E" "E \<le> 0x7FE" "nearest_even s"
  shows "bits_f64 (fst (normalizeRoundAndPackFloat64 sg E 0 0 s)) = sign64 sg"
proof -
  have c: "countLeadingZeros32 0 = 32" by code_simp
  have sh: "shortShift64Left 0 0 21 = (0, 0)" by (simp add: shortShift64Left_def c_shl_def c_shr_def)
  have e: "normalizeRoundAndPackFloat64 sg E 0 0 s = roundAndPackFloat64 sg (E - 53) 0 0 0 s"
    by (simp add: normalizeRoundAndPackFloat64_def c sh)
  have z: "packed 52 32 (E - 53) 0 = (if E < 53 then 0 else (E - 53) * 2 ^ 52)" by (simp add: packed_def rne_div_def)
  show ?thesis
  proof (cases "E \<le> 53")
    case True
    then show ?thesis using roundAndPackFloat64_value [of s 0 0 0 "E - 53" sg] assms z by (simp add: e val96_split float64_inf_def)
  next
    case False
    have "fst (roundAndPackFloat64 sg (E - 53) 0 0 0 s) = packFloat64 sg 0 0 0"
      using False assms by (simp add: roundAndPackFloat64_nearest rounded64_def)
    then show ?thesis by (simp add: e packFloat64_finite)
  qed
qed

lemma float64_rem_nonzero:
  assumes "nearest_even s" "finite64 a" "finite64 b" "abs64 a \<noteq> 0" "abs64 b \<noteq> 0"
  shows "\<exists>z s' R n. float64_rem a b s = Some (z, s') \<and> abs64 a = n * abs64 b + R \<and>
    2 * \<bar>R\<bar> \<le> abs64 b \<and> (2 * \<bar>R\<bar> = abs64 b \<longrightarrow> even n) \<and> finite64 z \<and> abs64 z = \<bar>R\<bar> \<and>
    extractFloat64Sign z = (extractFloat64Sign a \<noteq> (R < 0))"
proof -
  obtain Ea Sa0 Sa1 where ua: "unpack64 a = (Ea, Sa0, Sa1)" by (metis prod_cases3)
  obtain Eb Sb0 Sb1 where ub: "unpack64 b = (Eb, Sb0, Sb1)" by (metis prod_cases3)
  define ma mb where "ma = val64 (Sa0 OR 0x00100000, Sa1)" and "mb = val64 (Sb0 OR 0x00100000, Sb1)"
  have va: "2 ^ 52 \<le> ma" "ma < 2 ^ 53" "- 51 \<le> Ea" "Ea \<le> 0x7FE" "abs64 a * 2 ^ nat (1 - Ea) = ma * 2 ^ nat (Ea - 1)"
    using unpack64_value [OF assms(2,4) ua] by (simp_all add: ma_def)
  have vb: "2 ^ 52 \<le> mb" "mb < 2 ^ 53" "- 51 \<le> Eb" "Eb \<le> 0x7FE" "abs64 b * 2 ^ nat (1 - Eb) = mb * 2 ^ nat (Eb - 1)"
    using unpack64_value [OF assms(3,5) ub] by (simp_all add: mb_def)
  define sg where "sg = extractFloat64Sign a"
  obtain b0 b1 where b: "shortShift64Left (Sb0 OR 0x00100000) Sb1 11 = (b0, b1)" by fastforce
  define B where "B = val64 (b0, b1)"
  have B: "B = mb * 2 ^ 11" using val64_shortShift64Left [of 11 "Sb0 OR 0x00100000" Sb1] vb(1,2) by (simp add: b B_def mb_def)
  have nf: "(extractFloat64Exp a = 0x7FF) = False" "(extractFloat64Exp b = 0x7FF) = False"
    "(extractFloat64Exp a = 0 \<and> extractFloat64Frac0 a OR extractFloat64Frac1 a = 0) = False"
    "(extractFloat64Exp b = 0 \<and> extractFloat64Frac0 b OR extractFloat64Frac1 b = 0) = False"
    using assms(2-5) by (auto simp: finite64_def abs64_0_iff or_word_eq_0)
  have pos: "0 < abs64 a" "0 < abs64 b" using assms(4,5) abs64_nonneg [of a] abs64_nonneg [of b] by simp_all
  note unf = float64_rem_def Let_def unpack64_def [symmetric] ua ub prod.case nf if_False b sg_def [symmetric]
  show ?thesis
  proof (cases "Ea - Eb < - 1")
    case True
    have "float64_rem a b s = Some (a, s)" unfolding unf using True by simp
    moreover have "2 * abs64 a < abs64 b" by (rule rem_small [OF va(5) vb(5) _ _ True]) (use va(1,2) vb(1,2) in simp_all)
    ultimately show ?thesis using pos assms(2) by (intro exI [of _ a] exI [of _ s] exI [of _ "abs64 a"] exI [of _ 0]) simp
  next
    case False
    obtain a0 a1 where a: "shortShift64Left (Sa0 OR 0x00100000) Sa1 (11 - (if Ea - Eb < 0 then 1 else 0)) = (a0, a1)" by fastforce
    define A where "A = val64 (a0, a1)"
    have A: "A = (if Ea - Eb < 0 then ma * 2 ^ 10 else ma * 2 ^ 11)"
      using a val64_shortShift64Left [of "11 - (if Ea - Eb < 0 then 1 else 0)" "Sa0 OR 0x00100000" Sa1] va(1,2) by (auto simp: A_def ma_def)
    then have dA: "2 ^ 10 dvd A" by simp
    have B63: "2 ^ 63 \<le> B" "2 ^ 11 dvd B" using vb(1) by (simp_all add: B)
    define g where "g = (\<lambda>z x y. normalizeRoundAndPackFloat64 (sg \<noteq> z) (Eb - 4) x y s)"
    have "\<exists>w0 w1 r n. float64_rem a b s = Some (g (r < 0) w0 w1) \<and> val64 (w0, w1) = \<bar>r\<bar> \<and>
      A * 2 ^ nat (Ea - Eb) = 256 * r + B * n \<and> 512 * \<bar>r\<bar> \<le> B \<and> (512 * \<bar>r\<bar> = B \<longrightarrow> even n) \<and> 2 ^ 2 dvd r"
      using float64_rem_core [OF B63 [unfolded B_def] dA [unfolded A_def], of "Ea - Eb" g, folded A_def B_def]
      unfolding unf a g_def if_not_P [OF False] .
    then obtain w0 w1 r n where c: "float64_rem a b s = Some (g (r < 0) w0 w1)" "val64 (w0, w1) = \<bar>r\<bar>"
      "A * 2 ^ nat (Ea - Eb) = 256 * r + B * n" "512 * \<bar>r\<bar> \<le> B" "512 * \<bar>r\<bar> = B \<longrightarrow> even n" "2 ^ 2 dvd r"
      by blast
    define R where "R = abs64 a - n * abs64 b"
    define K where "K = nat (- Eb)"
    have ea: "abs64 a * 2 ^ (12 + K) = (256 * r + B * n) * 2 ^ nat Eb"
      unfolding K_def c(3) [symmetric] using rem_exponents [OF va(5), of Eb "A * 2 ^ nat (Ea - Eb)" 10] False A by simp
    have eb: "abs64 b * 2 ^ (12 + K) = B * 2 ^ nat Eb"
      unfolding K_def using rem_exponents [OF vb(5), of Eb "B" 10] by (simp add: B)
    have "R * 2 ^ (12 + K) = abs64 a * 2 ^ (12 + K) - n * (abs64 b * 2 ^ (12 + K))" by (simp add: R_def algebra_simps)
    also have "\<dots> = 256 * (r * 2 ^ nat Eb)" unfolding ea eb by (simp add: algebra_simps)
    finally have eR: "R * 2 ^ (4 + K) = r * 2 ^ nat Eb" by (simp add: power_add)
    then have eR': "\<bar>R\<bar> * 2 ^ (4 + K) = \<bar>r\<bar> * 2 ^ nat Eb" by (metis abs_mult abs_numeral power_abs)
    have eR8: "512 * \<bar>r\<bar> * 2 ^ nat Eb = 2 * \<bar>R\<bar> * 2 ^ (12 + K)" using eR' by (simp add: power_add)
    have le: "2 * \<bar>R\<bar> \<le> abs64 b"
    proof -
      have "512 * \<bar>r\<bar> * 2 ^ nat Eb \<le> B * 2 ^ nat Eb" using c(4) by (rule mult_right_mono) simp
      then have "2 * \<bar>R\<bar> * 2 ^ (12 + K) \<le> abs64 b * 2 ^ (12 + K)" unfolding eR8 eb .
      then show ?thesis by simp
    qed
    have tie: "even n" if "2 * \<bar>R\<bar> = abs64 b"
    proof -
      have "512 * \<bar>r\<bar> * 2 ^ nat Eb = B * 2 ^ nat Eb" unfolding eR8 that eb ..
      then show ?thesis using c(5) by simp
    qed
    have sR: "R < 0 \<longleftrightarrow> r < 0" "R = 0 \<longleftrightarrow> r = 0" using eR by (metis mult_less_0_iff zero_less_numeral zero_less_power linorder_not_less order.asym, metis mult_eq_0_iff power_not_zero zero_neq_numeral)
    obtain r' where r': "r = 2 ^ 2 * r'" using c(6) by blast
    have rb: "\<bar>r\<bar> < 2 ^ 55" using c(4) val64_less [of "(b0, b1)"] by (simp add: B_def)
    then have "\<bar>r'\<bar> < 2 ^ 53" by (simp add: r' abs_mult)
    moreover have "\<bar>R\<bar> * 2 ^ (4 + K) = \<bar>r'\<bar> * 2 ^ (2 + nat Eb)" unfolding eR' r' by (simp add: abs_mult power_add)
    ultimately have fv: "fval 52 (round_mag 52 \<bar>R\<bar> 1) = \<bar>R\<bar>"
      using fval_round_mag_onto [of "\<bar>R\<bar>" "4 + K" "\<bar>r'\<bar>" "2 + nat Eb" 52] by simp
    have M0: "0 \<le> round_mag 52 \<bar>R\<bar> 1" by (rule round_mag_nonneg) simp_all
    have "fval 52 (round_mag 52 \<bar>R\<bar> 1) < abs64 b" unfolding fv using le pos(2) by linarith
    then have "round_mag 52 \<bar>R\<bar> 1 < mag64 b" using M0 float64_ranges(4) [of b] by (simp only: fval_less_iff)
    then have Mi: "round_mag 52 \<bar>R\<bar> 1 < float64_inf" using assms(3) by (simp add: finite64_mag float64_inf_def)
    have bits: "bits_f64 (fst (g (r < 0) w0 w1)) = sign64 (sg \<noteq> (R < 0)) + round_mag 52 \<bar>R\<bar> 1"
    proof (cases "r = 0")
      case True
      have "round_mag 52 0 1 = 0" by (rule round_mag_self) simp_all
      moreover have "w0 = 0" "w1 = 0" using c(2) True by (simp_all add: val64_eq_0)
      ultimately show ?thesis using True sR normalize_zero64 [of "Eb - 4" s sg] vb(3,4) assms(1) by (simp add: g_def)
    next
      case False
      have "\<bar>r\<bar> * (1 * 2 ^ nat (Eb - 4)) = \<bar>R\<bar> * 2 ^ nat (- (Eb - 4))"
      proof -
        have "\<bar>r\<bar> * 2 ^ nat Eb * 2 ^ nat (Eb - 4) = \<bar>R\<bar> * 2 ^ (4 + K + nat (Eb - 4))" unfolding eR' [symmetric] by (simp add: power_add)
        also have "4 + K + nat (Eb - 4) = nat (- (Eb - 4)) + nat Eb" unfolding K_def by linarith
        finally have "(\<bar>r\<bar> * 2 ^ nat (Eb - 4)) * 2 ^ nat Eb = (\<bar>R\<bar> * 2 ^ nat (- (Eb - 4))) * 2 ^ nat Eb" by (simp add: power_add)
        then show ?thesis by simp
      qed
      then have "bits_f64 (fst (g (r < 0) w0 w1)) = sign64 (sg \<noteq> (r < 0)) + round64 \<bar>R\<bar> 1"
        unfolding g_def using False vb(3,4) c(2) by (intro normalizeRoundAndPackFloat64_round [OF assms(1)]) simp_all
      then show ?thesis using Mi by (simp add: round64_def sR)
    qed
    obtain z s' where z: "g (r < 0) w0 w1 = (z, s')" by fastforce
    have "bits_f64 z = sign64 (sg \<noteq> (R < 0)) + round_mag 52 \<bar>R\<bar> 1" using bits z by simp
    then have "mag64 z = round_mag 52 \<bar>R\<bar> 1" "extractFloat64Sign z = (sg \<noteq> (R < 0))"
      using binary64.bits_inject [of z "sg \<noteq> (R < 0)" "round_mag 52 \<bar>R\<bar> 1"] M0 Mi by (simp_all add: float64_inf_def)
    moreover from this have "finite64 z" using Mi by (simp add: finite64_mag float64_inf_def)
    ultimately show ?thesis using c(1) z le tie fv
      by (intro exI [of _ z] exI [of _ s'] exI [of _ R] exI [of _ n]) (simp add: R_def sg_def)
  qed
qed

text \<open>
  C11. The double-precision remainder is the IEEE remainder, exactly: for finite operands and a divisor that is
  not zero \<open>float64_rem\<close> terminates and returns \<open>a - n * b\<close> for an integer \<open>n\<close>, at most half the divisor in
  magnitude and with \<open>n\<close> even when it is half the divisor; a zero has the sign of \<open>a\<close>.  A divisor of zero gives
  the default NaN and the invalid flag.
\<close>

theorem float64_rem_correct:
  assumes "nearest_even s" "finite64 a" "finite64 b"
  shows "if val_f64 b = 0 then float64_rem a b s = Some (float64_invalid s)
    else \<exists>z s' n. float64_rem a b s = Some (z, s') \<and> finite64 z \<and> val_f64 a = n * val_f64 b + val_f64 z \<and>
      2 * \<bar>val_f64 z\<bar> \<le> \<bar>val_f64 b\<bar> \<and> (2 * \<bar>val_f64 z\<bar> = \<bar>val_f64 b\<bar> \<longrightarrow> even n) \<and>
      (val_f64 z = 0 \<longrightarrow> extractFloat64Sign z = extractFloat64Sign a)"
proof (cases "abs64 b = 0")
  case True
  then have "float64_rem a b s = Some (float64_invalid s)"
    using assms(2,3) by (simp add: float64_rem_def abs64_0_iff finite64_def)
  then show ?thesis using True by (simp add: val_f64_def)
next
  case b: False
  then have vb: "val_f64 b \<noteq> 0" by (simp add: val_f64_def)
  show ?thesis
  proof (cases "abs64 a = 0")
    case True
    then have a0: "extractFloat64Exp a = 0 \<and> extractFloat64Frac0 a OR extractFloat64Frac1 a = 0" by (simp add: abs64_0_iff)
    obtain E S0 S1 where u: "unpack64 b = (E, S0, S1)" by (metis prod_cases3)
    have nf: "(extractFloat64Exp a = 0x7FF) = False" "(extractFloat64Exp b = 0x7FF) = False"
      "(extractFloat64Exp b = 0 \<and> extractFloat64Frac0 b OR extractFloat64Frac1 b = 0) = False" using assms(2,3) b
      by (auto simp: finite64_def abs64_0_iff or_word_eq_0)
    have "float64_rem a b s = Some (a, s)"
      unfolding float64_rem_def Let_def unpack64_def [symmetric] nf if_False u prod.case by (simp only: if_P [OF a0])
    moreover have "val_f64 a = 0" using True by (simp add: val_f64_def)
    ultimately show ?thesis using vb assms(2) by (intro if_not_P [THEN iffD2]) (auto intro!: exI [of _ 0])
  next
    case False
    obtain z s' R n where z: "float64_rem a b s = Some (z, s')" "abs64 a = n * abs64 b + R"
      "2 * \<bar>R\<bar> \<le> abs64 b" "2 * \<bar>R\<bar> = abs64 b \<longrightarrow> even n" "finite64 z" "abs64 z = \<bar>R\<bar>"
      "extractFloat64Sign z = (extractFloat64Sign a \<noteq> (R < 0))"
      using float64_rem_nonzero [OF assms False b] by blast
    define n' where "n' = (if extractFloat64Sign a = extractFloat64Sign b then n else - n)"
    have v: "val_f64 a = n' * val_f64 b + val_f64 z" using z(2,6,7) by (auto simp: val_f64_def n'_def)
    have abs: "\<bar>val_f64 z\<bar> = \<bar>R\<bar>" "\<bar>val_f64 b\<bar> = abs64 b" using z(6) by (simp_all flip: abs64_val)
    have sz: "val_f64 z = 0 \<longrightarrow> extractFloat64Sign z = extractFloat64Sign a" using z(6,7) by (auto simp: val_f64_def split: if_splits)
    have "2 * \<bar>val_f64 z\<bar> = \<bar>val_f64 b\<bar> \<longrightarrow> even n'" using z(4) unfolding abs n'_def by simp
    then show ?thesis unfolding if_not_P [OF vb]
      by (intro exI [of _ z] exI [of _ s'] exI [of _ n'] conjI z(1,5) v sz) (unfold abs, rule z(3))
  qed
qed

theorem float64_rem_correct_witness:
  "(\<exists>z s' n. float64_rem \<lparr>low = 0, high = 0x401C0000\<rparr> \<lparr>low = 0, high = 0x40000000\<rparr> fp_init = Some (z, s') \<and>
      val_f64 \<lparr>low = 0, high = 0x401C0000\<rparr> = n * val_f64 \<lparr>low = 0, high = 0x40000000\<rparr> + val_f64 z \<and>
      2 * \<bar>val_f64 z\<bar> \<le> \<bar>val_f64 \<lparr>low = 0, high = 0x40000000\<rparr>\<bar>) \<and>
   map_option fst (float64_rem \<lparr>low = 0, high = 0x401C0000\<rparr> \<lparr>low = 0, high = 0x40000000\<rparr> fp_init) = Some \<lparr>low = 0, high = 0xBFF00000\<rparr>"
proof -
  have "nearest_even fp_init" "finite64 \<lparr>low = 0, high = 0x401C0000\<rparr>" "finite64 \<lparr>low = 0, high = 0x40000000\<rparr>" by code_simp+
  moreover have "val_f64 \<lparr>low = 0, high = 0x40000000\<rparr> \<noteq> 0"
    by (simp add: val_f64_def abs64_0_iff) code_simp
  moreover have "map_option fst (float64_rem \<lparr>low = 0, high = 0x401C0000\<rparr> \<lparr>low = 0, high = 0x40000000\<rparr> fp_init) = Some \<lparr>low = 0, high = 0xBFF00000\<rparr>" by code_simp
  ultimately show ?thesis using float64_rem_correct [of fp_init "\<lparr>low = 0, high = 0x401C0000\<rparr>" "\<lparr>low = 0, high = 0x40000000\<rparr>"] by auto
qed

end
