(* ===== verification/Pthread_TCE.thy ===== *)
theory Pthread_TCE
  imports C_Prelude "HOL-Library.Monad_Syntax"
begin

text \<open>
  The threads of \<open>newlib/libc/sys/tce/pthread_tce.c\<close>: a round-robin scheduler over a doubly linked
  list of thread structures, a list of dead threads that the scheduler frees, and the lock that
  keeps the scheduler out of the list operations.

  Pointers to \<open>ThreadInfo\<close> are addresses of an explicit store, \<open>0\<close> being \<open>NULL\<close>; the static structure
  \<open>mainThread\<close> has an address of its own.  An operation returns \<open>None\<close> when it dereferences \<open>NULL\<close> or a
  freed structure, and when it spins on a lock that nobody can release.  What \<open>malloc\<close> returned is an
  argument of \<open>addThreadInfo\<close>, \<open>0\<close> when it failed.
\<close>

section \<open>Data\<close>

type_synonym ptr = nat

abbreviation NULL :: ptr where "NULL \<equiv> 0"

definition mainThread :: ptr where "mainThread = 1"

definition STACK_SIZE :: nat where "STACK_SIZE = 4096"

text \<open>The words a stack can hold: addresses of structures, of stack slots and of functions, and data.\<close>

datatype void_ptr = Null_Ptr | Thread_Ptr ptr | Stack_Ptr ptr nat | Routine nat | RemoveActiveThread | Data nat

record ThreadInfo =
  prev :: ptr
  "next" :: ptr
  dead_next :: ptr
  sp :: void_ptr
  stack :: "nat \<rightharpoonup> void_ptr"

record ThreadingData =
  thread_lock :: int
  threads :: "ptr \<rightharpoonup> ThreadInfo"
  firstThread :: ptr
  lastThread :: ptr
  currentThread :: ptr
  deadThreads :: ptr

definition threadInternals :: ThreadingData where
  "threadInternals = \<lparr>thread_lock = 0,
     threads = [mainThread \<mapsto> \<lparr>prev = NULL, next = NULL, dead_next = NULL, sp = Null_Ptr, stack = Map.empty\<rparr>],
     firstThread = mainThread, lastThread = mainThread, currentThread = mainThread, deadThreads = NULL\<rparr>"

definition deref :: "ptr \<Rightarrow> ThreadingData \<Rightarrow> ThreadInfo option" where
  "deref p s = (if p = NULL then None else threads s p)"

definition assign :: "ptr \<Rightarrow> (ThreadInfo \<Rightarrow> ThreadInfo) \<Rightarrow> ThreadingData \<Rightarrow> ThreadingData option" where
  "assign p f s = do { t \<leftarrow> deref p s; Some (s\<lparr>threads := (threads s)(p \<mapsto> f t)\<rparr>) }"

section \<open>Locks\<close>

definition testandset :: "int \<Rightarrow> int \<times> int" where
  "testandset lockVar = (let retVal = (if lockVar \<noteq> 0 then 1 else 0) in (retVal, 1))"

definition releaselock :: "int \<Rightarrow> int" where
  "releaselock lockVar = 0"

partial_function (option) WAIT_LOCK :: "ThreadingData \<Rightarrow> ThreadingData option" where
  "WAIT_LOCK s =
     (let (r, l) = testandset (thread_lock s); s = s\<lparr>thread_lock := l\<rparr>
      in if r \<noteq> 0 then WAIT_LOCK s else Some s)"

definition RELEASE_LOCK :: "ThreadingData \<Rightarrow> ThreadingData" where
  "RELEASE_LOCK s = s\<lparr>thread_lock := releaselock (thread_lock s)\<rparr>"

section \<open>The list of threads\<close>

partial_function (option) isThreadInfoActive_loop :: "ptr \<Rightarrow> ptr \<Rightarrow> ThreadingData \<Rightarrow> int option" where
  "isThreadInfoActive_loop infoToFind currInfo s =
     (if currInfo \<noteq> NULL
      then if currInfo = infoToFind then Some 1
           else do { t \<leftarrow> deref currInfo s; isThreadInfoActive_loop infoToFind (next t) s }
      else Some 0)"

definition isThreadInfoActive :: "ptr \<Rightarrow> ThreadingData \<Rightarrow> int option" where
  "isThreadInfoActive infoToFind s =
     do { m \<leftarrow> deref mainThread s; isThreadInfoActive_loop infoToFind (next m) s }"

definition removeThreadInfo :: "ptr \<Rightarrow> ThreadingData \<Rightarrow> ThreadingData option" where
  "removeThreadInfo threadToKill s = do {
     s \<leftarrow> WAIT_LOCK s;
     k \<leftarrow> deref threadToKill s;
     s \<leftarrow> assign (prev k) (\<lambda>t. t\<lparr>next := next k\<rparr>) s;
     k \<leftarrow> deref threadToKill s;
     s \<leftarrow> (if next k \<noteq> NULL then assign (next k) (\<lambda>t. t\<lparr>prev := prev k\<rparr>) s
          else Some (s\<lparr>lastThread := prev k\<rparr>));
     s \<leftarrow> assign threadToKill (\<lambda>t. t\<lparr>dead_next := deadThreads s\<rparr>) s;
     Some (RELEASE_LOCK (s\<lparr>deadThreads := threadToKill\<rparr>)) }"

definition removeActiveThread :: "ThreadingData \<Rightarrow> ThreadingData option" where
  "removeActiveThread s = removeThreadInfo (currentThread s) s"

definition initial_stack :: "ptr \<Rightarrow> void_ptr \<Rightarrow> void_ptr \<Rightarrow> nat \<rightharpoonup> void_ptr" where
  "initial_stack newThread start_routine arg =
     [STACK_SIZE - 5 \<mapsto> Stack_Ptr newThread (STACK_SIZE - 5),
      STACK_SIZE - 4 \<mapsto> start_routine,
      STACK_SIZE - 3 \<mapsto> arg,
      STACK_SIZE - 2 \<mapsto> RemoveActiveThread,
      STACK_SIZE - 1 \<mapsto> Thread_Ptr newThread]"

text \<open>\<open>newThread\<close> is the result of \<open>malloc\<close>.\<close>

definition addThreadInfo ::
  "ptr \<Rightarrow> ptr \<Rightarrow> void_ptr \<Rightarrow> void_ptr \<Rightarrow> ThreadingData \<Rightarrow> (ptr \<times> ThreadingData) option" where
  "addThreadInfo newThread lastThread' start_routine arg s = do {
     s \<leftarrow> WAIT_LOCK s;
     s \<leftarrow> (if newThread \<noteq> NULL
          then do {
            s \<leftarrow> (if lastThread' \<noteq> NULL then assign lastThread' (\<lambda>t. t\<lparr>next := newThread\<rparr>) s else Some s);
            Some (s\<lparr>threads := (threads s)(newThread \<mapsto>
                     \<lparr>prev = lastThread', next = NULL, dead_next = NULL, sp = Stack_Ptr newThread (STACK_SIZE - 5),
                      stack = initial_stack newThread start_routine arg\<rparr>)\<rparr>) }
          else Some s);
     Some (newThread, RELEASE_LOCK s) }"

partial_function (option) freeDeadThreads :: "ThreadingData \<Rightarrow> ThreadingData option" where
  "freeDeadThreads s =
     (if deadThreads s \<noteq> NULL \<and> deadThreads s \<noteq> currentThread s
      then do {
        t \<leftarrow> deref (deadThreads s) s;
        freeDeadThreads (s\<lparr>deadThreads := dead_next t, threads := (threads s)(deadThreads s := None)\<rparr>) }
      else Some s)"

definition schedule_next_thread :: "void_ptr \<Rightarrow> ThreadingData \<Rightarrow> (void_ptr \<times> ThreadingData) option" where
  "schedule_next_thread sp' s =
     (let (r, l) = testandset (thread_lock s); s = s\<lparr>thread_lock := l\<rparr>
      in if r = 0
         then do {
           s \<leftarrow> assign (currentThread s) (\<lambda>t. t\<lparr>sp := sp'\<rparr>) s;
           t \<leftarrow> deref (currentThread s) s;
           s \<leftarrow> Some (s\<lparr>currentThread := next t\<rparr>);
           s \<leftarrow> (if currentThread s = NULL then freeDeadThreads (s\<lparr>currentThread := firstThread s\<rparr>) else Some s);
           t \<leftarrow> deref (currentThread s) s;
           Some (sp t, RELEASE_LOCK s) }
         else Some (sp', s))"

section \<open>The programming interface\<close>

definition pthread_create ::
  "ptr \<Rightarrow> void_ptr \<Rightarrow> void_ptr \<Rightarrow> ThreadingData \<Rightarrow> (int \<times> ptr \<times> ThreadingData) option" where
  "pthread_create allocated start_routine arg s = do {
     (pthread, s) \<leftarrow> addThreadInfo allocated (lastThread s) start_routine arg s;
     s \<leftarrow> Some (s\<lparr>lastThread := pthread\<rparr>);
     Some (if pthread = NULL then 1 else 0, pthread, s) }"

text \<open>
  \<open>pthread_join\<close> calls \<open>isThreadInfoActive\<close> until it returns 0.  The traversal takes no lock, so other threads run
  between its reads of the list: \<open>join_step\<close> goes from one such read to the next, \<open>Call\<close> being the entry of
  \<open>isThreadInfoActive\<close> and \<open>Visit\<close> the head of its loop with the value of \<open>currInfo\<close>; \<open>return 1\<close> leads back to \<open>Call\<close>.
  \<open>pthread_join\<close> makes its steps in the states it is given, one after the other.
\<close>

datatype join_pc = Call | Visit ptr | Returned

fun join_step :: "ptr \<Rightarrow> join_pc \<Rightarrow> ThreadingData \<Rightarrow> join_pc option" where
  "join_step pthread Call s = do { m \<leftarrow> deref mainThread s; Some (Visit (next m)) }"
| "join_step pthread (Visit currInfo) s =
     (if currInfo \<noteq> NULL
      then if currInfo = pthread then Some Call
           else do { t \<leftarrow> deref currInfo s; Some (Visit (next t)) }
      else Some Returned)"
| "join_step pthread Returned s = Some Returned"

fun pthread_join :: "ptr \<Rightarrow> join_pc \<Rightarrow> ThreadingData list \<Rightarrow> join_pc option" where
  "pthread_join pthread pc [] = Some pc"
| "pthread_join pthread pc (s # ss) = do { pc \<leftarrow> join_step pthread pc s; pthread_join pthread pc ss }"

datatype exit_outcome = Exit int | Removed ThreadingData

definition pthread_exit :: "ThreadingData \<Rightarrow> exit_outcome option" where
  "pthread_exit s =
     (if currentThread s = mainThread then Some (Exit 0)
      else do { s \<leftarrow> removeThreadInfo (currentThread s) s; Some (Removed s) })"

section \<open>Locks: lemmas\<close>

lemma WAIT_LOCK_free [simp]: "thread_lock s = 0 \<Longrightarrow> WAIT_LOCK s = Some (s\<lparr>thread_lock := 1\<rparr>)"
  by (subst WAIT_LOCK.simps) (simp add: testandset_def)

lemma WAIT_LOCK_Some_free: "WAIT_LOCK s = Some s' \<Longrightarrow> thread_lock s = 0"
proof (rule WAIT_LOCK.raw_induct [of "\<lambda>s s'. thread_lock s = 0" s s'])
  fix W t t'
  assume IH: "\<And>t t'. W t = Some t' \<Longrightarrow> thread_lock t = 0"
    and "(let (r, l) = testandset (thread_lock t); t = t\<lparr>thread_lock := l\<rparr> in if r \<noteq> 0 then W t else Some t) = Some t'"
  then show "thread_lock t = 0" by (auto simp: testandset_def split: if_splits dest: IH)
qed

lemma WAIT_LOCK_held [simp]: "thread_lock s \<noteq> 0 \<Longrightarrow> WAIT_LOCK s = None"
  using WAIT_LOCK_Some_free [of s] by (cases "WAIT_LOCK s") auto

end
