(* ===== verification/Pthread_Scheduler.thy ===== *)
theory Pthread_Scheduler
  imports Pthread_TCE
begin

text \<open>
  Correctness of the threads of \<open>pthread_tce.c\<close>.  The doubly linked list of live threads and the chain of
  dead ones represent a state of an abstract round-robin scheduler (\<open>implements\<close>); every operation
  simulates the abstract one.  The locale \<open>scheduler\<close> is what a fair scheduler is proved from,
  interpreted on \<open>__tce_schedule_next_thread\<close>.  The reachable states are given by the inductive
  predicate \<open>thread_state\<close>.
\<close>

section \<open>Linked lists in the store\<close>

definition links :: "(ptr \<rightharpoonup> ThreadInfo) \<Rightarrow> ptr \<rightharpoonup> ptr \<times> ptr" where
  "links h x = map_option (\<lambda>t. (prev t, next t)) (h x)"

definition dead_links :: "(ptr \<rightharpoonup> ThreadInfo) \<Rightarrow> ptr \<rightharpoonup> ptr" where
  "dead_links h x = map_option dead_next (h x)"

lemma links_upd [simp]: "links (h(x \<mapsto> t)) = (links h)(x \<mapsto> (prev t, next t))" "links (h(x := None)) = (links h)(x := None)"
  by (auto simp: links_def)

lemma dead_links_upd [simp]:
  "dead_links (h(x \<mapsto> t)) = (dead_links h)(x \<mapsto> dead_next t)" "dead_links (h(x := None)) = (dead_links h)(x := None)"
  by (auto simp: dead_links_def)

text \<open>A doubly linked segment from the predecessor \<open>p\<close> of its first to the successor \<open>n\<close> of its last element.\<close>

fun dseg :: "(ptr \<rightharpoonup> ptr \<times> ptr) \<Rightarrow> ptr \<Rightarrow> ptr list \<Rightarrow> ptr \<Rightarrow> bool" where
  "dseg L p [] n = True"
| "dseg L p (x # xs) n = (x \<noteq> NULL \<and> L x = Some (p, if xs = [] then n else hd xs) \<and> dseg L x xs n)"

fun dead_chain :: "(ptr \<rightharpoonup> ptr) \<Rightarrow> ptr \<Rightarrow> ptr list \<Rightarrow> bool" where
  "dead_chain D x [] = (x = NULL)"
| "dead_chain D x (y # ys) = (x = y \<and> y \<noteq> NULL \<and> (case D y of None \<Rightarrow> False | Some z \<Rightarrow> dead_chain D z ys))"

lemma dseg_append:
  "dseg L p (xs @ ys) n \<longleftrightarrow>
     dseg L p xs (if ys = [] then n else hd ys) \<and> dseg L (if xs = [] then p else last xs) ys n"
  by (induction xs arbitrary: p) auto

lemma dseg_upd [simp]: "x \<notin> set xs \<Longrightarrow> dseg (L(x := v)) p xs n = dseg L p xs n"
  by (induction xs arbitrary: p) auto

lemma dead_chain_upd [simp]: "x \<notin> set ys \<Longrightarrow> dead_chain (D(x := v)) z ys = dead_chain D z ys"
  by (induction ys arbitrary: z) (auto split: option.splits)

lemma dseg_nonnull: "dseg L p xs n \<Longrightarrow> NULL \<notin> set xs"
  by (induction xs arbitrary: p) auto

lemma dseg_next:
  assumes "dseg L p (xs @ x # ys) n"
  shows "L x = Some (if xs = [] then p else last xs, if ys = [] then n else hd ys)"
  using assms by (simp add: dseg_append)

lemma dseg_snoc:
  assumes "dseg L p (xs @ [l]) NULL" "distinct (xs @ [l])" "m \<notin> set (xs @ [l])" "m \<noteq> NULL" "L l = Some (q, r)"
  shows "dseg (L(l \<mapsto> (q, m), m \<mapsto> (l, NULL))) p (xs @ [l, m]) NULL"
  using assms by (auto simp: dseg_append)

lemma dseg_remove:
  assumes "dseg L p (xs @ [a] @ [x] @ ys) NULL" "distinct (xs @ [a] @ [x] @ ys)" "L a = Some (pa, na)"
  shows "ys = [] \<Longrightarrow> dseg (L(a \<mapsto> (pa, NULL))) p (xs @ [a]) NULL"
    "ys = y # zs \<Longrightarrow> L y = Some (py, ny) \<Longrightarrow> dseg (L(a \<mapsto> (pa, y), y \<mapsto> (a, ny))) p (xs @ [a] @ ys) NULL"
  using assms by (auto simp: dseg_append)

section \<open>The round-robin scheduler as a specification\<close>

text \<open>
  The live threads in the order they run, the threads that have exited and are not yet freed, the
  running thread, and, when the running thread has exited, the thread that runs after it.
\<close>

record round_robin =
  live :: "ptr list"
  dead :: "ptr list"
  current :: ptr
  after :: ptr

definition follower :: "ptr list \<Rightarrow> ptr \<Rightarrow> ptr" where
  "follower xs x = (case dropWhile (\<lambda>y. y \<noteq> x) xs of _ # y # _ \<Rightarrow> y | _ \<Rightarrow> NULL)"

lemma follower_split: "x \<notin> set xs \<Longrightarrow> follower (xs @ x # ys) x = (if ys = [] then NULL else hd ys)"
proof -
  assume "x \<notin> set xs"
  then have "dropWhile (\<lambda>y. y \<noteq> x) (xs @ x # ys) = x # ys" by (induction xs) auto
  then show ?thesis by (cases ys) (simp_all add: follower_def)
qed

definition rr_create :: "ptr \<Rightarrow> round_robin \<Rightarrow> round_robin" where
  "rr_create m a = a\<lparr>live := live a @ [m]\<rparr>"

definition rr_exit :: "round_robin \<Rightarrow> round_robin" where
  "rr_exit a = a\<lparr>live := remove1 (current a) (live a), dead := current a # dead a,
     after := follower (live a) (current a)\<rparr>"

definition rr_schedule :: "round_robin \<Rightarrow> round_robin" where
  "rr_schedule a =
     (let n = (if current a \<in> set (live a) then follower (live a) (current a) else after a)
      in if n = NULL then a\<lparr>current := hd (live a), dead := []\<rparr> else a\<lparr>current := n\<rparr>)"

definition implements :: "ThreadingData \<Rightarrow> round_robin \<Rightarrow> bool" where
  "implements s a \<longleftrightarrow>
     thread_lock s = 0 \<and> firstThread s = mainThread \<and> lastThread s = last (live a) \<and> currentThread s = current a \<and>
     live a \<noteq> [] \<and> hd (live a) = mainThread \<and> distinct (live a @ dead a) \<and>
     dom (threads s) = set (live a) \<union> set (dead a) \<and>
     dseg (links (threads s)) NULL (live a) NULL \<and> dead_chain (dead_links (threads s)) (deadThreads s) (dead a) \<and>
     (current a \<in> set (live a) \<or>
      dead a \<noteq> [] \<and> current a = hd (dead a) \<and> map_option snd (links (threads s) (current a)) = Some (after a) \<and>
      (after a = NULL \<or> after a \<in> set (live a)))"

lemma implementsD:
  assumes "implements s a"
  shows "thread_lock s = 0" "firstThread s = mainThread" "lastThread s = last (live a)" "currentThread s = current a"
    "live a \<noteq> []" "hd (live a) = mainThread" "distinct (live a)" "distinct (dead a)" "set (live a) \<inter> set (dead a) = {}"
    "dom (threads s) = set (live a) \<union> set (dead a)"
    "dseg (links (threads s)) NULL (live a) NULL" "dead_chain (dead_links (threads s)) (deadThreads s) (dead a)"
    "NULL \<notin> set (live a)"
  using assms dseg_nonnull by (auto simp: implements_def)

lemma implements_init: "implements threadInternals \<lparr>live = [mainThread], dead = [], current = mainThread, after = NULL\<rparr>"
  by (simp add: implements_def threadInternals_def links_def mainThread_def)

section \<open>The operations implement the specification\<close>

lemma implements_thread:
  assumes "implements s a" "x \<in> set (live a) \<union> set (dead a)"
  obtains t where "threads s x = Some t" "deref x s = Some t"
proof -
  have "0 \<notin> set (dead a)"
  proof -
    have "dead_chain D z ys \<Longrightarrow> 0 \<notin> set ys" for D z ys by (induction ys arbitrary: z) (auto split: option.splits)
    then show ?thesis using implementsD(12) [OF assms(1)] by blast
  qed
  then have "x \<noteq> NULL" using assms(2) implementsD(13) [OF assms(1)] by (metis UnE)
  moreover obtain t where "threads s x = Some t" using assms(2) implementsD(10) [OF assms(1)] by blast
  ultimately show ?thesis using that by (simp add: deref_def)
qed

lemma deref_simps [simp]: "deref NULL s = None" "deref p (s\<lparr>thread_lock := l\<rparr>) = deref p s"
  "deref p (s\<lparr>lastThread := q\<rparr>) = deref p s" "deref p (s\<lparr>deadThreads := q\<rparr>) = deref p s"
  "deref p (s\<lparr>currentThread := q\<rparr>) = deref p s"
  "deref p (s\<lparr>threads := h\<rparr>) = (if p = NULL then None else h p)"
  by (simp_all add: deref_def)

lemma pthread_create_implements:
  assumes "implements s a" "m \<noteq> NULL" "m \<notin> dom (threads s)"
  obtains s' where "pthread_create m f x s = Some (0, m, s')" "implements s' (rr_create m a)"
    "threads s' m = Some \<lparr>prev = lastThread s, next = NULL, dead_next = NULL, sp = Stack_Ptr m (STACK_SIZE - 5),
       stack = initial_stack m f x\<rparr>"
proof -
  note I = implementsD [OF assms(1)]
  define l where "l = last (live a)"
  obtain xs where live: "live a = xs @ [l]" unfolding l_def using I(5) by (metis append_butlast_last_id)
  obtain t where t: "threads s l = Some t" "deref l s = Some t"
    by (rule implements_thread [OF assms(1), of l]) (simp_all add: live)
  have l: "l \<noteq> NULL" using I(13) live by auto
  define new where "new = \<lparr>prev = l, next = NULL, dead_next = NULL, sp = Stack_Ptr m (STACK_SIZE - 5), stack = initial_stack m f x\<rparr>"
  define s' where "s' = s\<lparr>thread_lock := 0, threads := (threads s)(l \<mapsto> t\<lparr>next := m\<rparr>, m \<mapsto> new), lastThread := m\<rparr>"
  have last: "lastThread s = l" using I(3) live by simp
  have "pthread_create m f x s = Some (0, m, s')"
    using I(1) last assms(2) l t
    by (simp add: pthread_create_def addThreadInfo_def assign_def RELEASE_LOCK_def releaselock_def s'_def new_def)
  moreover have "implements s' (rr_create m a)"
  proof -
    have fresh: "m \<notin> set (live a)" "m \<notin> set (dead a)" using assms(3) I(10) by auto
    have lm: "l \<noteq> m" using fresh live by auto
    have ll: "l \<notin> set (dead a)" using I(9) live by auto
    have seg: "dseg (links (threads s')) NULL (live a @ [m]) NULL"
      using dseg_snoc [of "links (threads s)" NULL xs l m "prev t" "next t"] I(7,11) fresh assms(2) t
      by (simp add: live s'_def new_def links_def [of _ l])
    have chain: "dead_chain (dead_links (threads s')) (deadThreads s') (dead a)"
      using I(12) fresh ll by (simp add: s'_def)
    have dom: "dom (threads s') = insert m (set (live a) \<union> set (dead a))" using I(10) live by (auto simp: s'_def)
    have cur: "current a \<in> set (live a @ [m]) \<or> dead a \<noteq> [] \<and> current a = hd (dead a) \<and>
      map_option snd (links (threads s') (current a)) = Some (after a) \<and> (after a = NULL \<or> after a \<in> set (live a @ [m]))"
    proof (cases "current a \<in> set (live a)")
      case False
      then have c: "dead a \<noteq> []" "current a = hd (dead a)" "map_option snd (links (threads s) (current a)) = Some (after a)"
        "after a = NULL \<or> after a \<in> set (live a)" using assms(1) by (auto simp: implements_def)
      then have "current a \<noteq> l" "current a \<noteq> m" using ll fresh(2) hd_in_set [OF c(1)] by auto
      then show ?thesis using c by (auto simp: s'_def)
    qed simp
    have "set (live a @ [m]) \<inter> set (dead a) = {}" using I(9) fresh by auto
    then show ?thesis using I fresh seg chain dom cur unfolding implements_def rr_create_def
      by (simp add: hd_append, simp add: s'_def)
  qed
  moreover have "threads s' m = Some new" by (simp add: s'_def)
  ultimately show ?thesis using that last unfolding new_def by blast
qed

lemma removeThreadInfo_implements:
  assumes "implements s a" "current a \<in> set (live a)" "current a \<noteq> mainThread"
  obtains s' where "removeThreadInfo (currentThread s) s = Some s'" "implements s' (rr_exit a)"
proof -
  note I = implementsD [OF assms(1)]
  define t where "t = current a"
  obtain us ys where "live a = us @ t # ys" using assms(2) split_list unfolding t_def by metis
  moreover have "us \<noteq> []" using calculation I(6) assms(3) by (auto simp: t_def)
  ultimately obtain xs b where live: "live a = xs @ [b] @ [t] @ ys" by (metis append_Cons append_Nil append_assoc rev_exhaust)
  have mem: "b \<in> set (live a)" "t \<in> set (live a)" using live by auto
  have nn: "b \<noteq> NULL" "t \<noteq> NULL" "b \<noteq> t" using I(7,13) live by auto
  obtain kb where kb: "threads s b = Some kb" by (rule implements_thread [OF assms(1), of b]) (use mem in auto)
  obtain kt where kt: "threads s t = Some kt" by (rule implements_thread [OF assms(1), of t]) (use mem in auto)
  have "links (threads s) t = Some (b, if ys = [] then NULL else hd ys)"
    using dseg_next [of _ _ "xs @ [b]" t ys] I(11) unfolding live by simp
  then have kt': "prev kt = b" "next kt = (if ys = [] then NULL else hd ys)" using kt by (simp_all add: links_def)
  have disj: "b \<notin> set (dead a)" "t \<notin> set (dead a)" using I(9) live by auto
  have rem: "remove1 t (live a) = xs @ [b] @ ys" "follower (live a) t = (if ys = [] then NULL else hd ys)"
    using I(7) follower_split [of t "xs @ [b]" ys] unfolding live by (auto simp: remove1_append)
  define h where "h = (if ys = [] then (threads s)(b \<mapsto> kb\<lparr>next := NULL\<rparr>)
    else (threads s)(b \<mapsto> kb\<lparr>next := hd ys\<rparr>, hd ys \<mapsto> (the (threads s (hd ys)))\<lparr>prev := b\<rparr>))"
  define s' where "s' = s\<lparr>thread_lock := 0, threads := h(t \<mapsto> kt\<lparr>dead_next := deadThreads s\<rparr>),
    lastThread := (if ys = [] then b else lastThread s), deadThreads := t\<rparr>"
  have y: "hd ys \<in> set (live a)" "hd ys \<noteq> NULL" "hd ys \<noteq> t" "hd ys \<noteq> b" "hd ys \<notin> set (dead a)"
    "\<exists>k. threads s (hd ys) = Some k" if "ys \<noteq> []"
  proof -
    show m: "hd ys \<in> set (live a)" using that live by simp
    show "hd ys \<noteq> NULL" using m I(13) by metis
    show "hd ys \<noteq> t" "hd ys \<noteq> b" using I(7) that unfolding live by (auto dest: hd_in_set)
    show "hd ys \<notin> set (dead a)" using m I(9) by auto
    show "\<exists>k. threads s (hd ys) = Some k" using m I(10) by blast
  qed
  have d: "deref t s = Some kt" "deref b s = Some kb" using kt kb nn by (simp_all add: deref_def)
  have "removeThreadInfo t s = Some s'"
    using I(1) kb kt kt' nn y d
    by (cases "ys = []") (auto simp: removeThreadInfo_def assign_def RELEASE_LOCK_def releaselock_def s'_def h_def)
  moreover have "implements s' (rr_exit a)"
  proof -
    have seg: "dseg (links (threads s')) NULL (xs @ [b] @ ys) NULL"
    proof (cases ys)
      case Nil
      then show ?thesis
        using dseg_remove(1) [of "links (threads s)" NULL xs b t ys "prev kb" "next kb"] I(7,11) kb
        unfolding live by (simp add: s'_def h_def links_def [of _ b])
    next
      case (Cons z zs)
      then obtain kz where "threads s z = Some kz" using y(6) by auto
      then show ?thesis
        using dseg_remove(2) [of "links (threads s)" NULL xs b t ys "prev kb" "next kb" z zs "prev kz" "next kz"] I(7,11) kb Cons
        unfolding live by (simp add: s'_def h_def links_def [of _ b] links_def [of _ z])
    qed
    have chain: "dead_chain (dead_links (threads s')) t (t # dead a)"
      using I(12) disj nn y(5) by (auto simp: s'_def h_def)
    have dom: "dom (threads s') = set (live a) \<union> set (dead a)"
      using I(10) mem y(1) by (auto simp: s'_def h_def)
    have nxt: "map_option snd (links (threads s') t) = Some (if ys = [] then NULL else hd ys)" using kt' by (simp add: s'_def)
    have last: "lastThread s' = last (xs @ [b] @ ys)" using I(3) live by (simp add: s'_def)
    have hd': "hd (xs @ [b] @ ys) = mainThread" using I(6) unfolding live by (cases xs) auto
    have dist: "distinct ((xs @ [b] @ ys) @ t # dead a)" using I(7,8,9) disj unfolding live by auto
    show ?thesis
      unfolding implements_def rr_exit_def t_def [symmetric] rem
      using seg chain dom nxt last hd' dist I(2,4) live
      by (simp add: s'_def t_def) (auto simp: t_def dest: hd_in_set)
  qed
  ultimately show ?thesis using that I(4) t_def by simp
qed

lemma freeDeadThreads_all:
  assumes "dead_chain (dead_links (threads s)) (deadThreads s) ds" "distinct ds" "currentThread s \<notin> set ds"
  shows "freeDeadThreads s = Some (s\<lparr>deadThreads := NULL, threads := (threads s) |` (- set ds)\<rparr>)"
  using assms
proof (induction ds arbitrary: s)
  case Nil
  then show ?case by (subst freeDeadThreads.simps) (cases s, simp add: restrict_map_def)
next
  case (Cons d ds)
  then obtain z where d: "deadThreads s = d" "d \<noteq> NULL" "dead_links (threads s) d = Some z" "dead_chain (dead_links (threads s)) z ds"
    by (auto split: option.splits)
  then obtain t where t: "threads s d = Some t" "dead_next t = z" by (auto simp: dead_links_def)
  define s' where "s' = s\<lparr>deadThreads := z, threads := (threads s)(d := None)\<rparr>"
  have "freeDeadThreads s = freeDeadThreads s'"
    using d t Cons.prems by (subst freeDeadThreads.simps) (simp add: deref_def s'_def)
  also have "\<dots> = Some (s'\<lparr>deadThreads := NULL, threads := (threads s') |` (- set ds)\<rparr>)"
  proof (rule Cons.IH)
    have "threads s' = (threads s)(d := None)" by (simp add: s'_def)
    then have "dead_links (threads s') = (dead_links (threads s))(d := None)" by (simp only: dead_links_upd)
    then show "dead_chain (dead_links (threads s')) (deadThreads s') ds" using d(4) Cons.prems(2) by (simp add: s'_def)
  qed (use Cons.prems in \<open>simp_all add: s'_def\<close>)
  also have "\<dots> = Some (s\<lparr>deadThreads := NULL, threads := (threads s) |` (- set (d # ds))\<rparr>)"
    by (auto simp: s'_def restrict_map_def fun_eq_iff)
  finally show ?case .
qed

lemma schedule_next_thread_implements:
  assumes "implements s a"
  obtains v' s' where "schedule_next_thread v s = Some (v', s')" "implements s' (rr_schedule a)"
    "\<And>x. x \<in> set (live a) \<Longrightarrow> map_option sp (threads s' x) = (if x = current a then Some v else map_option sp (threads s x))"
    "map_option sp (threads s' (currentThread s')) = Some v'"
proof -
  note I = implementsD [OF assms]
  have cm: "current a \<in> set (live a) \<union> set (dead a)" using assms by (auto simp: implements_def)
  obtain t where t: "threads s (current a) = Some t" "deref (current a) s = Some t"
    by (rule implements_thread [OF assms cm])
  then have c0: "current a \<noteq> NULL" by (auto simp: deref_def split: if_splits)
  define n where "n = (if current a \<in> set (live a) then follower (live a) (current a) else after a)"
  have n: "next t = n" "n = NULL \<or> n \<in> set (live a)"
  proof -
    have "next t = n \<and> (n = NULL \<or> n \<in> set (live a))"
    proof (cases "current a \<in> set (live a)")
      case True
      then obtain us ys where live: "live a = us @ current a # ys" by (metis split_list)
      have "current a \<notin> set us" using I(7) live by auto
      then have "n = (if ys = [] then NULL else hd ys)" using True follower_split [of _ us ys] live by (metis n_def)
      moreover have "snd (the (links (threads s) (current a))) = (if ys = [] then NULL else hd ys)"
        using dseg_next [OF I(11) [unfolded live]] by simp
      ultimately show ?thesis using t live by (auto simp: links_def)
    next
      case False
      then show ?thesis using assms t by (auto simp: implements_def n_def links_def)
    qed
    then show "next t = n" "n = NULL \<or> n \<in> set (live a)" by simp_all
  qed
  define h where "h = (threads s)(current a \<mapsto> t\<lparr>sp := v\<rparr>)"
  have hl: "links h = links (threads s)" "dead_links h = dead_links (threads s)" "dom h = dom (threads s)"
    using t by (auto simp: h_def links_def dead_links_def fun_eq_iff)
  show ?thesis
  proof (cases "n = NULL")
    case False
    define s' where "s' = s\<lparr>threads := h, currentThread := n, thread_lock := 0\<rparr>"
    have nl: "n \<in> set (live a)" using n False by blast
    obtain tn where tn: "h n = Some tn" using nl I(10) hl(3) by blast
    have "schedule_next_thread v s = Some (sp tn, s')"
      using I(1,4) t n(1) False tn c0
      by (simp add: schedule_next_thread_def testandset_def assign_def RELEASE_LOCK_def releaselock_def s'_def h_def)
    moreover have "implements s' (rr_schedule a)"
      using assms False nl unfolding implements_def rr_schedule_def n_def [symmetric] s'_def by (simp add: hl)
    moreover have "map_option sp (threads s' x) = (if x = current a then Some v else map_option sp (threads s x))" for x
      by (simp add: s'_def h_def)
    moreover have "map_option sp (threads s' (currentThread s')) = Some (sp tn)" using tn by (simp add: s'_def)
    ultimately show ?thesis using that by metis
  next
    case True
    define h' where "h' = h |` (- set (dead a))"
    define s' where "s' = s\<lparr>threads := h', currentThread := mainThread, deadThreads := NULL, thread_lock := 0\<rparr>"
    have main: "mainThread \<in> set (live a)" using I(5,6) by (metis hd_in_set)
    then have md: "mainThread \<notin> set (dead a)" using I(9) by blast
    have free: "freeDeadThreads (s\<lparr>thread_lock := 1, threads := h, currentThread := mainThread\<rparr>) =
      Some (s\<lparr>thread_lock := 1, threads := h', currentThread := mainThread, deadThreads := NULL\<rparr>)"
      using freeDeadThreads_all [of "s\<lparr>thread_lock := 1, threads := h, currentThread := mainThread\<rparr>" "dead a"] I(8,12) md
      by (simp add: hl h'_def)
    obtain tm where tm: "h mainThread = Some tm" using main I(10) hl(3) by blast
    have tm': "h' mainThread = Some tm" using tm md by (simp add: h'_def)
    have "schedule_next_thread v s = Some (sp tm, s')"
      using I(1,2,4) t n(1) True tm' c0 free
      by (simp add: schedule_next_thread_def testandset_def assign_def RELEASE_LOCK_def releaselock_def s'_def h_def [symmetric])
        (simp add: h_def mainThread_def)
    moreover have "implements s' (rr_schedule a)"
    proof -
      have "links h' x = links h x" if "x \<in> set (live a)" for x using that I(9) by (auto simp: h'_def links_def restrict_map_def)
      then have "dseg (links h') p xs q = dseg (links h) p xs q" if "set xs \<subseteq> set (live a)" for p xs q
        using that by (induction xs arbitrary: p) auto
      then have "dseg (links h') NULL (live a) NULL" using I(11) hl(1) by simp
      moreover have "dom h' = set (live a)" using I(9,10) hl(3) by (auto simp: h'_def)
      ultimately show ?thesis
        using I True main unfolding implements_def rr_schedule_def n_def [symmetric] s'_def by simp
    qed
    moreover have "map_option sp (threads s' x) = (if x = current a then Some v else map_option sp (threads s x))"
      if "x \<in> set (live a)" for x
      using that I(9) by (auto simp: s'_def h'_def h_def restrict_map_def)
    moreover have "map_option sp (threads s' (currentThread s')) = Some (sp tm)" using tm' by (simp add: s'_def)
    ultimately show ?thesis using that by metis
  qed
qed

lemma isThreadInfoActive_loop_dseg:
  assumes "dseg (links (threads s)) p xs NULL"
  shows "isThreadInfoActive_loop x (if xs = [] then NULL else hd xs) s = Some (if x \<in> set xs then 1 else 0)"
  using assms
proof (induction xs arbitrary: p)
  case Nil
  show ?case by (subst isThreadInfoActive_loop.simps) simp
next
  case (Cons y ys)
  then obtain t where t: "deref y s = Some t" "next t = (if ys = [] then NULL else hd ys)" "y \<noteq> NULL"
    by (auto simp: links_def deref_def)
  show ?case using Cons t by (subst isThreadInfoActive_loop.simps) auto
qed

lemma isThreadInfoActive_iff:
  assumes "implements s a"
  shows "isThreadInfoActive x s = Some (if x \<in> set (tl (live a)) then 1 else 0)"
proof -
  note I = implementsD [OF assms]
  obtain ys where live: "live a = mainThread # ys" using I(5,6) by (metis list.collapse)
  have seg: "dseg (links (threads s)) mainThread ys NULL" "links (threads s) mainThread = Some (NULL, if ys = [] then NULL else hd ys)"
    using I(11) unfolding live by simp_all
  then obtain t where "deref mainThread s = Some t" "next t = (if ys = [] then NULL else hd ys)"
    by (auto simp: links_def deref_def mainThread_def)
  then show ?thesis using isThreadInfoActive_loop_dseg [OF seg(1), of x] unfolding isThreadInfoActive_def live by simp
qed

section \<open>Fairness of a round-robin scheduler\<close>

fun iterate_switch :: "('v \<Rightarrow> 's \<Rightarrow> ('v \<times> 's) option) \<Rightarrow> 'v list \<Rightarrow> 's \<Rightarrow> 's option" where
  "iterate_switch switch [] s = Some s"
| "iterate_switch switch (v # vs) s = do { (v', s) \<leftarrow> switch v s; iterate_switch switch vs s }"

lemma follower_nth:
  assumes "distinct xs" "i < length xs"
  shows "follower xs (xs ! i) = (if i + 1 < length xs then xs ! (i + 1) else NULL)"
proof -
  have "xs ! i \<notin> set (take i xs)" using assms by (auto simp: in_set_conv_nth nth_eq_iff_index_eq)
  then have "follower xs (xs ! i) = (if drop (Suc i) xs = [] then NULL else hd (drop (Suc i) xs))"
    using follower_split [of "xs ! i" "take i xs" "drop (Suc i) xs"] id_take_nth_drop [OF assms(2)] by simp
  then show ?thesis using assms(2) by (simp add: hd_drop_conv_nth)
qed

text \<open>What a scheduler promises: it implements the specification's switch on every state.\<close>

locale scheduler =
  fixes impl :: "'s \<Rightarrow> round_robin \<Rightarrow> bool" and switch :: "'v \<Rightarrow> 's \<Rightarrow> ('v \<times> 's) option" and running :: "'s \<Rightarrow> ptr"
  assumes switch_implements: "impl s a \<Longrightarrow> \<exists>v' s'. switch v s = Some (v', s') \<and> impl s' (rr_schedule a)"
    and running_current: "impl s a \<Longrightarrow> running s = current a"
    and live_list: "impl s a \<Longrightarrow> live a \<noteq> [] \<and> distinct (live a) \<and> NULL \<notin> set (live a)"
    and after_live: "impl s a \<Longrightarrow> current a \<notin> set (live a) \<Longrightarrow> after a = NULL \<or> after a \<in> set (live a)"
begin

lemma schedule_live:
  assumes "impl s a"
  shows "live (rr_schedule a) = live a" "current (rr_schedule a) \<in> set (live a)"
proof -
  note w = live_list [OF assms] after_live [OF assms]
  show "live (rr_schedule a) = live a" by (simp add: rr_schedule_def Let_def)
  have "follower (live a) (current a) = NULL \<or> follower (live a) (current a) \<in> set (live a)" if cur: "current a \<in> set (live a)"
  proof -
    obtain i where i: "i < length (live a)" "live a ! i = current a" using cur unfolding in_set_conv_nth by blast
    have "follower (live a) (current a) = (if i + 1 < length (live a) then live a ! (i + 1) else NULL)"
      unfolding i(2) [symmetric] using w(1) i(1) by (intro follower_nth) blast+
    then show ?thesis using nth_mem [of "i + 1" "live a"] by presburger
  qed
  then show "current (rr_schedule a) \<in> set (live a)"
    using w hd_in_set [of "live a"] by (cases "current a \<in> set (live a)") (auto simp: rr_schedule_def Let_def)
qed

lemma schedule_next:
  assumes "impl s a" "i < length (live a)" "current a = live a ! i"
  shows "current (rr_schedule a) = live a ! (Suc i mod length (live a))"
proof -
  note w = live_list [OF assms(1)]
  have "live a ! Suc i \<noteq> NULL" if "Suc i < length (live a)" using w that nth_mem by metis
  moreover have "Suc i mod length (live a) = 0" if "\<not> Suc i < length (live a)" using that assms(2) by (metis Suc_lessI mod_self)
  ultimately show ?thesis using w assms follower_nth [of "live a" i]
    by (cases "Suc i < length (live a)") (simp_all add: rr_schedule_def Let_def hd_conv_nth)
qed

lemma rotates:
  assumes "impl s a" "i < length (live a)" "current a = live a ! i"
  shows "\<exists>s' a'. iterate_switch switch vs s = Some s' \<and> impl s' a' \<and> live a' = live a \<and>
    current a' = live a ! ((i + length vs) mod length (live a))"
  using assms
proof (induction vs arbitrary: s a i)
  case Nil
  then show ?case by auto
next
  case (Cons v vs)
  obtain v' s1 where s1: "switch v s = Some (v', s1)" "impl s1 (rr_schedule a)" using switch_implements Cons.prems(1) by blast
  note live = schedule_live(1) [OF Cons.prems(1)]
  have "Suc i mod length (live a) < length (live a)" using Cons.prems(2) by (intro mod_less_divisor) linarith
  then show ?case
    using Cons.IH [OF s1(2), of "Suc i mod length (live a)"] schedule_next [OF Cons.prems] s1(1) live
    by (simp add: mod_add_left_eq)
qed

lemma turn:
  assumes "c \<in> set xs" "t \<in> set xs"
  shows "\<exists>n < length xs. \<forall>s a vs. impl s a \<longrightarrow> live a = xs \<longrightarrow> current a = c \<longrightarrow> length vs = n \<longrightarrow>
    (\<exists>s'. iterate_switch switch vs s = Some s' \<and> running s' = t)"
proof -
  obtain i j where i: "i < length xs" "c = xs ! i" and j: "j < length xs" "t = xs ! j"
    using assms by (metis in_set_conv_nth)
  define n where "n = (if i \<le> j then j - i else j + length xs - i)"
  have n: "n < length xs" "(i + n) mod length xs = j" using i(1) j(1) by (auto simp: n_def)
  have "\<exists>s'. iterate_switch switch vs s = Some s' \<and> running s' = t"
    if "impl s a" "live a = xs" "current a = c" "length vs = n" for s a vs
    using rotates [OF that(1), of i vs] that(2-4) n(2) i j(2) running_current by auto
  then show ?thesis using n(1) by blast
qed

lemma fair:
  assumes "impl s a" "t \<in> set (live a)"
  shows "\<exists>n \<le> length (live a). \<forall>vs. length vs = n \<longrightarrow>
    (\<exists>s'. iterate_switch switch vs s = Some s' \<and> running s' = t)"
proof (cases "current a \<in> set (live a)")
  case True
  obtain n where "n < length (live a)" "\<And>vs. length vs = n \<Longrightarrow> \<exists>s'. iterate_switch switch vs s = Some s' \<and> running s' = t"
    using turn [OF True assms(2)] assms(1) by blast
  then show ?thesis by (meson less_imp_le)
next
  case False
  note sl = schedule_live [OF assms(1)]
  obtain n where n: "n < length (live a)" and ex: "\<And>s' vs. impl s' (rr_schedule a) \<Longrightarrow> length vs = n \<Longrightarrow>
      \<exists>s''. iterate_switch switch vs s' = Some s'' \<and> running s'' = t"
    using turn [OF sl(2) assms(2)] sl(1) by blast
  have "\<exists>s'. iterate_switch switch vs s = Some s' \<and> running s' = t" if len: "length vs = Suc n" for vs
  proof -
    obtain v ws where vs: "vs = v # ws" "length ws = n" using len by (metis length_Suc_conv)
    obtain v' s' where s': "switch v s = Some (v', s')" "impl s' (rr_schedule a)" using switch_implements assms(1) by blast
    then show ?thesis using ex [OF s'(2) vs(2)] vs(1) by simp
  qed
  then show ?thesis using n by (intro exI [of _ "Suc n"]) (simp add: Suc_leI)
qed

end

interpretation tce: scheduler implements schedule_next_thread currentThread
proof unfold_locales
  show "\<exists>v' s'. schedule_next_thread v s = Some (v', s') \<and> implements s' (rr_schedule a)" if "implements s a" for s a v
    by (rule schedule_next_thread_implements [OF that]) blast
qed (auto simp: implements_def dest: dseg_nonnull)

section \<open>Reachable states\<close>

text \<open>
  The states a program reaches that creates threads, switches between them and has each thread leave
  once: creation with a fresh structure from \<open>malloc\<close>, exit of the running thread, and a switch that
  saves any stack pointer.
\<close>

inductive thread_state :: "ThreadingData \<Rightarrow> bool" where
  init: "thread_state threadInternals"
| create: "thread_state s \<Longrightarrow> m \<noteq> NULL \<Longrightarrow> m \<notin> dom (threads s) \<Longrightarrow>
    pthread_create m f x s = Some (r, p, s') \<Longrightarrow> thread_state s'"
| exit: "thread_state s \<Longrightarrow> isThreadInfoActive (currentThread s) s = Some 1 \<Longrightarrow>
    pthread_exit s = Some (Removed s') \<Longrightarrow> thread_state s'"
| switch: "thread_state s \<Longrightarrow> schedule_next_thread v s = Some (v', s') \<Longrightarrow> thread_state s'"

lemma tl_live: "implements s a \<Longrightarrow> x \<in> set (live a) \<longleftrightarrow> x = mainThread \<or> x \<in> set (tl (live a))"
  using implementsD(5,6) [of s a] by (cases "live a") auto

lemma main_not_tl: "implements s a \<Longrightarrow> mainThread \<notin> set (tl (live a))"
  using implementsD(5,6,7) [of s a] by (cases "live a") auto

lemma active_iff: "implements s a \<Longrightarrow> isThreadInfoActive x s = Some 1 \<longleftrightarrow> x \<in> set (tl (live a))"
  by (simp add: isThreadInfoActive_iff)

lemma pthread_exit_implements:
  assumes "implements s a" "current a \<in> set (live a)" "current a \<noteq> mainThread"
  obtains s' where "pthread_exit s = Some (Removed s')" "removeActiveThread s = Some s'" "implements s' (rr_exit a)"
proof -
  obtain s' where "removeThreadInfo (currentThread s) s = Some s'" "implements s' (rr_exit a)"
    by (rule removeThreadInfo_implements [OF assms])
  then show ?thesis using that assms(3) implementsD(4) [OF assms(1)]
    by (simp add: pthread_exit_def removeActiveThread_def)
qed

lemma thread_state_implements: "thread_state s \<Longrightarrow> \<exists>a. implements s a"
proof (induction rule: thread_state.induct)
  case init
  then show ?case using implements_init by blast
next
  case (create s m f x r p s')
  then obtain a where a: "implements s a" by blast
  show ?case by (rule pthread_create_implements [OF a create.hyps(2,3), of f x]) (use create.hyps(4) in auto)
next
  case (exit s s')
  then obtain a where a: "implements s a" by blast
  have "current a \<in> set (tl (live a))" using exit.hyps(2) active_iff [OF a] implementsD(4) [OF a] by simp
  then have "current a \<in> set (live a)" "current a \<noteq> mainThread" using tl_live [OF a] main_not_tl [OF a] by auto
  then show ?case using pthread_exit_implements [OF a] exit.hyps(3) by (metis exit_outcome.inject(2) option.inject)
next
  case (switch s v v' s')
  then obtain a where a: "implements s a" by blast
  show ?case by (rule schedule_next_thread_implements [OF a, of v]) (use switch.hyps(2) in auto)
qed

section \<open>Properties\<close>

text \<open>
  C4. The thread list implements a round-robin scheduler: from every state that represents a list of
  live threads, \<open>pthread_create\<close> with a fresh structure succeeds and appends the thread,
  \<open>pthread_exit\<close> and \<open>removeActiveThread\<close> of a live thread other than the main thread take the running thread out, and
  \<open>__tce_schedule_next_thread\<close> passes on to the next live thread, wrapping to the main thread and then
  freeing the dead ones.
\<close>

theorem threads_implement_round_robin:
  assumes "implements s a"
  shows "(\<forall>m f x. m \<noteq> NULL \<longrightarrow> m \<notin> dom (threads s) \<longrightarrow>
      (\<exists>s'. pthread_create m f x s = Some (0, m, s') \<and> implements s' (rr_create m a))) \<and>
    (current a \<in> set (live a) \<longrightarrow> current a \<noteq> mainThread \<longrightarrow>
      (\<exists>s'. pthread_exit s = Some (Removed s') \<and> removeActiveThread s = Some s' \<and> implements s' (rr_exit a))) \<and>
    (\<forall>v. \<exists>v' s'. schedule_next_thread v s = Some (v', s') \<and> implements s' (rr_schedule a))"
proof (intro conjI allI impI)
  show "\<exists>s'. pthread_create m f x s = Some (0, m, s') \<and> implements s' (rr_create m a)"
    if "m \<noteq> NULL" "m \<notin> dom (threads s)" for m f x
    by (rule pthread_create_implements [OF assms that, of f x]) blast
  show "\<exists>s'. pthread_exit s = Some (Removed s') \<and> removeActiveThread s = Some s' \<and> implements s' (rr_exit a)"
    if "current a \<in> set (live a)" "current a \<noteq> mainThread"
    by (rule pthread_exit_implements [OF assms that]) blast
  show "\<exists>v' s'. schedule_next_thread v s = Some (v', s') \<and> implements s' (rr_schedule a)" for v
    by (rule tce.switch_implements [OF assms])
qed

theorem threads_implement_round_robin_witness:
  "\<exists>s'. pthread_create 2 (Routine 7) Null_Ptr threadInternals = Some (0, 2, s') \<and>
     implements s' \<lparr>live = [mainThread, 2], dead = [], current = mainThread, after = NULL\<rparr>"
  using threads_implement_round_robin [OF implements_init]
  by (simp add: rr_create_def threadInternals_def mainThread_def)

text \<open>
  C16. Invariant of the thread list: every reachable state represents a list of live threads that
  starts with the main thread and a list of dead ones, disjoint, properly linked in both directions
  and making up the whole store; the lock is free, \<open>lastThread\<close> is the last live thread and the running
  thread is live or the one that exited last.
\<close>

theorem thread_invariant:
  assumes "thread_state s"
  shows "\<exists>a. implements s a"
  using assms by (rule thread_state_implements)

theorem thread_invariant_witness: "\<exists>a. implements threadInternals a"
  by (rule thread_invariant [OF thread_state.init])

text \<open>
  C17. A switch is safe: in every reachable state \<open>__tce_schedule_next_thread\<close> returns without touching
  freed memory, the thread it selects is the main thread or an active one, never a dead one, the value
  it returns is the stack pointer stored for that thread, and the stack pointers of all live threads
  are kept, that of the interrupted thread being the one passed in.
\<close>

theorem schedule_safe:
  assumes "thread_state s"
  shows "\<exists>v' s'. schedule_next_thread v s = Some (v', s') \<and>
    (currentThread s' = mainThread \<or> isThreadInfoActive (currentThread s') s' = Some 1) \<and>
    map_option sp (threads s' (currentThread s')) = Some v' \<and>
    (\<forall>x. x = mainThread \<or> isThreadInfoActive x s = Some 1 \<longrightarrow>
      map_option sp (threads s' x) = (if x = currentThread s then Some v else map_option sp (threads s x)))"
proof -
  obtain a where a: "implements s a" using thread_state_implements [OF assms] by blast
  obtain v' s' where s': "schedule_next_thread v s = Some (v', s')" "implements s' (rr_schedule a)"
    "\<And>x. x \<in> set (live a) \<Longrightarrow> map_option sp (threads s' x) = (if x = current a then Some v else map_option sp (threads s x))"
    "map_option sp (threads s' (currentThread s')) = Some v'"
    by (rule schedule_next_thread_implements [OF a, of v]) blast
  have "currentThread s' \<in> set (live (rr_schedule a))"
    using tce.schedule_live [OF a] implementsD(4) [OF s'(2)] by simp
  then have "currentThread s' = mainThread \<or> isThreadInfoActive (currentThread s') s' = Some 1"
    using tl_live [OF s'(2)] active_iff [OF s'(2)] by blast
  then show ?thesis using s'(1,3,4) tl_live [OF a] active_iff [OF a] implementsD(4) [OF a] by auto
qed

theorem schedule_safe_witness:
  "\<exists>v' s'. schedule_next_thread (Data 5) threadInternals = Some (v', s') \<and>
     map_option sp (threads s' (currentThread s')) = Some v' \<and> map_option sp (threads s' mainThread) = Some (Data 5)"
  using schedule_safe [OF thread_state.init, of "Data 5"] by (auto simp: threadInternals_def)

text \<open>
  C18. Fairness: from every reachable state, every live thread is running again after at most as many
  switches as there are thread structures, whatever stack pointers the switches save.
\<close>

theorem schedule_fair:
  assumes "thread_state s" "t = mainThread \<or> isThreadInfoActive t s = Some 1"
  shows "\<exists>n \<le> card (dom (threads s)). \<forall>vs. length vs = n \<longrightarrow>
    (\<exists>s'. iterate_switch schedule_next_thread vs s = Some s' \<and> currentThread s' = t)"
proof -
  obtain a where a: "implements s a" using thread_state_implements [OF assms(1)] by blast
  have "t \<in> set (live a)" using assms(2) tl_live [OF a] active_iff [OF a] by blast
  moreover have "length (live a) \<le> card (dom (threads s))"
    using implementsD(7,10) [OF a] by (metis List.finite_set card_mono distinct_card finite_UnI sup_ge1)
  ultimately show ?thesis using tce.fair [OF a] by (meson le_trans)
qed

theorem schedule_fair_witness:
  "\<exists>n \<le> card (dom (threads threadInternals)). \<forall>vs. length vs = n \<longrightarrow>
    (\<exists>s'. iterate_switch schedule_next_thread vs threadInternals = Some s' \<and> currentThread s' = mainThread)"
  by (rule schedule_fair [OF thread_state.init]) simp

text \<open>
  C34. A created thread is started with its routine: \<open>pthread_create\<close> with a fresh structure returns 0 and
  the thread becomes active, active threads stay so, and the stack pointer stored for the thread
  points at a frame that holds the routine, its argument and the return address that takes the thread
  out of the list.
\<close>

theorem pthread_create_starts:
  assumes "thread_state s" "m \<noteq> NULL" "m \<notin> dom (threads s)"
  shows "\<exists>s' t. pthread_create m f x s = Some (0, m, s') \<and> isThreadInfoActive m s' = Some 1 \<and>
    (\<forall>y. isThreadInfoActive y s = Some 1 \<longrightarrow> isThreadInfoActive y s' = Some 1) \<and>
    threads s' m = Some t \<and> sp t = Stack_Ptr m (STACK_SIZE - 5) \<and>
    stack t (STACK_SIZE - 4) = Some f \<and> stack t (STACK_SIZE - 3) = Some x \<and>
    stack t (STACK_SIZE - 2) = Some RemoveActiveThread \<and> stack t (STACK_SIZE - 1) = Some (Thread_Ptr m)"
proof -
  obtain a where a: "implements s a" using thread_state_implements [OF assms(1)] by blast
  obtain s' where s': "pthread_create m f x s = Some (0, m, s')" "implements s' (rr_create m a)"
    "threads s' m = Some \<lparr>prev = lastThread s, next = NULL, dead_next = NULL, sp = Stack_Ptr m (STACK_SIZE - 5),
       stack = initial_stack m f x\<rparr>"
    by (rule pthread_create_implements [OF a assms(2,3)])
  have "tl (live (rr_create m a)) = tl (live a) @ [m]" using implementsD(5) [OF a] by (simp add: rr_create_def)
  then show ?thesis using s' active_iff [OF a] active_iff [OF s'(2)] by (simp add: initial_stack_def STACK_SIZE_def)
qed

theorem pthread_create_starts_witness:
  "\<exists>s' t. pthread_create 2 (Routine 7) (Data 3) threadInternals = Some (0, 2, s') \<and> isThreadInfoActive 2 s' = Some 1 \<and>
    threads s' 2 = Some t \<and> stack t 4092 = Some (Routine 7) \<and> stack t 4093 = Some (Data 3)"
  using pthread_create_starts [OF thread_state.init, of 2 "Routine 7" "Data 3"]
  by (auto simp: threadInternals_def mainThread_def STACK_SIZE_def)

text \<open>
  The lock keeps the scheduler out of the list operations: while \<open>thread_lock\<close> is taken a switch
  returns to the interrupted thread and changes nothing, and a second \<open>WAIT_LOCK\<close> does not return.
\<close>

theorem lock_excludes_switch:
  assumes "thread_lock s \<noteq> 0"
  shows "schedule_next_thread v s = Some (v, s\<lparr>thread_lock := 1\<rparr>) \<and> WAIT_LOCK s = None \<and>
    removeThreadInfo t s = None \<and> addThreadInfo m l f x s = None"
  using assms by (simp add: schedule_next_thread_def testandset_def removeThreadInfo_def addThreadInfo_def)

theorem lock_excludes_switch_witness:
  "schedule_next_thread (Data 1) (threadInternals\<lparr>thread_lock := 1\<rparr>) = Some (Data 1, threadInternals\<lparr>thread_lock := 1\<rparr>)"
  using lock_excludes_switch [of "threadInternals\<lparr>thread_lock := 1\<rparr>" "Data 1" 0 0 0 Null_Ptr Null_Ptr] by simp

section \<open>Waiting for a thread\<close>





lemma next_of_live:
  assumes "implements s a" "live a = us @ c # ws"
  obtains k where "deref c s = Some k" "next k = (if ws = [] then NULL else hd ws)"
proof -
  note I = implementsD [OF assms(1)]
  have "c \<in> set (live a)" using assms(2) by simp
  then obtain k where k: "threads s c = Some k" "deref c s = Some k" using implements_thread [OF assms(1)] by blast
  have "links (threads s) c = Some (if us = [] then NULL else last us, if ws = [] then NULL else hd ws)"
    using dseg_next I(11) unfolding assms(2) by blast
  then show ?thesis using that k by (simp add: links_def)
qed



text \<open>Without interruption the rest of the list is walked to its end, or to \<open>t\<close>.\<close>

lemma join_walks:
  assumes "implements s a" "live a = us @ ws"
  shows "pthread_join t (Visit (if ws = [] then NULL else hd ws)) (replicate (length (takeWhile (\<lambda>x. x \<noteq> t) ws) + 1) s) =
    Some (if t \<in> set ws then Call else Returned)"
  using assms(2)
proof (induction ws arbitrary: us)
  case (Cons w ws)
  have nn: "w \<noteq> NULL" using implementsD(13) [OF assms(1)] Cons.prems by auto
  obtain k where k: "deref w s = Some k" "next k = (if ws = [] then NULL else hd ws)" by (rule next_of_live [OF assms(1) Cons.prems])
  show ?case using Cons.IH [of "us @ [w]"] Cons.prems nn k by (cases "w = t") simp_all
qed simp

text \<open>An uninterrupted pass over the list is a call of \<open>isThreadInfoActive\<close>.\<close>

lemma join_uninterrupted:
  assumes "implements s a"
  shows "\<exists>n > 0. pthread_join t Call (replicate n s) = Some (if isThreadInfoActive t s = Some 0 then Returned else Call)"
proof -
  obtain ys where live: "live a = [] @ mainThread # ys" using implementsD(5,6) [OF assms] by (metis append_Nil list.collapse)
  obtain m where m: "deref mainThread s = Some m" "next m = (if ys = [] then NULL else hd ys)" by (rule next_of_live [OF assms live])
  have "pthread_join t Call (replicate (Suc (length (takeWhile (\<lambda>x. x \<noteq> t) ys) + 1)) s) = Some (if t \<in> set ys then Call else Returned)"
    using join_walks [OF assms, of "[mainThread]" ys t] live m by simp
  moreover have "isThreadInfoActive t s = Some (if t \<in> set ys then 1 else 0)" using isThreadInfoActive_iff [OF assms] live by simp
  ultimately show ?thesis by (intro exI [of _ "Suc (length (takeWhile (\<lambda>x. x \<noteq> t) ys) + 1)"]) simp
qed




text \<open>
  A third thread that exits while the traversal is at it: the main thread waits for thread 3 and has come to
  thread 2, which runs, exits and is freed by the switch back to the main thread; the main thread then
  reads the freed structure, while thread 3 is still active.
\<close>

theorem pthread_join_race:
  "do { (r, p, s) \<leftarrow> pthread_create 2 f x threadInternals;
        (r, p, s) \<leftarrow> pthread_create 3 g y s;
        pc \<leftarrow> join_step 3 Call s;
        (v', s) \<leftarrow> schedule_next_thread v s;
        s \<leftarrow> removeActiveThread s;
        (w', s) \<leftarrow> schedule_next_thread w s;
        (u', s) \<leftarrow> schedule_next_thread u s;
        Some (currentThread s, isThreadInfoActive 3 s, pc, join_step 3 pc s) } = Some (mainThread, Some 1, Visit 2, None)"
proof -
  note m = mainThread_def and rr = rr_schedule_def follower_def
  obtain s1 where s1: "pthread_create 2 f x threadInternals = Some (0, 2, s1)" "implements s1 \<lparr>live = [1, 2], dead = [], current = 1, after = NULL\<rparr>"
    using pthread_create_implements [OF implements_init, of 2 f x] by (auto simp: threadInternals_def rr_create_def m)
  have "dom (threads s1) = {1, 2}" using implementsD(10) [OF s1(2)] by simp
  then obtain s2 where s2: "pthread_create 3 g y s1 = Some (0, 3, s2)" "implements s2 \<lparr>live = [1, 2, 3], dead = [], current = 1, after = NULL\<rparr>"
    using pthread_create_implements [OF s1(2), of 3 g y] by (auto simp: rr_create_def)
  obtain k where k: "deref mainThread s2 = Some k" "next k = 2" using next_of_live [OF s2(2), of "[]" 1 "[2, 3]"] by (auto simp: m)
  obtain v' s3 where s3: "schedule_next_thread v s2 = Some (v', s3)" "implements s3 \<lparr>live = [1, 2, 3], dead = [], current = 2, after = NULL\<rparr>"
    using tce.switch_implements [OF s2(2), of v] by (auto simp: rr)
  obtain s4 where s4: "removeActiveThread s3 = Some s4" "implements s4 \<lparr>live = [1, 3], dead = [2], current = 2, after = 3\<rparr>"
    using pthread_exit_implements [OF s3(2)] by (auto simp: rr_exit_def follower_def m)
  obtain w' s5 where s5: "schedule_next_thread w s4 = Some (w', s5)" "implements s5 \<lparr>live = [1, 3], dead = [2], current = 3, after = 3\<rparr>"
    using tce.switch_implements [OF s4(2), of w] by (auto simp: rr)
  obtain u' s6 where s6: "schedule_next_thread u s5 = Some (u', s6)" "implements s6 \<lparr>live = [1, 3], dead = [], current = 1, after = 3\<rparr>"
    using tce.switch_implements [OF s5(2), of u] by (auto simp: rr)
  have "dom (threads s6) = {1, 3}" using implementsD(10) [OF s6(2)] by simp
  then have "threads s6 2 = None" by (metis domIff insertE numeral_eq_one_iff numeral_eq_iff num.distinct(1,5) singletonD)
  then have "deref 2 s6 = None" by (simp add: deref_def)
  moreover have "isThreadInfoActive 3 s6 = Some 1" using active_iff [OF s6(2)] by simp
  moreover have "currentThread s6 = mainThread" using implementsD(4) [OF s6(2)] by (simp add: m)
  ultimately show ?thesis using s1(1) s2(1) s3(1) s4(1) s5(1) s6(1) k by simp
qed

lemma isThreadInfoActive_unlinked:
  assumes "dseg (links (threads s)) NULL (mainThread # ys) NULL"
  shows "isThreadInfoActive x s = Some (if x \<in> set ys then 1 else 0)"
proof -
  have seg: "dseg (links (threads s)) mainThread ys NULL" "links (threads s) mainThread = Some (NULL, if ys = [] then NULL else hd ys)"
    using assms by simp_all
  then obtain t where "deref mainThread s = Some t" "next t = (if ys = [] then NULL else hd ys)"
    by (auto simp: links_def deref_def mainThread_def)
  then show ?thesis using isThreadInfoActive_loop_dseg [OF seg(1), of x] unfolding isThreadInfoActive_def by simp
qed

text \<open>
  C36. A failed allocation breaks the thread list: \<open>pthread_create\<close> then returns 1 but has set \<open>lastThread\<close>
  to \<open>NULL\<close>, so that the next \<open>pthread_create\<close> returns 0 for a thread that is not linked into the list,
  is not active and is never scheduled.
\<close>

theorem pthread_create_after_failure:
  assumes "thread_state s" "m \<noteq> NULL" "m \<notin> dom (threads s)"
  shows "pthread_create NULL f x s = Some (1, NULL, s\<lparr>lastThread := NULL\<rparr>) \<and>
    (\<exists>s'. pthread_create m f x (s\<lparr>lastThread := NULL\<rparr>) = Some (0, m, s') \<and> isThreadInfoActive m s' = Some 0)"
proof -
  obtain a where a: "implements s a" using thread_state_implements [OF assms(1)] by blast
  note I = implementsD [OF a]
  obtain ys where live: "live a = mainThread # ys" using I(5,6) by (metis list.collapse)
  have fail: "pthread_create NULL f x s = Some (1, NULL, s\<lparr>lastThread := NULL\<rparr>)"
    using I(1) by (cases s) (simp add: pthread_create_def addThreadInfo_def RELEASE_LOCK_def releaselock_def)
  define s' where "s' = s\<lparr>lastThread := m, threads := (threads s)(m \<mapsto> \<lparr>prev = NULL, next = NULL, dead_next = NULL,
    sp = Stack_Ptr m (STACK_SIZE - 5), stack = initial_stack m f x\<rparr>)\<rparr>"
  have "pthread_create m f x (s\<lparr>lastThread := NULL\<rparr>) = Some (0, m, s')"
    using I(1) assms(2) by (cases s) (simp add: pthread_create_def addThreadInfo_def RELEASE_LOCK_def releaselock_def s'_def)
  moreover have m: "m \<notin> set (mainThread # ys)" using assms(3) I(10) live by auto
  then have "isThreadInfoActive m s' = Some 0"
    using isThreadInfoActive_unlinked [of s' ys m] I(11) unfolding live by (simp add: s'_def)
  ultimately show ?thesis using fail by blast
qed

theorem pthread_create_after_failure_witness:
  "pthread_create NULL Null_Ptr Null_Ptr threadInternals = Some (1, NULL, threadInternals\<lparr>lastThread := NULL\<rparr>) \<and>
   (\<exists>s'. pthread_create 2 Null_Ptr Null_Ptr (threadInternals\<lparr>lastThread := NULL\<rparr>) = Some (0, 2, s') \<and> isThreadInfoActive 2 s' = Some 0)"
  by (rule pthread_create_after_failure [OF thread_state.init]) (simp_all add: threadInternals_def mainThread_def)

text \<open>
  C37. Two creations that interleave lose a thread: \<open>pthread_create\<close> reads \<open>lastThread\<close> before and writes it
  after the locked section of \<open>addThreadInfo\<close>.  When another thread creates a thread in between, both
  calls succeed, but the structure of the first is no longer reachable from the list although it is
  recorded as the last one.
\<close>

theorem pthread_create_race:
  assumes "thread_state s" "m1 \<noteq> NULL" "m2 \<noteq> NULL" "m1 \<noteq> m2" "m1 \<notin> dom (threads s)" "m2 \<notin> dom (threads s)"
  shows "\<exists>s1 s2. addThreadInfo m1 (lastThread s) f x s = Some (m1, s1) \<and> pthread_create m2 g y s1 = Some (0, m2, s2) \<and>
    isThreadInfoActive m1 (s2\<lparr>lastThread := m1\<rparr>) = Some 0 \<and> isThreadInfoActive m2 (s2\<lparr>lastThread := m1\<rparr>) = Some 1"
proof -
  obtain a where a: "implements s a" using thread_state_implements [OF assms(1)] by blast
  note I = implementsD [OF a]
  define l where "l = last (live a)"
  obtain xs where live: "live a = xs @ [l]" unfolding l_def using I(5) by (metis append_butlast_last_id)
  have last: "lastThread s = l" "l \<noteq> NULL" using I(3,13) live by auto
  obtain t where t: "threads s l = Some t" using I(10) live by auto
  have fresh: "m1 \<notin> set (live a)" "m2 \<notin> set (live a)" using assms(5,6) I(10) by auto
  then have ml: "m1 \<noteq> l" "m2 \<noteq> l" using live by auto
  define blk where "blk m f x = \<lparr>prev = l, next = NULL, dead_next = NULL, sp = Stack_Ptr m (STACK_SIZE - 5), stack = initial_stack m f x\<rparr>"
    for m f x
  define s1 where "s1 = s\<lparr>threads := (threads s)(l \<mapsto> t\<lparr>next := m1\<rparr>, m1 \<mapsto> blk m1 f x)\<rparr>"
  define s2 where "s2 = s\<lparr>threads := (threads s)(l \<mapsto> t\<lparr>next := m2\<rparr>, m1 \<mapsto> blk m1 f x, m2 \<mapsto> blk m2 g y), lastThread := m2\<rparr>"
  have "addThreadInfo m1 (lastThread s) f x s = Some (m1, s1)"
    using I(1) last t assms(2) by (cases s) (simp add: addThreadInfo_def assign_def deref_def RELEASE_LOCK_def releaselock_def s1_def blk_def)
  moreover have "pthread_create m2 g y s1 = Some (0, m2, s2)"
    using I(1) last t assms(3,4) ml
    by (cases s) (simp add: pthread_create_def addThreadInfo_def assign_def deref_def RELEASE_LOCK_def releaselock_def s1_def s2_def blk_def fun_upd_twist)
  moreover obtain ys where ys: "live a @ [m2] = mainThread # ys" using I(5,6) by (metis append_Cons list.collapse)
  have "dseg ((links (threads s))(l \<mapsto> (prev t, m2), m2 \<mapsto> (l, NULL))) NULL (live a @ [m2]) NULL"
    using dseg_snoc [of "links (threads s)" NULL xs l m2 "prev t" "next t"] I(7,11) fresh assms(3) t
    by (simp add: live links_def [of _ l])
  then have "dseg ((links (threads s))(l \<mapsto> (prev t, m2), m2 \<mapsto> (l, NULL), m1 \<mapsto> (l, NULL))) NULL (live a @ [m2]) NULL"
    using fresh assms(4) by (subst dseg_upd) auto
  then have seg: "dseg (links (threads (s2\<lparr>lastThread := m1\<rparr>))) NULL (mainThread # ys) NULL"
    using assms(4) unfolding ys by (simp add: s2_def blk_def fun_upd_twist [of m1 m2])
  have "m2 \<noteq> mainThread" using fresh I(5,6) hd_in_set by metis
  then have "m2 \<in> set ys" using ys by (metis in_set_conv_decomp set_ConsD)
  moreover have "m1 \<notin> set ys" using ys fresh(1) assms(4) by (metis Un_iff list.set_intros(2) set_ConsD set_append empty_iff list.set(1))
  ultimately show ?thesis using isThreadInfoActive_unlinked [OF seg] by auto
qed

theorem pthread_create_race_witness:
  "\<exists>s1 s2. addThreadInfo 2 mainThread (Routine 1) Null_Ptr threadInternals = Some (2, s1) \<and>
     pthread_create 3 (Routine 2) Null_Ptr s1 = Some (0, 3, s2) \<and>
     isThreadInfoActive 2 (s2\<lparr>lastThread := 2\<rparr>) = Some 0 \<and> isThreadInfoActive 3 (s2\<lparr>lastThread := 2\<rparr>) = Some 1"
  using pthread_create_race [OF thread_state.init, of 2 3 "Routine 1" Null_Ptr "Routine 2" Null_Ptr]
  by (simp add: threadInternals_def mainThread_def)

text \<open>
  C38. A thread that calls \<open>pthread_exit\<close> and then returns from its routine is removed twice, since
  \<open>pthread_exit\<close> returns to its caller: the dead list then links the structure to itself, and the next
  switch to the main thread frees it and reads it again.
\<close>

theorem pthread_exit_then_return_faults:
  "do { (r, p, s) \<leftarrow> pthread_create 2 f x threadInternals;
        (v', s) \<leftarrow> schedule_next_thread v s;
        s \<leftarrow> removeThreadInfo (currentThread s) s;
        s \<leftarrow> removeActiveThread s;
        Some (threads s 2 \<bind> (\<lambda>t. Some (dead_next t)), schedule_next_thread w s) } = Some (Some 2, None)"
proof -
  have free: "freeDeadThreads s = None" if "deadThreads s = 2" "currentThread s = 1" "threads s 2 = Some t" "dead_next t = 2"
    for s and t :: ThreadInfo
    using that by (subst freeDeadThreads.simps, simp add: deref_def) (subst freeDeadThreads.simps, simp)
  define m0 where "m0 = \<lparr>prev = NULL, next = NULL, dead_next = NULL, sp = Null_Ptr, stack = Map.empty\<rparr>"
  define blk where "blk = \<lparr>prev = 1, next = NULL, dead_next = NULL, sp = Stack_Ptr 2 (STACK_SIZE - 5), stack = initial_stack 2 f x\<rparr>"
  define st where "st h l c d = \<lparr>thread_lock = 0, threads = h, firstThread = 1, lastThread = l, currentThread = c, deadThreads = d\<rparr>"
    for h l c d
  define h1 :: "ptr \<rightharpoonup> ThreadInfo" where "h1 = [1 \<mapsto> m0\<lparr>next := 2\<rparr>, 2 \<mapsto> blk]"
  define h2 :: "ptr \<rightharpoonup> ThreadInfo" where "h2 = [1 \<mapsto> m0\<lparr>next := 2, sp := v\<rparr>, 2 \<mapsto> blk]"
  define h3 :: "ptr \<rightharpoonup> ThreadInfo" where "h3 = [1 \<mapsto> m0\<lparr>sp := v\<rparr>, 2 \<mapsto> blk]"
  define h4 :: "ptr \<rightharpoonup> ThreadInfo" where "h4 = [1 \<mapsto> m0\<lparr>sp := v\<rparr>, 2 \<mapsto> blk\<lparr>dead_next := 2\<rparr>]"
  note ops = assign_def deref_def RELEASE_LOCK_def releaselock_def testandset_def st_def m0_def blk_def
  have 1: "pthread_create 2 f x threadInternals = Some (0, 2, st h1 2 1 0)"
    by (simp add: pthread_create_def addThreadInfo_def threadInternals_def mainThread_def h1_def ops)
  have 2: "schedule_next_thread v (st h1 2 1 0) = Some (sp blk, st h2 2 2 0)"
    by (simp add: schedule_next_thread_def h1_def h2_def ops fun_upd_twist)
  have 3: "removeThreadInfo 2 (st h2 2 2 0) = Some (st h3 1 2 2)"
    by (simp add: removeThreadInfo_def h2_def h3_def ops fun_upd_twist)
  have 4: "removeThreadInfo 2 (st h3 1 2 2) = Some (st h4 1 2 2)"
    by (simp add: removeThreadInfo_def h3_def h4_def ops fun_upd_twist)
  have 5: "schedule_next_thread w (st h4 1 2 2) = None"
    by (simp add: schedule_next_thread_def h4_def ops free)
  show ?thesis using 1 2 3 4 5 by (simp add: removeActiveThread_def st_def h4_def)
qed

end
