(* ===== verification/Trunc_Quad.thy ===== *)
theory Trunc_Quad
  imports Float_Rounding
begin

text \<open>
  \<open>data/riscv/runtime/trunctfdf2.c\<close>: the conversion from binary128 (\<open>long double\<close>) to binary64 of the
  RISC-V runtime, on the raw bit patterns.  The 128-bit and 64-bit unsigned types are words, the
  exponents, which are \<open>int\<close> and small, integers.  Correctness is stated against the same rounding
  function as that of the software floating point.
\<close>

section \<open>Definitions\<close>

type_synonym oa_u128 = "128 word"
type_synonym oa_u64 = "64 word"

definition SRC_SIG_BITS :: int where "SRC_SIG_BITS = 112"
definition SRC_EXP_MAX :: int where "SRC_EXP_MAX = 0x7fff"
definition SRC_EXP_BIAS :: int where "SRC_EXP_BIAS = 16383"
definition DST_SIG_BITS :: int where "DST_SIG_BITS = 52"
definition DST_EXP_MAX :: int where "DST_EXP_MAX = 0x7ff"
definition DST_EXP_BIAS :: int where "DST_EXP_BIAS = 1023"
definition SIG_DROP :: int where "SIG_DROP = SRC_SIG_BITS - DST_SIG_BITS"

lemmas quad_constants = SRC_SIG_BITS_def SRC_EXP_MAX_def SRC_EXP_BIAS_def DST_SIG_BITS_def DST_EXP_MAX_def
  DST_EXP_BIAS_def SIG_DROP_def

definition round_result :: "oa_u64 \<Rightarrow> oa_u128 \<Rightarrow> oa_u64" where
  "round_result absResult roundBits =
     (let halfway = c_shl 1 (SIG_DROP - 1)
      in if halfway < roundBits then absResult + 1
         else if roundBits = halfway then absResult + (absResult AND 1)
         else absResult)"

definition oa_trunctfdf2_bits :: "oa_u128 \<Rightarrow> oa_u64" where
  "oa_trunctfdf2_bits aRep =
     (let sigMask = c_shl 1 SRC_SIG_BITS - 1;
          roundMask = c_shl 1 SIG_DROP - 1;
          sign = c_shl (ucast (c_shr aRep 127)) 63;
          srcExp = uint (c_shr aRep SRC_SIG_BITS AND word_of_int SRC_EXP_MAX);
          srcSig = aRep AND sigMask;
          absResult =
            (if srcExp = SRC_EXP_MAX
             then if srcSig = 0 then c_shl (word_of_int DST_EXP_MAX) DST_SIG_BITS
                  else c_shl (word_of_int DST_EXP_MAX) DST_SIG_BITS OR c_shl 1 (DST_SIG_BITS - 1) OR
                       (ucast (c_shr srcSig SIG_DROP) AND (c_shl 1 (DST_SIG_BITS - 1) - 1))
             else let dstExp = srcExp - SRC_EXP_BIAS + DST_EXP_BIAS
                  in if srcExp \<noteq> 0 \<and> DST_EXP_MAX \<le> dstExp
                     then c_shl (word_of_int DST_EXP_MAX) DST_SIG_BITS
                     else if srcExp \<noteq> 0 \<and> 0 < dstExp
                     then let aAbs = aRep AND (c_shl 1 127 - 1);
                              absResult = ucast (c_shr aAbs SIG_DROP);
                              absResult = absResult - c_shl (word_of_int (SRC_EXP_BIAS - DST_EXP_BIAS)) DST_SIG_BITS
                          in round_result absResult (aAbs AND roundMask)
                     else let significand = (if srcExp = 0 then srcSig else srcSig OR c_shl 1 SRC_SIG_BITS);
                              shift = 1 - dstExp
                          in if srcExp = 0 \<or> SRC_SIG_BITS + 1 < shift then 0
                             else let sticky = (c_shl significand (128 - shift) \<noteq> 0);
                                      denormalized = c_shr significand shift OR bit_of sticky
                                  in round_result (ucast (c_shr denormalized SIG_DROP)) (denormalized AND roundMask))
      in absResult OR sign)"

section \<open>Fields of a binary128 pattern\<close>

definition quad_mag :: "oa_u128 \<Rightarrow> int" where "quad_mag a = uint a mod 2 ^ 127"
definition quad_sign :: "oa_u128 \<Rightarrow> bool" where "quad_sign a \<longleftrightarrow> 2 ^ 127 \<le> uint a"
definition quad_exp :: "oa_u128 \<Rightarrow> int" where "quad_exp a = quad_mag a div 2 ^ 112"
definition quad_frac :: "oa_u128 \<Rightarrow> int" where "quad_frac a = quad_mag a mod 2 ^ 112"

lemma quad_ranges: "0 \<le> quad_mag a" "quad_mag a < 2 ^ 127" "0 \<le> quad_exp a" "quad_exp a \<le> 0x7fff" "0 \<le> quad_frac a" "quad_frac a < 2 ^ 112"
proof -
  show m: "0 \<le> quad_mag a" "quad_mag a < 2 ^ 127" by (simp_all add: quad_mag_def)
  then have "quad_mag a < 2 ^ 15 * 2 ^ 112" by simp
  then show "quad_exp a \<le> 0x7fff" using int_div_lt [of "quad_mag a" "2 ^ 15" "2 ^ 112"] m by (simp add: quad_exp_def)
  show "0 \<le> quad_exp a" using m by (simp add: quad_exp_def)
  show "0 \<le> quad_frac a" "quad_frac a < 2 ^ 112" by (simp_all add: quad_frac_def)
qed

lemma quad_mag_split: "quad_mag a = quad_exp a * 2 ^ 112 + quad_frac a"
  by (simp add: quad_exp_def quad_frac_def)

lemma uint_and_shl_mask: "n < LENGTH('a) \<Longrightarrow> uint (a AND (c_shl 1 (int n) - 1)) = uint a mod 2 ^ n" for a :: "'a::len word"
  using uint_and_mask [of a n] by (simp add: c_shl_def mask_eq_exp_minus_1 push_bit_eq_mult)

lemma quad_fields:
  "uint (c_shr a SRC_SIG_BITS AND word_of_int SRC_EXP_MAX) = quad_exp a"
  "uint (a AND (c_shl 1 SRC_SIG_BITS - 1)) = quad_frac a"
  "uint (a AND (c_shl 1 127 - 1)) = quad_mag a"
proof -
  show "uint (a AND (c_shl 1 127 - 1)) = quad_mag a" using uint_and_shl_mask [of 127 a] by (simp add: quad_mag_def)
  have "uint a mod 2 ^ 127 mod 2 ^ 112 = uint a mod 2 ^ 112" by (rule mod_mod_cancel) (simp add: le_imp_power_dvd)
  then show "uint (a AND (c_shl 1 SRC_SIG_BITS - 1)) = quad_frac a"
    using uint_and_shl_mask [of 112 a] by (simp add: quad_frac_def quad_mag_def quad_constants)
  have "uint (c_shr a 112 AND 0x7fff) = uint (c_shr a 112) mod 2 ^ 15"
    using uint_and_mask [of "c_shr a 112" 15] by (simp add: mask_eq_exp_minus_1)
  also have "\<dots> = uint a div 2 ^ 112 mod 2 ^ 15" by (simp add: uint_c_shr)
  also have "\<dots> = uint a mod (2 ^ 112 * 2 ^ 15) div 2 ^ 112"
    by (subst zmod_zmult2_eq) (simp_all add: mult.commute [of "2 ^ 112"])
  finally show "uint (c_shr a SRC_SIG_BITS AND word_of_int SRC_EXP_MAX) = quad_exp a"
    by (simp add: quad_exp_def quad_mag_def quad_constants)
qed

lemma uint_quad: "uint a = (if quad_sign a then 2 ^ 127 else 0) + quad_mag a"
  using uint_lt2p [of a] int_mod_if_pos [of "uint a" "2 ^ 127"] by (simp add: quad_mag_def quad_sign_def)

lemma uint_or_sign:
  fixes r :: oa_u64 and a :: oa_u128
  assumes "uint r < 2 ^ 63"
  shows "uint (r OR c_shl (ucast (c_shr a 127)) 63) = uint r + (if quad_sign a then 2 ^ 63 else 0)"
proof -
  have "c_shr a 127 = bit_of (quad_sign a)"
  proof -
    have "uint (c_shr a 127) = (if quad_sign a then 1 else 0)"
      using uint_quad [of a] quad_ranges(1,2) [of a] div_mod_split(1) [of "uint a" 1 "2 ^ 127" "quad_mag a"]
      by (cases "quad_sign a") (simp_all add: uint_c_shr)
    then show ?thesis by (auto simp: word_uint_eq_iff)
  qed
  then show ?thesis
    using assms uint_or_exp [of r 63] by (auto simp: c_shl_def)
qed

section \<open>Correct rounding\<close>

lemma rne_div_add_even: "0 < D \<Longrightarrow> even A \<Longrightarrow> rne_div (A * D + N) D = A + rne_div N D"
  by (simp add: rne_div_def Let_def)

lemma round_result_rne:
  assumes "uint r = x div 2 ^ 60" "uint rb = x mod 2 ^ 60" "x div 2 ^ 60 + 1 < 2 ^ 64"
  shows "uint (round_result r rb) = rne_div x (2 ^ 60)"
proof -
  have h: "uint (c_shl (1 :: oa_u128) (SIG_DROP - 1)) = 2 ^ 59" by (simp add: uint_c_shl quad_constants)
  have "uint (r + 1) = uint r + 1" using assms by (subst uint_plus_exact) simp_all
  moreover have odd: "uint (r AND 1) = uint r mod 2" using uint_and_mask [of r 1] by (simp add: mask_eq_exp_minus_1)
  then have "uint (r + (r AND 1)) = uint r + uint r mod 2" using assms by (subst uint_plus_exact) simp_all
  ultimately show ?thesis unfolding round_result_def Let_def word_less_def word_uint_eq_iff h rne_div_def assms(2)
    by (simp add: assms(1) mod_2_eq_odd)
qed

lemma uint_ucast_64: "uint (ucast (w :: oa_u128) :: oa_u64) = uint w mod 2 ^ 64"
  by (simp add: unsigned_ucast_eq take_bit_eq_mod)

text \<open>Values of binary128 patterns count units of \<open>2 ^ -16494\<close>, those of binary64 units of \<open>2 ^ -1074\<close>.\<close>

definition quad_unit_bits :: nat where "quad_unit_bits = 15420"

definition double_inf :: int where "double_inf = 0x7ff * 2 ^ 52"

definition round_double :: "oa_u128 \<Rightarrow> int" where
  "round_double a = min (round_mag 52 (fval 112 (quad_mag a)) (2 ^ quad_unit_bits)) double_inf"

lemma quad_value_normal:
  assumes "quad_exp a \<noteq> 0"
  shows "fval 112 (quad_mag a) = (2 ^ 112 + quad_frac a) * 2 ^ nat (quad_exp a - 1)"
proof -
  have "quad_mag a = int (nat (quad_exp a - 1)) * 2 ^ 112 + (2 ^ 112 + quad_frac a)"
    using assms quad_ranges(3) [of a] by (simp add: quad_mag_split left_diff_distrib)
  then show ?thesis using fval_binade [of 112 "2 ^ 112 + quad_frac a" "nat (quad_exp a - 1)"] quad_ranges(5,6) [of a] by simp
qed

lemma quad_round_normal:
  assumes "0 < dstExp" "dstExp = quad_exp a - 15360"
  shows "round_mag 52 (fval 112 (quad_mag a)) (2 ^ quad_unit_bits) = (dstExp - 1) * 2 ^ 52 + rne_div (2 ^ 112 + quad_frac a) (2 ^ 60)"
proof -
  define k where "k = nat (dstExp - 1)"
  define e where "e = nat (quad_exp a - 1)"
  have e: "e = k + 15360" using assms by (simp add: e_def k_def)
  let ?S = "2 ^ 112 + quad_frac a"
  have N: "fval 112 (quad_mag a) = ?S * 2 ^ e" using quad_value_normal [of a] assms by (simp add: e_def)
  have S: "2 ^ 112 \<le> ?S" "?S < 2 ^ 113" using quad_ranges(5,6) [of a] by simp_all
  have p: "(2::int) ^ (52 + k) * 2 ^ quad_unit_bits = 2 ^ 112 * 2 ^ e" "(2::int) ^ (52 + 1 + k) * 2 ^ quad_unit_bits = 2 ^ 113 * 2 ^ e"
    "(2::int) ^ quad_unit_bits * 2 ^ k = 2 ^ 60 * 2 ^ e"
    unfolding power_add [symmetric] by (intro arg_cong [where f = "power 2"], simp add: e quad_unit_bits_def)+
  have "round_mag 52 (fval 112 (quad_mag a)) (2 ^ quad_unit_bits) = int k * 2 ^ 52 + rne_div (?S * 2 ^ e) (2 ^ quad_unit_bits * 2 ^ k)"
    unfolding N by (rule round_mag_exp) (unfold p, use S in \<open>auto intro!: mult_right_mono\<close>)
  also have "rne_div (?S * 2 ^ e) (2 ^ quad_unit_bits * 2 ^ k) = rne_div ?S (2 ^ 60)" unfolding p by (rule rne_div_scale) simp
  finally show ?thesis using assms(1) by (simp add: k_def)
qed

lemma quad_round_subnormal:
  assumes "dstExp \<le> 0" "dstExp = quad_exp a - 15360" "quad_exp a \<noteq> 0"
  shows "round_mag 52 (fval 112 (quad_mag a)) (2 ^ quad_unit_bits) = rne_div (2 ^ 112 + quad_frac a) (2 ^ (60 + nat (1 - dstExp)))"
proof -
  define e where "e = nat (quad_exp a - 1)"
  define h where "h = nat (1 - dstExp)"
  have e: "e + h = 15360" "e \<le> 15359" using assms quad_ranges(3) [of a] by (simp_all add: e_def h_def)
  let ?S = "2 ^ 112 + quad_frac a"
  have N: "fval 112 (quad_mag a) = ?S * 2 ^ e" using quad_value_normal [OF assms(3)] by (simp add: e_def)
  have S: "0 \<le> ?S" "?S < 2 ^ 113" using quad_ranges(5,6) [of a] by simp_all
  have p: "(2::int) ^ quad_unit_bits = 2 ^ (60 + h) * 2 ^ e" 
    unfolding power_add [symmetric] by (intro arg_cong [where f = "power 2"]) (use e in \<open>simp add: quad_unit_bits_def\<close>)
  have "?S * 2 ^ e < 2 ^ 113 * 2 ^ e" using S by simp
  also have "\<dots> \<le> 2 ^ (52 + 1 + 0) * 2 ^ quad_unit_bits"
    unfolding power_add [symmetric] by (intro power_increasing) (use e in \<open>simp_all add: quad_unit_bits_def\<close>)
  finally have "round_mag 52 (?S * 2 ^ e) (2 ^ quad_unit_bits) = int 0 * 2 ^ 52 + rne_div (?S * 2 ^ e) (2 ^ quad_unit_bits * 2 ^ 0)"
    by (intro round_mag_exp) simp_all
  also have "\<dots> = rne_div ?S (2 ^ (60 + h))" unfolding p using rne_div_scale [of "2 ^ e" ?S "2 ^ (60 + h)"] by simp
  finally show ?thesis unfolding N h_def .
qed

lemma quad_round_zero:
  assumes "quad_exp a = 0"
  shows "round_mag 52 (fval 112 (quad_mag a)) (2 ^ quad_unit_bits) = 0"
proof -
  have f: "fval 112 (quad_mag a) = quad_frac a" "quad_frac a < 2 ^ 112" "0 \<le> quad_frac a"
    using assms quad_ranges(5,6) [of a] fval_small [of "quad_mag a" 112] by (simp_all add: quad_mag_split)
  have "(2::int) ^ 113 \<le> 2 ^ quad_unit_bits" by (intro power_increasing) (simp_all add: quad_unit_bits_def)
  then have lt: "2 * quad_frac a < 2 ^ quad_unit_bits" using f by simp
  have "round_mag 52 (quad_frac a) (2 ^ quad_unit_bits) = int 0 * 2 ^ 52 + rne_div (quad_frac a) (2 ^ quad_unit_bits * 2 ^ 0)"
  proof (rule round_mag_exp)
    have "quad_frac a < 1 * 2 ^ quad_unit_bits" using lt f(3) by simp
    also have "\<dots> \<le> 2 ^ (52 + 1 + 0) * 2 ^ quad_unit_bits" by (intro mult_right_mono) simp_all
    finally show "quad_frac a < 2 ^ (52 + 1 + 0) * 2 ^ quad_unit_bits" .
  qed simp_all
  also have "rne_div (quad_frac a) (2 ^ quad_unit_bits * 2 ^ 0) = 0" using lt f(3) by (simp add: rne_div_def)
  finally show ?thesis unfolding f(1) by simp
qed

lemma rne_div_quad_bounds:
  assumes "0 \<le> S" "S < 2 ^ 113"
  shows "0 \<le> rne_div S (2 ^ 60)" "rne_div S (2 ^ 60) \<le> 2 ^ 53" "2 ^ 112 \<le> S \<Longrightarrow> 2 ^ 52 \<le> rne_div S (2 ^ 60)"
  using assms rne_div_ge [of "2 ^ 60" 0 S] rne_div_le [of "2 ^ 60" S "2 ^ 53"] rne_div_ge [of "2 ^ 60" "2 ^ 52" S] by simp_all

text \<open>The normal branch.\<close>

lemma trunc_normal:
  assumes "0 < dstExp" "dstExp < 0x7ff" "dstExp = quad_exp a - 15360"
  shows "uint (round_result (ucast (c_shr (a AND (c_shl 1 127 - 1)) SIG_DROP) -
      c_shl (word_of_int (SRC_EXP_BIAS - DST_EXP_BIAS)) DST_SIG_BITS) ((a AND (c_shl 1 127 - 1)) AND (c_shl 1 SIG_DROP - 1)))
    = round_double a"
proof -
  define x where "x = dstExp * 2 ^ 112 + quad_frac a"
  have M: "quad_mag a = x + 15360 * 2 ^ 112" using assms by (simp add: x_def quad_mag_split left_diff_distrib)
  have x: "0 \<le> x" "x < 2 ^ 123" using assms(1,2) quad_ranges(5,6) [of a] by (simp_all add: x_def)
  have x60: "x div 2 ^ 60 < 2 ^ 63" "0 \<le> x div 2 ^ 60" using int_div_lt [of x "2 ^ 63" "2 ^ 60"] x by simp_all
  have M60: "quad_mag a div 2 ^ 60 = x div 2 ^ 60 + 15360 * 2 ^ 52"
  proof -
    have "quad_mag a = x + (15360 * 2 ^ 52) * 2 ^ 60" unfolding M by simp
    then show ?thesis by (simp only: div_mult_self1) simp
  qed
  have "uint (c_shl (word_of_int (SRC_EXP_BIAS - DST_EXP_BIAS) :: oa_u64) DST_SIG_BITS) = 15360 * 2 ^ 52 mod 2 ^ 64"
    by (simp add: uint_c_shl quad_constants)
  then have r: "uint (ucast (c_shr (a AND (c_shl 1 127 - 1)) SIG_DROP) - c_shl (word_of_int (SRC_EXP_BIAS - DST_EXP_BIAS)) DST_SIG_BITS :: oa_u64)
      = (quad_mag a div 2 ^ 60 - 15360 * 2 ^ 52) mod 2 ^ 64"
    using mod_diff_right_eq [of "quad_mag a div 2 ^ 60" "15360 * 2 ^ 52" "2 ^ 64"]
    by (simp add: uint_word_ariths uint_ucast_64 uint_c_shr quad_fields quad_constants mod_simps)
  also have "\<dots> = x div 2 ^ 60" unfolding M60 using x60 by simp
  finally have r: "uint (ucast (c_shr (a AND (c_shl 1 127 - 1)) SIG_DROP) - c_shl (word_of_int (SRC_EXP_BIAS - DST_EXP_BIAS)) DST_SIG_BITS :: oa_u64)
      = x div 2 ^ 60" .
  have "quad_mag a mod 2 ^ 60 = x mod 2 ^ 60"
  proof -
    have "quad_mag a = x + (15360 * 2 ^ 52) * 2 ^ 60" unfolding M by simp
    then show ?thesis by (simp only: mod_mult_self1)
  qed
  then have rb: "uint ((a AND (c_shl 1 127 - 1)) AND (c_shl 1 SIG_DROP - 1)) = x mod 2 ^ 60"
    using uint_and_shl_mask [of 60 "a AND (c_shl 1 127 - 1)"] by (simp add: quad_fields quad_constants)
  have "x = ((dstExp - 1) * 2 ^ 52) * 2 ^ 60 + (2 ^ 112 + quad_frac a)" by (simp add: x_def left_diff_distrib)
  then have "rne_div x (2 ^ 60) = (dstExp - 1) * 2 ^ 52 + rne_div (2 ^ 112 + quad_frac a) (2 ^ 60)"
    by (simp only:) (rule rne_div_add_even, simp_all)
  moreover have "(dstExp - 1) * 2 ^ 52 + rne_div (2 ^ 112 + quad_frac a) (2 ^ 60) \<le> double_inf"
    using rne_div_quad_bounds(2) [of "2 ^ 112 + quad_frac a"] quad_ranges(5,6) [of a] assms(2) by (simp add: double_inf_def)
  ultimately show ?thesis
    using round_result_rne [OF r rb] x60(1) quad_round_normal [OF assms(1,3)] by (simp add: round_double_def)
qed

lemma trunc_overflow:
  assumes "0x7ff \<le> quad_exp a - 15360"
  shows "round_double a = double_inf"
proof -
  have "2 ^ 52 \<le> rne_div (2 ^ 112 + quad_frac a) (2 ^ 60)"
    using rne_div_quad_bounds(3) [of "2 ^ 112 + quad_frac a"] quad_ranges(5,6) [of a] by simp
  then have "double_inf \<le> round_mag 52 (fval 112 (quad_mag a)) (2 ^ quad_unit_bits)"
    using quad_round_normal [of "quad_exp a - 15360" a] assms by (simp add: double_inf_def)
  then show ?thesis by (simp add: round_double_def)
qed

lemma trunc_subnormal:
  assumes "dstExp \<le> 0" "dstExp = quad_exp a - 15360" "quad_exp a \<noteq> 0" "shift = 1 - dstExp" "shift \<le> 113"
    "significand = (a AND (c_shl 1 SRC_SIG_BITS - 1)) OR c_shl 1 SRC_SIG_BITS"
    "denormalized = c_shr significand shift OR bit_of (c_shl significand (128 - shift) \<noteq> 0)"
  shows "uint (round_result (ucast (c_shr denormalized SIG_DROP)) (denormalized AND (c_shl 1 SIG_DROP - 1))) = round_double a"
proof -
  define S where "S = 2 ^ 112 + quad_frac a"
  define h where "h = nat shift"
  have h: "1 \<le> h" "h \<le> 113" "shift = int h" using assms(1,4,5) by (simp_all add: h_def)
  have S: "uint significand = S"
    using uint_or_exp [of "a AND (c_shl 1 SRC_SIG_BITS - 1)" 112] quad_ranges(6) [of a] quad_fields(2) [of a]
    by (simp add: assms(6) S_def c_shl_def quad_constants)
  have Sr: "0 \<le> S" "S < 2 ^ 113" using quad_ranges(5,6) [of a] by (simp_all add: S_def)
  have sticky: "c_shl significand (128 - shift) \<noteq> 0 \<longleftrightarrow> S mod 2 ^ h \<noteq> 0"
  proof -
    have e: "nat (128 - int h) = 128 - h" "(2::int) ^ 128 = 2 ^ h * 2 ^ (128 - h)" using h by (simp_all flip: power_add)
    have "uint (c_shl significand (128 - shift)) = S * 2 ^ (128 - h) mod (2 ^ h * 2 ^ (128 - h))"
      unfolding h(3) e(2) [symmetric] using h(2) by (simp add: uint_c_shl S e(1))
    also have "\<dots> = S mod 2 ^ h * 2 ^ (128 - h)" by (rule mod_mult_mult2)
    finally show ?thesis by (auto simp: word_uint_eq_iff)
  qed
  have d: "uint denormalized = jam_div S (2 ^ h)"
    unfolding assms(7) uint_or_bit_of sticky using h S by (simp add: uint_c_shr jam_div_def Let_def even_iff_mod_2_eq_zero)
  have db: "0 \<le> jam_div S (2 ^ h)" "jam_div S (2 ^ h) < 2 ^ 113" using jam_div_le [of S 113 h] Sr by simp_all
  then have d60: "jam_div S (2 ^ h) div 2 ^ 60 < 2 ^ 53" "0 \<le> jam_div S (2 ^ h) div 2 ^ 60"
    using int_div_lt [of "jam_div S (2 ^ h)" "2 ^ 53" "2 ^ 60"] by simp_all
  have r: "uint (ucast (c_shr denormalized SIG_DROP) :: oa_u64) = jam_div S (2 ^ h) div 2 ^ 60"
    using d60 by (simp add: uint_ucast_64 uint_c_shr d quad_constants)
  have rb: "uint (denormalized AND (c_shl 1 SIG_DROP - 1)) = jam_div S (2 ^ h) mod 2 ^ 60"
    using uint_and_shl_mask [of 60 denormalized] by (simp add: d quad_constants)
  have "rne_div (jam_div S (2 ^ h)) (2 ^ 60) = rne_div S (2 ^ (60 + h))" by (rule rne_div_jam) simp_all
  moreover have "rne_div (jam_div S (2 ^ h)) (2 ^ 60) \<le> 2 ^ 53" using rne_div_quad_bounds(2) [OF db] .
  ultimately show ?thesis
    using round_result_rne [OF r rb] d60 quad_round_subnormal [OF assms(1-3)]
    by (simp add: round_double_def double_inf_def S_def h_def assms(4))
qed

lemma trunc_tiny:
  assumes "114 \<le> shift" "shift = 1 - (quad_exp a - 15360)" "quad_exp a \<noteq> 0"
  shows "round_double a = 0"
proof -
  define S h where "S = 2 ^ 112 + quad_frac a" and "h = nat shift"
  have S: "0 \<le> S" "S < 2 ^ 113" using quad_ranges(5,6) [of a] by (simp_all add: S_def)
  have "(2::int) ^ 114 \<le> 2 ^ (60 + h)" using assms(1) by (intro power_increasing) (simp_all add: h_def)
  then have "2 * S < 2 ^ (60 + h)" using S by simp
  then have "rne_div S (2 ^ (60 + h)) = 0" using S(1) by (simp add: rne_div_def)
  then show ?thesis using quad_round_subnormal [of "quad_exp a - 15360" a] assms
    by (simp add: round_double_def double_inf_def S_def h_def)
qed

lemma oa_trunctfdf2_bits_cases:
  assumes "quad_exp a \<noteq> 0x7fff"
  obtains r where "oa_trunctfdf2_bits a = r OR c_shl (ucast (c_shr a 127)) 63" "uint r = round_double a"
proof -
  define dstExp where "dstExp = quad_exp a - 15360"
  have inf: "uint (c_shl (word_of_int DST_EXP_MAX :: oa_u64) DST_SIG_BITS) = double_inf"
    by (simp add: uint_c_shl quad_constants double_inf_def)
  note f = quad_fields(1) [of a]
  have c: "SRC_EXP_MAX = 0x7fff" "SRC_EXP_BIAS = 16383" "DST_EXP_BIAS = 1023" "DST_EXP_MAX = 0x7ff" "SRC_SIG_BITS + 1 = 113" by (simp_all add: quad_constants)
  have dst: "quad_exp a - SRC_EXP_BIAS + DST_EXP_BIAS = dstExp" by (simp add: dstExp_def quad_constants)
  consider (zero) "quad_exp a = 0" | (over) "quad_exp a \<noteq> 0" "0x7ff \<le> dstExp" | (normal) "quad_exp a \<noteq> 0" "0 < dstExp" "dstExp < 0x7ff"
    | (tiny) "quad_exp a \<noteq> 0" "dstExp \<le> 0" "113 < 1 - dstExp" | (sub) "quad_exp a \<noteq> 0" "dstExp \<le> 0" "1 - dstExp \<le> 113" by linarith
  then show ?thesis
  proof cases
    case zero
    have "round_double a = 0" using quad_round_zero [OF zero] by (simp add: round_double_def double_inf_def)
    then show ?thesis using that [of 0] zero unfolding oa_trunctfdf2_bits_def Let_def f dst by (simp add: c)
  next
    case over
    have "oa_trunctfdf2_bits a = c_shl (word_of_int DST_EXP_MAX) DST_SIG_BITS OR c_shl (ucast (c_shr a 127)) 63"
      unfolding oa_trunctfdf2_bits_def Let_def f dst using over assms by (simp add: c)
    then show ?thesis using that trunc_overflow [of a] over(2) inf by (simp add: dstExp_def)
  next
    case normal
    show ?thesis
    proof (rule that [OF _ trunc_normal [OF normal(2,3) dstExp_def]])
      show "oa_trunctfdf2_bits a = round_result (ucast (c_shr (a AND (c_shl 1 127 - 1)) SIG_DROP) -
          c_shl (word_of_int (SRC_EXP_BIAS - DST_EXP_BIAS)) DST_SIG_BITS) ((a AND (c_shl 1 127 - 1)) AND (c_shl 1 SIG_DROP - 1))
        OR c_shl (ucast (c_shr a 127)) 63"
        unfolding oa_trunctfdf2_bits_def Let_def f dst using normal assms by (simp add: c)
    qed
  next
    case tiny
    have "round_double a = 0" using trunc_tiny [of "1 - dstExp" a] tiny by (simp add: dstExp_def)
    then show ?thesis using that [of 0] tiny assms unfolding oa_trunctfdf2_bits_def Let_def f dst by (simp add: c)
  next
    case sub
    define sig where "sig = (a AND (c_shl 1 SRC_SIG_BITS - 1)) OR c_shl 1 SRC_SIG_BITS"
    define den where "den = c_shr sig (1 - dstExp) OR bit_of (c_shl sig (128 - (1 - dstExp)) \<noteq> 0)"
    have "oa_trunctfdf2_bits a = round_result (ucast (c_shr den SIG_DROP)) (den AND (c_shl 1 SIG_DROP - 1)) OR c_shl (ucast (c_shr a 127)) 63"
      unfolding oa_trunctfdf2_bits_def Let_def f dst den_def sig_def using sub assms by (simp add: c)
    then show ?thesis using that trunc_subnormal [OF sub(2) dstExp_def sub(1) refl sub(3) sig_def den_def] by blast
  qed
qed

lemma round_double_bounds: "0 \<le> round_double a" "round_double a < 2 ^ 63"
  using round_mag_nonneg [of "2 ^ quad_unit_bits" "fval 112 (quad_mag a)" 52] fval_nonneg [OF quad_ranges(1)]
  by (simp_all add: round_double_def double_inf_def)

section \<open>Properties\<close>

text \<open>
  C22. The conversion from binary128 to binary64 is correctly rounded: for every finite argument the
  result has the sign of the argument and the pattern of its value rounded to nearest, ties to even,
  with gradual underflow, zero below half the smallest subnormal and infinity on overflow.
\<close>

theorem trunctfdf2_correct:
  assumes "quad_exp a \<noteq> 0x7fff"
  shows "uint (oa_trunctfdf2_bits a) = (if quad_sign a then 2 ^ 63 else 0) + round_double a"
proof -
  obtain r where r: "oa_trunctfdf2_bits a = r OR c_shl (ucast (c_shr a 127)) 63" "uint r = round_double a"
    by (rule oa_trunctfdf2_bits_cases [OF assms])
  then show ?thesis using uint_or_sign [of r a] round_double_bounds(2) [of a] by simp
qed

theorem trunctfdf2_correct_witness:
  "uint (oa_trunctfdf2_bits 0xBFFF0000000000000800000000000001) = 2 ^ 63 + round_double 0xBFFF0000000000000800000000000001 \<and>
   oa_trunctfdf2_bits 0xBFFF0000000000000800000000000001 = 0xBFF0000000000001"
proof -
  have "quad_exp 0xBFFF0000000000000800000000000001 \<noteq> 0x7fff" "quad_sign 0xBFFF0000000000000800000000000001" by code_simp+
  moreover have "oa_trunctfdf2_bits 0xBFFF0000000000000800000000000001 = 0xBFF0000000000001" by code_simp
  ultimately show ?thesis using trunctfdf2_correct [of "0xBFFF0000000000000800000000000001"] by simp
qed

text \<open>
  No binary64 number is nearer: the magnitude of a result below infinity is at least as close to
  the magnitude of the argument as that of every other pattern \<open>c\<close>.
\<close>

theorem trunctfdf2_nearest:
  assumes "quad_exp a \<noteq> 0x7fff" "uint (oa_trunctfdf2_bits a) mod 2 ^ 63 \<noteq> double_inf" "0 \<le> c"
  shows "\<bar>fval 52 (uint (oa_trunctfdf2_bits a) mod 2 ^ 63) * 2 ^ quad_unit_bits - fval 112 (quad_mag a)\<bar>
    \<le> \<bar>fval 52 c * 2 ^ quad_unit_bits - fval 112 (quad_mag a)\<bar>"
proof -
  obtain r where r: "oa_trunctfdf2_bits a = r OR c_shl (ucast (c_shr a 127)) 63" "uint r = round_double a"
    by (rule oa_trunctfdf2_bits_cases [OF assms(1)])
  note b = round_double_bounds [of a]
  have "uint (oa_trunctfdf2_bits a) mod 2 ^ 63 = round_double a"
    using uint_or_sign [of r a] r b by (cases "quad_sign a") simp_all
  moreover have "round_double a = round_mag 52 (fval 112 (quad_mag a)) (2 ^ quad_unit_bits)"
    using assms(2) calculation by (simp add: round_double_def min_def split: if_splits)
  ultimately show ?thesis
    using round_mag_nearest [of "2 ^ quad_unit_bits" "fval 112 (quad_mag a)" 52 c] fval_nonneg [OF quad_ranges(1)] assms(3) by simp
qed

theorem trunctfdf2_nearest_witness:
  "\<bar>fval 52 (uint (oa_trunctfdf2_bits 0x3FFF0000000000000800000000000001) mod 2 ^ 63) * 2 ^ quad_unit_bits
      - fval 112 (quad_mag 0x3FFF0000000000000800000000000001)\<bar>
    \<le> \<bar>fval 52 0x3FF0000000000000 * 2 ^ quad_unit_bits - fval 112 (quad_mag 0x3FFF0000000000000800000000000001)\<bar>"
proof (rule trunctfdf2_nearest)
  show "quad_exp 0x3FFF0000000000000800000000000001 \<noteq> 0x7fff" by code_simp
  show "uint (oa_trunctfdf2_bits 0x3FFF0000000000000800000000000001) mod 2 ^ 63 \<noteq> double_inf" by code_simp
qed simp

text \<open>
  Infinities and NaNs: an infinity becomes the infinity of the same sign, and a NaN becomes a quiet
  NaN of the same sign that keeps the upper payload bits.
\<close>

theorem trunctfdf2_special:
  assumes "quad_exp a = 0x7fff"
  shows "uint (oa_trunctfdf2_bits a) = (if quad_sign a then 2 ^ 63 else 0) + double_inf +
    (if quad_frac a = 0 then 0 else 2 ^ 51 + quad_frac a div 2 ^ 60 mod 2 ^ 51)"
proof -
  note f = quad_fields(1,2) [of a]
  have c: "SRC_EXP_MAX = 0x7fff" by (simp add: quad_constants)
  have sig0: "a AND (c_shl 1 SRC_SIG_BITS - 1) = 0 \<longleftrightarrow> quad_frac a = 0" using f(2) by (simp add: word_uint_eq_iff)
  show ?thesis
  proof (cases "quad_frac a = 0")
    case True
    have "oa_trunctfdf2_bits a = c_shl (word_of_int DST_EXP_MAX) DST_SIG_BITS OR c_shl (ucast (c_shr a 127)) 63"
      unfolding oa_trunctfdf2_bits_def Let_def f(1) sig0 using assms True by (simp add: c)
    then show ?thesis using True uint_or_sign [of "c_shl (word_of_int DST_EXP_MAX) DST_SIG_BITS" a]
      by (simp add: uint_c_shl quad_constants double_inf_def)
  next
    case False
    define p where "p = (ucast (c_shr (a AND (c_shl 1 SRC_SIG_BITS - 1)) SIG_DROP) AND (c_shl 1 (DST_SIG_BITS - 1) - 1) :: oa_u64)"
    have "oa_trunctfdf2_bits a = (c_shl (word_of_int DST_EXP_MAX) DST_SIG_BITS OR c_shl 1 (DST_SIG_BITS - 1) OR p) OR c_shl (ucast (c_shr a 127)) 63"
      unfolding oa_trunctfdf2_bits_def Let_def f(1) sig0 p_def using assms False by (simp add: c)
    moreover have "uint p = quad_frac a div 2 ^ 60 mod 2 ^ 51"
    proof -
      have "uint p = uint (ucast (c_shr (a AND (c_shl 1 SRC_SIG_BITS - 1)) SIG_DROP) :: oa_u64) mod 2 ^ 51"
        using uint_and_shl_mask [of 51 "ucast (c_shr (a AND (c_shl 1 SRC_SIG_BITS - 1)) SIG_DROP) :: oa_u64"]
        by (simp add: p_def quad_constants)
      then show ?thesis using f(2) by (simp add: uint_ucast_64 uint_c_shr quad_constants mod_mod_cancel)
    qed
    moreover have "uint (c_shl (word_of_int DST_EXP_MAX) DST_SIG_BITS OR c_shl 1 (DST_SIG_BITS - 1) OR p) = double_inf + 2 ^ 51 + uint p"
    proof -
      have "uint p < 2 ^ 51" using calculation(2) by simp
      then have "uint (p OR push_bit 51 1) = uint p + 2 ^ 51" by (rule uint_or_exp) simp
      moreover have "c_shl (word_of_int DST_EXP_MAX) DST_SIG_BITS OR c_shl 1 (DST_SIG_BITS - 1) OR p = push_bit 52 0x7ff OR (p OR push_bit 51 1)"
        by (simp add: c_shl_def quad_constants or.commute)
      moreover have "uint (push_bit 52 (0x7ff :: oa_u64) OR (p OR push_bit 51 1)) = 0x7ff * 2 ^ 52 + uint (p OR push_bit 51 1)"
        using uint_push_or [of "p OR push_bit 51 1" 52 "0x7ff :: oa_u64"] calculation(1) \<open>uint p < 2 ^ 51\<close> by simp
      ultimately show ?thesis by (simp add: double_inf_def)
    qed
    ultimately show ?thesis
      using False uint_or_sign [of "c_shl (word_of_int DST_EXP_MAX) DST_SIG_BITS OR c_shl 1 (DST_SIG_BITS - 1) OR p" a]
      by (simp add: double_inf_def)
  qed
qed

theorem trunctfdf2_special_witness:
  "uint (oa_trunctfdf2_bits 0xFFFF0000000000000000000000000001) = 2 ^ 63 + double_inf + 2 ^ 51"
proof -
  have "quad_exp 0xFFFF0000000000000000000000000001 = 0x7fff" "quad_sign 0xFFFF0000000000000000000000000001"
    "quad_frac 0xFFFF0000000000000000000000000001 = 1" by code_simp+
  then show ?thesis using trunctfdf2_special [of "0xFFFF0000000000000000000000000001"] by simp
qed

end
