(* ===== verification/Riscv_String.thy ===== *)
theory Riscv_String
  imports C_Prelude "HOL-Library.Monad_Syntax"
begin

text \<open>
  The string routines of \<open>newlib/libc/machine/riscv\<close> for a 32-bit target (\<open>sizeof (long)\<close> is 4), in
  the versions optimised for speed: \<open>strlen.c\<close>, \<open>strcpy.c\<close>, \<open>strcmp.c\<close>, \<open>memcpy.c\<close>, \<open>memset.c\<close>, \<open>strncpy.c\<close> and the null
  detection of \<open>sys/string.h\<close>.

  Memory is a partial map from addresses to bytes; an access outside its domain makes the routine
  \<open>None\<close>, and so does an access to a \<open>long\<close> at an address that is not a multiple of four, so that a result
  \<open>Some\<close> shows that every access was aligned and touched only mapped bytes.  A \<open>long\<close> is read and written
  as four bytes, least significant first.  Addresses are natural numbers, and the pointers that run through an
  object do not wrap around the address space; the one subtraction that can leave the object, \<open>lend - 8\<close> in
  \<open>memcpy\<close>, is taken modulo \<open>2 ^ 32\<close> as on the machine.
\<close>

section \<open>Memory\<close>

type_synonym byte = "8 word"
type_synonym mem = "nat \<rightharpoonup> byte"

definition unaligned :: "nat \<Rightarrow> bool" where
  "unaligned p \<longleftrightarrow> p mod 4 \<noteq> 0"

definition load8 :: "mem \<Rightarrow> nat \<Rightarrow> byte option" where
  "load8 m p = m p"

definition store8 :: "mem \<Rightarrow> nat \<Rightarrow> byte \<Rightarrow> mem option" where
  "store8 m p v = (if m p = None then None else Some (m(p \<mapsto> v)))"

definition load32 :: "mem \<Rightarrow> nat \<Rightarrow> bits32 option" where
  "load32 m p = (if unaligned p then None else do {
     b0 \<leftarrow> m p; b1 \<leftarrow> m (p + 1); b2 \<leftarrow> m (p + 2); b3 \<leftarrow> m (p + 3);
     Some (ucast b0 OR push_bit 8 (ucast b1) OR push_bit 16 (ucast b2) OR push_bit 24 (ucast b3)) })"

definition store32 :: "mem \<Rightarrow> nat \<Rightarrow> bits32 \<Rightarrow> mem option" where
  "store32 m p w = (if unaligned p then None else do {
     m \<leftarrow> store8 m p (ucast w);
     m \<leftarrow> store8 m (p + 1) (ucast (drop_bit 8 w));
     m \<leftarrow> store8 m (p + 2) (ucast (drop_bit 16 w));
     store8 m (p + 3) (ucast (drop_bit 24 w)) })"

section \<open>Null detection and \<open>strlen\<close>\<close>

definition libc_detect_null :: "bits32 \<Rightarrow> bits32" where
  "libc_detect_null w = (let mask = 0x7f7f7f7f in NOT (((w AND mask) + mask) OR w OR mask))"

partial_function (option) strlen_head :: "mem \<Rightarrow> nat \<Rightarrow> nat \<Rightarrow> (nat + nat) option" where
  "strlen_head m start str = do {
     ch \<leftarrow> load8 m str;
     let str = str + 1 in
     if ch = 0 then Some (Inl (str - start - 1))
     else if unaligned str then strlen_head m start str
     else Some (Inr str) }"

partial_function (option) strlen_words :: "mem \<Rightarrow> nat \<Rightarrow> nat option" where
  "strlen_words m ls = do {
     w \<leftarrow> load32 m ls;
     if libc_detect_null w = 0 then strlen_words m (ls + 4) else Some (ls + 4) }"

definition strlen :: "mem \<Rightarrow> nat \<Rightarrow> nat option" where
  "strlen m str = do {
     let start = str;
     r \<leftarrow> (if unaligned str then strlen_head m start str else Some (Inr str));
     case r of Inl n \<Rightarrow> Some n
     | Inr str \<Rightarrow> do {
         str \<leftarrow> strlen_words m str;
         let ret = str - start;
         c0 \<leftarrow> load8 m (str - 4); c1 \<leftarrow> load8 m (str - 3); c2 \<leftarrow> load8 m (str - 2); c3 \<leftarrow> load8 m (str - 1);
         Some (if c0 = 0 then ret + 0 - 4 else if c1 = 0 then ret + 1 - 4
               else if c2 = 0 then ret + 2 - 4 else ret + 3 - 4) } }"

section \<open>\<open>strcpy\<close>\<close>

partial_function (option) strcpy_words :: "mem \<Rightarrow> nat \<Rightarrow> nat \<Rightarrow> (mem \<times> nat \<times> nat) option" where
  "strcpy_words m ldst lsrc = do {
     w \<leftarrow> load32 m lsrc;
     if libc_detect_null w = 0
     then do { m \<leftarrow> store32 m ldst w; strcpy_words m (ldst + 4) (lsrc + 4) }
     else Some (m, ldst, lsrc) }"

partial_function (option) strcpy_bytes :: "mem \<Rightarrow> nat \<Rightarrow> nat \<Rightarrow> mem option" where
  "strcpy_bytes m dst src = do {
     ch \<leftarrow> load8 m src;
     m \<leftarrow> store8 m dst ch;
     if ch \<noteq> 0 then strcpy_bytes m (dst + 1) (src + 1) else Some m }"

definition strcpy :: "mem \<Rightarrow> nat \<Rightarrow> nat \<Rightarrow> (nat \<times> mem) option" where
  "strcpy m dst src = do {
     let dst0 = dst;
     if \<not> unaligned dst \<and> \<not> unaligned src
     then do {
       (m, dst, src) \<leftarrow> strcpy_words m dst src;
       c0 \<leftarrow> load8 m src; c1 \<leftarrow> load8 m (src + 1); c2 \<leftarrow> load8 m (src + 2);
       m \<leftarrow> store8 m dst c0;
       if c0 = 0 then Some (dst0, m) else do {
       m \<leftarrow> store8 m (dst + 1) c1;
       if c1 = 0 then Some (dst0, m) else do {
       c3 \<leftarrow> load8 m (src + 3);
       m \<leftarrow> store8 m (dst + 2) c2;
       if c2 = 0 then Some (dst0, m) else do {
       m \<leftarrow> store8 m (dst + 3) 0;
       Some (dst0, m) }}}}
     else do { m \<leftarrow> strcpy_bytes m dst src; Some (dst0, m) } }"

section \<open>\<open>strcmp\<close>\<close>

partial_function (option) strcmp_pairs :: "mem \<Rightarrow> byte \<Rightarrow> nat \<Rightarrow> nat \<Rightarrow> int option" where
  "strcmp_pairs m c1a us1 us2 = do {
     c1b \<leftarrow> load8 m us2;
     let us1 = us1 + 2;
     if c1a = 0 then Some (uint c1a - uint c1b) else do {
     c2a \<leftarrow> load8 m (us1 - 1);
     if c1a \<noteq> c1b then Some (uint c1a - uint c1b) else do {
     c2b \<leftarrow> load8 m (us2 + 1);
     let us2 = us2 + 2;
     if c2a = 0 then Some (uint c2a - uint c2b) else do {
     c1a \<leftarrow> load8 m us1;
     if c2a \<noteq> c2b then Some (uint c2a - uint c2b) else strcmp_pairs m c1a us1 us2 }}}}"

partial_function (option) strcmp_bytes :: "mem \<Rightarrow> nat \<Rightarrow> nat \<Rightarrow> int option" where
  "strcmp_bytes m us1 us2 = do {
     c1a \<leftarrow> load8 m us1;
     c1b \<leftarrow> load8 m us2;
     if c1a \<noteq> 0 \<and> c1a = c1b then strcmp_bytes m (us1 + 1) (us2 + 1) else Some (uint c1a - uint c1b) }"

definition strcmp :: "mem \<Rightarrow> nat \<Rightarrow> nat \<Rightarrow> int option" where
  "strcmp m s1 s2 =
     (if even s1 \<and> even s2 then do { c1a \<leftarrow> load8 m s1; strcmp_pairs m c1a s1 s2 }
      else strcmp_bytes m s1 s2)"

section \<open>\<open>memcpy\<close>\<close>

text \<open>\<open>BODY\<close> with \<open>char\<close> and with \<open>long\<close>.\<close>

definition BODY8 :: "mem \<Rightarrow> nat \<Rightarrow> nat \<Rightarrow> (mem \<times> nat \<times> nat) option" where
  "BODY8 m a b = do { tt \<leftarrow> load8 m b; m \<leftarrow> store8 m a tt; Some (m, a + 1, b + 1) }"

definition BODY32 :: "mem \<Rightarrow> nat \<Rightarrow> nat \<Rightarrow> (mem \<times> nat \<times> nat) option" where
  "BODY32 m a b = do { tt \<leftarrow> load32 m b; m \<leftarrow> store32 m a tt; Some (m, a + 4, b + 4) }"

partial_function (option) memcpy_small :: "mem \<Rightarrow> nat \<Rightarrow> nat \<Rightarrow> nat \<Rightarrow> mem option" where
  "memcpy_small m a b end' =
     (if a < end' then do { (m, a, b) \<leftarrow> BODY8 m a b; memcpy_small m a b end' } else Some m)"

partial_function (option) memcpy_align :: "mem \<Rightarrow> nat \<Rightarrow> nat \<Rightarrow> (mem \<times> nat \<times> nat) option" where
  "memcpy_align m a b =
     (if unaligned a then do { (m, a, b) \<leftarrow> BODY8 m a b; memcpy_align m a b } else Some (m, a, b))"

fun load_longs :: "mem \<Rightarrow> nat \<Rightarrow> nat \<Rightarrow> bits32 list option" where
  "load_longs m lb 0 = Some []"
| "load_longs m lb (Suc n) = do { b \<leftarrow> load32 m lb; bs \<leftarrow> load_longs m (lb + 4) n; Some (b # bs) }"

fun store_longs :: "mem \<Rightarrow> nat \<Rightarrow> bits32 list \<Rightarrow> mem option" where
  "store_longs m la [] = Some m"
| "store_longs m la (b # bs) = do { m \<leftarrow> store32 m la b; store_longs m (la + 4) bs }"

text \<open>\<open>lend - 8\<close> is 32 bytes below \<open>lend\<close>; for a \<open>lend\<close> in the first 32 bytes it wraps to the end of memory.\<close>

definition address_minus :: "nat \<Rightarrow> nat \<Rightarrow> nat" where
  "address_minus p k = (p + 2 ^ 32 - k) mod 2 ^ 32"

partial_function (option) memcpy_unrolled :: "mem \<Rightarrow> nat \<Rightarrow> nat \<Rightarrow> nat \<Rightarrow> (mem \<times> nat \<times> nat) option" where
  "memcpy_unrolled m la lb lend =
     (if la < address_minus lend 32
      then do {
        bs \<leftarrow> load_longs m lb 9;
        m \<leftarrow> store_longs m la bs;
        memcpy_unrolled m (la + 36) (lb + 36) lend }
      else Some (m, la, lb))"

partial_function (option) memcpy_words :: "mem \<Rightarrow> nat \<Rightarrow> nat \<Rightarrow> nat \<Rightarrow> (mem \<times> nat \<times> nat) option" where
  "memcpy_words m la lb lend =
     (if la < lend then do { (m, la, lb) \<leftarrow> BODY32 m la lb; memcpy_words m la lb lend } else Some (m, la, lb))"

definition memcpy :: "mem \<Rightarrow> nat \<Rightarrow> nat \<Rightarrow> nat \<Rightarrow> (nat \<times> mem) option" where
  "memcpy m aa bb n = do {
     let a = aa; let b = bb; let end' = a + n;
     if a mod 4 \<noteq> b mod 4 \<or> n < 4
     then do { m \<leftarrow> memcpy_small m a b end'; Some (aa, m) }
     else do {
       (m, a, b) \<leftarrow> memcpy_align m a b;
       let lend = end' - end' mod 4;
       (m, la, lb) \<leftarrow> memcpy_unrolled m a b lend;
       (m, la, lb) \<leftarrow> memcpy_words m la lb lend;
       if la < end' then do { m \<leftarrow> memcpy_small m la lb end'; Some (aa, m) } else Some (aa, m) } }"

section \<open>\<open>memset\<close>\<close>

definition LBLOCKSIZE :: nat where "LBLOCKSIZE = 4"

partial_function (option) memset_align :: "mem \<Rightarrow> nat \<Rightarrow> byte \<Rightarrow> nat \<Rightarrow> nat \<Rightarrow> (mem \<times> nat \<times> nat) option" where
  "memset_align m s c n u =
     (if u < LBLOCKSIZE
      then do { m \<leftarrow> store8 m s c; memset_align m (s + 1) c (n - 1) (u + 1) }
      else Some (m, s, n))"

definition memset_buffer :: "byte \<Rightarrow> bits32" where
  "memset_buffer c =
     (let buffer = ucast c
      in if buffer \<noteq> 0
         then let buffer = buffer OR push_bit 8 buffer in buffer OR push_bit 16 buffer
         else buffer)"

fun memset_words :: "mem \<Rightarrow> nat \<Rightarrow> bits32 \<Rightarrow> nat \<Rightarrow> (mem \<times> nat) option" where
  "memset_words m aligned_addr buffer 0 = Some (m, aligned_addr)"
| "memset_words m aligned_addr buffer (Suc iter) = do {
     m \<leftarrow> store32 m aligned_addr buffer;
     m \<leftarrow> store32 m (aligned_addr + 4) buffer;
     memset_words m (aligned_addr + 8) buffer iter }"

fun memset_bytes :: "mem \<Rightarrow> nat \<Rightarrow> byte \<Rightarrow> nat \<Rightarrow> mem option" where
  "memset_bytes m s c 0 = Some m"
| "memset_bytes m s c (Suc n) = do { m \<leftarrow> store8 m s c; memset_bytes m (s + 1) c n }"

definition memset :: "mem \<Rightarrow> nat \<Rightarrow> bits32 \<Rightarrow> nat \<Rightarrow> (nat \<times> mem) option" where
  "memset m s c n = do {
     let ch = ucast c;
     (m, s', n) \<leftarrow>
       (if \<not> n < LBLOCKSIZE * 4
        then do {
          let u = s mod LBLOCKSIZE;
          (m, s, n) \<leftarrow> (if u \<noteq> 0 then memset_align m s ch n u else Some (m, s, n));
          let buffer = memset_buffer ch;
          (m, aligned_addr) \<leftarrow> memset_words m s buffer (n div (2 * LBLOCKSIZE));
          let n = n mod (2 * LBLOCKSIZE);
          if LBLOCKSIZE \<le> n
          then do { m \<leftarrow> store32 m aligned_addr buffer; Some (m, aligned_addr + 4, n - LBLOCKSIZE) }
          else Some (m, aligned_addr, n) }
        else Some (m, s, n));
     m \<leftarrow> memset_bytes m s' ch n;
     Some (s, m) }"

section \<open>\<open>strncpy\<close>\<close>

definition UNROLL_FACTOR :: nat where "UNROLL_FACTOR = 4"

definition store16 :: "mem \<Rightarrow> nat \<Rightarrow> 16 word \<Rightarrow> mem option" where
  "store16 m p w = (if odd p then None else do {
     m \<leftarrow> store8 m p (ucast w);
     store8 m (p + 1) (ucast (drop_bit 8 w)) })"

text \<open>The loops \<open>while (dst != end) *dst++ = '\0'\<close>.\<close>

partial_function (option) zero_until :: "mem \<Rightarrow> nat \<Rightarrow> nat \<Rightarrow> mem option" where
  "zero_until m dst end' =
     (if dst \<noteq> end' then do { m \<leftarrow> store8 m dst 0; zero_until m (dst + 1) end' } else Some m)"

text \<open>The bytes before the source is aligned: \<open>Inl\<close> when the terminator was among them.\<close>

partial_function (option) strncpy_odd :: "mem \<Rightarrow> nat \<Rightarrow> nat \<Rightarrow> nat \<Rightarrow> (mem + mem \<times> nat \<times> nat \<times> nat) option" where
  "strncpy_odd m dst src count =
     (if src mod UNROLL_FACTOR \<noteq> 0 \<and> 0 < count
      then do {
        ch \<leftarrow> load8 m src;
        m \<leftarrow> store8 m dst ch;
        if ch = 0 then do { m \<leftarrow> zero_until m (dst + 1) (dst + 1 + (count - 1)); Some (Inl m) }
        else strncpy_odd m (dst + 1) (src + 1) (count - 1) }
      else Some (Inr (m, dst, src, count)))"

text \<open>The unrolled loop: \<open>Inl\<close> with \<open>k\<close> is the jump to \<open>found_null\<close>\<open>k\<close>, \<open>Inr\<close> the end of the loop.\<close>

partial_function (option) strncpy_unrolled :: "mem \<Rightarrow> nat \<Rightarrow> nat \<Rightarrow> nat \<Rightarrow> (mem \<times> nat \<times> nat \<times> nat + mem \<times> nat \<times> nat) option" where
  "strncpy_unrolled m dst src count = do {
     ch0 \<leftarrow> load8 m src; ch1 \<leftarrow> load8 m (src + 1); ch2 \<leftarrow> load8 m (src + 2); ch3 \<leftarrow> load8 m (src + 3);
     m \<leftarrow> store8 m dst ch0;
     if ch0 = 0 then Some (Inl (m, dst, count - UNROLL_FACTOR, 0)) else do {
     m \<leftarrow> store8 m (dst + 1) ch1;
     if ch1 = 0 then Some (Inl (m, dst, count - UNROLL_FACTOR, 1)) else do {
     m \<leftarrow> store8 m (dst + 2) ch2;
     if ch2 = 0 then Some (Inl (m, dst, count - UNROLL_FACTOR, 2)) else do {
     m \<leftarrow> store8 m (dst + 3) ch3;
     if ch3 = 0 then Some (Inl (m, dst, count - UNROLL_FACTOR, 3))
     else if count - UNROLL_FACTOR \<noteq> 0
     then strncpy_unrolled m (dst + UNROLL_FACTOR) (src + UNROLL_FACTOR) (count - UNROLL_FACTOR)
     else Some (Inr (m, dst + UNROLL_FACTOR, src + UNROLL_FACTOR)) }}}}"

text \<open>The bytes after the unrolled loop.\<close>

partial_function (option) strncpy_tail :: "mem \<Rightarrow> nat \<Rightarrow> nat \<Rightarrow> nat \<Rightarrow> mem option" where
  "strncpy_tail m dst src end' =
     (if dst \<noteq> end'
      then do {
        ch \<leftarrow> load8 m src;
        m \<leftarrow> store8 m dst ch;
        if ch = 0 then zero_until m (dst + 1) end' else strncpy_tail m (dst + 1) (src + 1) end' }
      else Some m)"

text \<open>The zero fill after \<open>found_null3\<close>.\<close>

partial_function (option) strncpy_fill_align :: "mem \<Rightarrow> nat \<Rightarrow> nat \<Rightarrow> (mem \<times> nat \<times> nat) option" where
  "strncpy_fill_align m dst count =
     (if count \<noteq> 0 \<and> unaligned dst
      then do { m \<leftarrow> store8 m dst 0; strncpy_fill_align m (dst + 1) (count - 1) }
      else Some (m, dst, count))"

partial_function (option) strncpy_fill_words :: "mem \<Rightarrow> nat \<Rightarrow> nat \<Rightarrow> (mem \<times> nat \<times> nat) option" where
  "strncpy_fill_words m dst count =
     (if UNROLL_FACTOR * 4 \<le> count
      then do {
        m \<leftarrow> store32 m dst 0;
        m \<leftarrow> store32 m (dst + 4) 0;
        m \<leftarrow> store32 m (dst + 8) 0;
        m \<leftarrow> store32 m (dst + 12) 0;
        strncpy_fill_words m (dst + UNROLL_FACTOR * 4) (count - UNROLL_FACTOR * 4) }
      else Some (m, dst, count))"

definition strncpy_fill :: "mem \<Rightarrow> nat \<Rightarrow> nat \<Rightarrow> mem option" where
  "strncpy_fill m dst count = do {
     (m, dst, count) \<leftarrow> strncpy_fill_align m dst count;
     (m, dst, count) \<leftarrow> strncpy_fill_words m dst count;
     (m, dst, count) \<leftarrow>
       (if 2 * 4 \<le> count
        then do { m \<leftarrow> store32 m dst 0; m \<leftarrow> store32 m (dst + 4) 0; Some (m, dst + 8, count - 8) }
        else Some (m, dst, count));
     (m, dst, count) \<leftarrow>
       (if 4 \<le> count then do { m \<leftarrow> store32 m dst 0; Some (m, dst + 4, count - 4) } else Some (m, dst, count));
     (m, dst, count) \<leftarrow>
       (if 2 \<le> count then do { m \<leftarrow> store16 m dst 0; Some (m, dst + 2, count - 2) } else Some (m, dst, count));
     if count \<noteq> 0 then store8 m dst 0 else Some m }"

definition strncpy :: "mem \<Rightarrow> nat \<Rightarrow> nat \<Rightarrow> nat \<Rightarrow> (nat \<times> mem) option" where
  "strncpy m dst0 src0 count = do {
     r \<leftarrow> strncpy_odd m dst0 src0 count;
     case r of Inl m \<Rightarrow> Some (dst0, m)
     | Inr (m, dst, src, count) \<Rightarrow>
         if 4 \<le> count
         then do {
           let odd_bytes = count mod UNROLL_FACTOR;
           r \<leftarrow> strncpy_unrolled m dst src (count - odd_bytes);
           case r of
             Inl (m, dst, count, k) \<Rightarrow> do {
               m \<leftarrow> strncpy_fill m (dst + UNROLL_FACTOR - (3 - k)) (count + (3 - k) + odd_bytes);
               Some (dst0, m) }
           | Inr (m, dst, src) \<Rightarrow> do { m \<leftarrow> strncpy_tail m dst src (dst + odd_bytes); Some (dst0, m) } }
         else do { m \<leftarrow> strncpy_tail m dst src (dst + count); Some (dst0, m) } }"

end
