(* ===== verification/Riscv_String_Correct.thy ===== *)
theory Riscv_String_Correct
  imports Riscv_String
begin

text \<open>
  Correctness of the string routines of \<open>Riscv_String\<close>.  Each of them terminates, touches only mapped
  bytes (an unmapped access would make it \<open>None\<close>) and has the effect the C standard asks for; what is asked
  of the memory is what the word-wise loops really read: a routine that scans for the terminator a word
  at a time reads the rest of the word in which the string ends.
\<close>

section \<open>Bytes of a word\<close>

definition word_of_bytes :: "byte \<Rightarrow> byte \<Rightarrow> byte \<Rightarrow> byte \<Rightarrow> bits32" where
  "word_of_bytes b0 b1 b2 b3 = ucast b0 OR push_bit 8 (ucast b1) OR push_bit 16 (ucast b2) OR push_bit 24 (ucast b3)"

lemma bytes_of_word:
  "ucast (word_of_bytes b0 b1 b2 b3) = b0" "ucast (drop_bit 8 (word_of_bytes b0 b1 b2 b3)) = b1"
  "ucast (drop_bit 16 (word_of_bytes b0 b1 b2 b3)) = b2" "ucast (drop_bit 24 (word_of_bytes b0 b1 b2 b3)) = b3"
  by (rule bit_word_eqI; auto simp: word_of_bytes_def bit_simps dest: bit_imp_le_length)+

lemma uint_word_of_bytes:
  "uint (word_of_bytes b0 b1 b2 b3) = uint b0 + 2 ^ 8 * (uint b1 + 2 ^ 8 * (uint b2 + 2 ^ 8 * uint b3))"
proof -
  have b: "uint b0 < 2 ^ 8" "uint b1 < 2 ^ 8" "uint b2 < 2 ^ 8" "uint b3 < 2 ^ 8"
    using uint_lt2p [of b0] uint_lt2p [of b1] uint_lt2p [of b2] uint_lt2p [of b3] by simp_all
  have u: "uint (ucast b :: bits32) = uint b" for b :: byte by (rule uint_up_ucast) (simp add: is_up)
  have "word_of_bytes b0 b1 b2 b3 = push_bit 24 (ucast b3) OR (push_bit 16 (ucast b2) OR (push_bit 8 (ucast b1) OR ucast b0))"
    unfolding word_of_bytes_def by (rule bit_word_eqI) (auto simp: bit_or_iff)
  moreover have 1: "uint (push_bit 8 (ucast b1) OR ucast b0 :: bits32) = uint b1 * 2 ^ 8 + uint b0"
    using b by (subst uint_push_or) (simp_all add: u)
  moreover have 2: "uint (push_bit 16 (ucast b2) OR (push_bit 8 (ucast b1) OR ucast b0) :: bits32) = uint b2 * 2 ^ 16 + (uint b1 * 2 ^ 8 + uint b0)"
    using b by (subst uint_push_or) (simp_all add: u 1)
  moreover have "uint (push_bit 24 (ucast b3) OR (push_bit 16 (ucast b2) OR (push_bit 8 (ucast b1) OR ucast b0)) :: bits32)
      = uint b3 * 2 ^ 24 + (uint b2 * 2 ^ 16 + (uint b1 * 2 ^ 8 + uint b0))"
    using b by (subst uint_push_or) (simp_all add: u 2)
  ultimately show ?thesis by simp
qed

lemma load32_bytes:
  "\<not> unaligned p \<Longrightarrow> m p = Some b0 \<Longrightarrow> m (p + 1) = Some b1 \<Longrightarrow> m (p + 2) = Some b2 \<Longrightarrow> m (p + 3) = Some b3 \<Longrightarrow>
     load32 m p = Some (word_of_bytes b0 b1 b2 b3)"
  by (simp add: load32_def word_of_bytes_def)

lemma store32_bytes:
  assumes "\<not> unaligned p" "{p, p + 1, p + 2, p + 3} \<subseteq> dom m"
  shows "store32 m p (word_of_bytes b0 b1 b2 b3) = Some (m(p \<mapsto> b0, p + 1 \<mapsto> b1, p + 2 \<mapsto> b2, p + 3 \<mapsto> b3))"
  using assms by (auto simp: store32_def store8_def bytes_of_word)

lemma word_of_bytes_word: "word_of_bytes (ucast w) (ucast (drop_bit 8 w)) (ucast (drop_bit 16 w)) (ucast (drop_bit 24 w)) = w"
proof (rule bit_word_eqI)
  fix n assume "n < LENGTH(32)"
  then consider "n < 8" | "8 \<le> n" "n < 16" | "16 \<le> n" "n < 24" | "24 \<le> n" "n < 32" by fastforce
  then show "bit (word_of_bytes (ucast w) (ucast (drop_bit 8 w)) (ucast (drop_bit 16 w)) (ucast (drop_bit 24 w))) n = bit w n"
    by cases (simp_all add: word_of_bytes_def bit_simps, linarith+)
qed

lemma ucast_bitwise:
  "ucast (x AND y) = (ucast x AND ucast y :: byte)" "ucast (x OR y) = (ucast x OR ucast y :: byte)"
  "ucast (NOT x) = (NOT (ucast x) :: byte)" for x y :: bits32
  by (rule bit_word_eqI; simp add: bit_simps)+

lemma word_of_bytes_bitwise:
  "word_of_bytes a0 a1 a2 a3 AND word_of_bytes b0 b1 b2 b3 = word_of_bytes (a0 AND b0) (a1 AND b1) (a2 AND b2) (a3 AND b3)"
  "word_of_bytes a0 a1 a2 a3 OR word_of_bytes b0 b1 b2 b3 = word_of_bytes (a0 OR b0) (a1 OR b1) (a2 OR b2) (a3 OR b3)"
proof -
  show "word_of_bytes a0 a1 a2 a3 AND word_of_bytes b0 b1 b2 b3 = word_of_bytes (a0 AND b0) (a1 AND b1) (a2 AND b2) (a3 AND b3)"
    by (subst word_of_bytes_word [symmetric]) (simp add: drop_bit_and ucast_bitwise bytes_of_word)
  show "word_of_bytes a0 a1 a2 a3 OR word_of_bytes b0 b1 b2 b3 = word_of_bytes (a0 OR b0) (a1 OR b1) (a2 OR b2) (a3 OR b3)"
    by (subst word_of_bytes_word [symmetric]) (simp add: drop_bit_or ucast_bitwise bytes_of_word)
qed

lemma word_of_bytes_eq_iff: "word_of_bytes a0 a1 a2 a3 = word_of_bytes b0 b1 b2 b3 \<longleftrightarrow> a0 = b0 \<and> a1 = b1 \<and> a2 = b2 \<and> a3 = b3"
  by (metis bytes_of_word)

text \<open>The carries of the addition stay within their bytes, and the top bit of a byte survives iff it is zero.\<close>

lemma libc_detect_null_iff: "libc_detect_null (word_of_bytes b0 b1 b2 b3) \<noteq> 0 \<longleftrightarrow> b0 = 0 \<or> b1 = 0 \<or> b2 = 0 \<or> b3 = 0"
proof -
  define w where "w = word_of_bytes b0 b1 b2 b3"
  have mask: "(0x7f7f7f7f :: bits32) = word_of_bytes 0x7f 0x7f 0x7f 0x7f" by (simp add: word_of_bytes_def)
  have conj: "w AND 0x7f7f7f7f = word_of_bytes (b0 AND 0x7f) (b1 AND 0x7f) (b2 AND 0x7f) (b3 AND 0x7f)"
    unfolding w_def mask by (rule word_of_bytes_bitwise)
  have low: "uint (b AND 0x7f) = uint b mod 2 ^ 7" for b :: byte using uint_and_mask [of b 7] by (simp add: mask_eq_exp_minus_1)
  then have c: "uint (b AND 0x7f) + 0x7f < 2 ^ 8" for b :: byte by simp
  then have sum: "uint ((b AND 0x7f) + 0x7f) = uint b mod 2 ^ 7 + 0x7f" for b :: byte by (subst uint_plus_exact) (simp_all add: low)
  have "(w AND 0x7f7f7f7f) + 0x7f7f7f7f =
      word_of_bytes ((b0 AND 0x7f) + 0x7f) ((b1 AND 0x7f) + 0x7f) ((b2 AND 0x7f) + 0x7f) ((b3 AND 0x7f) + 0x7f)"
    unfolding word_uint_eq_iff conj uint_word_of_bytes sum uint_word_ariths
    using low [of b0] low [of b1] low [of b2] low [of b3]
    by (subst mod_pos_pos_trivial) (simp_all add: uint_word_of_bytes low)
  then have "(w AND 0x7f7f7f7f) + 0x7f7f7f7f OR w OR 0x7f7f7f7f = word_of_bytes (((b0 AND 0x7f) + 0x7f) OR b0 OR 0x7f)
      (((b1 AND 0x7f) + 0x7f) OR b1 OR 0x7f) (((b2 AND 0x7f) + 0x7f) OR b2 OR 0x7f) (((b3 AND 0x7f) + 0x7f) OR b3 OR 0x7f)"
    by (simp only: w_def mask word_of_bytes_bitwise)
  moreover have "libc_detect_null w \<noteq> 0 \<longleftrightarrow> (w AND 0x7f7f7f7f) + 0x7f7f7f7f OR w OR 0x7f7f7f7f \<noteq> NOT 0"
    unfolding libc_detect_null_def Let_def by (metis bit.double_compl)
  moreover have "(NOT 0 :: bits32) = word_of_bytes 0xff 0xff 0xff 0xff" by (simp add: word_of_bytes_def)
  ultimately have d: "libc_detect_null w \<noteq> 0 \<longleftrightarrow> \<not> (((b0 AND 0x7f) + 0x7f) OR b0 OR 0x7f = 0xff \<and>
      ((b1 AND 0x7f) + 0x7f) OR b1 OR 0x7f = 0xff \<and> ((b2 AND 0x7f) + 0x7f) OR b2 OR 0x7f = 0xff \<and> ((b3 AND 0x7f) + 0x7f) OR b3 OR 0x7f = 0xff)"
    by (simp only: word_of_bytes_eq_iff)
  have byte: "((b AND 0x7f) + 0x7f) OR b OR 0x7f \<noteq> 0xff \<longleftrightarrow> b = 0" for b :: byte
  proof -
    have "\<forall>n \<in> set [0..<256]. (((word_of_nat n AND 0x7f) + 0x7f) OR word_of_nat n OR 0x7f \<noteq> (0xff :: byte)) = (n = 0)" by code_simp
    moreover have "unat b \<in> set [0..<256]" using unat_lt2p [of b] by simp
    ultimately have "(((word_of_nat (unat b) AND 0x7f) + 0x7f) OR word_of_nat (unat b) OR 0x7f \<noteq> (0xff :: byte)) = (unat b = 0)" by (rule bspec)
    then show ?thesis by (simp add: unat_eq_0)
  qed
  show ?thesis using d byte unfolding w_def by blast
qed

section \<open>Strings in memory\<close>

definition c_string :: "mem \<Rightarrow> nat \<Rightarrow> nat \<Rightarrow> bool" where
  "c_string m p n \<longleftrightarrow> m (p + n) = Some 0 \<and> (\<forall>i < n. m (p + i) \<noteq> None \<and> m (p + i) \<noteq> Some 0)"

text \<open>The aligned words that hold a byte of the string are mapped.\<close>

definition words_mapped :: "mem \<Rightarrow> nat \<Rightarrow> nat \<Rightarrow> bool" where
  "words_mapped m p n \<longleftrightarrow> (\<forall>q. p div 4 \<le> q div 4 \<and> q div 4 \<le> (p + n) div 4 \<longrightarrow> m q \<noteq> None)"

lemma c_string_0: "c_string m p 0 \<longleftrightarrow> m p = Some 0"
  by (simp add: c_string_def)

lemma c_string_advance: "c_string m p (k + n) \<Longrightarrow> c_string m (p + k) n"
  by (auto simp: c_string_def add.assoc)

lemma c_string_byte: "c_string m p n \<Longrightarrow> i \<le> n \<Longrightarrow> \<exists>b. m (p + i) = Some b \<and> (b = 0 \<longleftrightarrow> i = n)"
  by (cases "i = n") (auto simp: c_string_def dest!: spec [of _ i])

lemma words_mapped_advance: "words_mapped m p (4 * k + n) \<Longrightarrow> words_mapped m (p + 4 * k) n"
  by (auto simp: words_mapped_def add.assoc [symmetric])

lemma load32_word:
  assumes "\<not> unaligned p" "words_mapped m p n"
  obtains b0 b1 b2 b3 where "m p = Some b0" "m (p + 1) = Some b1" "m (p + 2) = Some b2" "m (p + 3) = Some b3"
    "load32 m p = Some (word_of_bytes b0 b1 b2 b3)"
proof -
  have "m (p + i) \<noteq> None" if "i < 4" for i
  proof -
    have "(p + i) div 4 = p div 4" using assms(1) that by (auto simp: unaligned_def)
    then show ?thesis using assms(2) by (simp add: words_mapped_def div_le_mono)
  qed
  from this [of 0] this [of 1] this [of 2] this [of 3] that load32_bytes [OF assms(1)] show ?thesis by auto
qed

lemma string_word_null:
  assumes "c_string m p n" "m p = Some b0" "m (p + 1) = Some b1" "m (p + 2) = Some b2" "m (p + 3) = Some b3"
  shows "libc_detect_null (word_of_bytes b0 b1 b2 b3) = 0 \<longleftrightarrow> 4 \<le> n"
proof -
  have b: "(m (p + i) = Some 0) = (i = n)" if "i \<le> n" for i using c_string_byte [OF assms(1) that] by auto
  have "4 \<le> n" if "b0 \<noteq> 0" "b1 \<noteq> 0" "b2 \<noteq> 0" "b3 \<noteq> 0"
  proof (rule ccontr)
    assume "\<not> 4 \<le> n"
    then have "n \<in> {0, 1, 2, 3}" by auto
    then show False using b [of n] that assms(2-5) by auto
  qed
  moreover have "b0 \<noteq> 0 \<and> b1 \<noteq> 0 \<and> b2 \<noteq> 0 \<and> b3 \<noteq> 0" if "4 \<le> n"
    using b [of 0] b [of 1] b [of 2] b [of 3] that assms(2-5) by auto
  ultimately show ?thesis using libc_detect_null_iff [of b0 b1 b2 b3] by blast
qed

lemma strlen_words_string:
  assumes "\<not> unaligned ls" "c_string m ls n" "words_mapped m ls n"
  shows "strlen_words m ls = Some (ls + 4 * (n div 4) + 4)"
  using assms
proof (induction n arbitrary: ls rule: less_induct)
  case (less n)
  obtain b0 b1 b2 b3 where b: "m ls = Some b0" "m (ls + 1) = Some b1" "m (ls + 2) = Some b2" "m (ls + 3) = Some b3"
    "load32 m ls = Some (word_of_bytes b0 b1 b2 b3)" by (rule load32_word [OF less.prems(1,3)])
  note null = string_word_null [OF less.prems(2) b(1-4)]
  show ?case
  proof (cases "4 \<le> n")
    case True
    then have n: "n = 4 + (n - 4)" "n div 4 = Suc ((n - 4) div 4)" by (simp_all add: le_div_geq)
    have "strlen_words m ls = strlen_words m (ls + 4)" using b(5) null True by (subst strlen_words.simps) simp
    also have "\<dots> = Some (ls + 4 + 4 * ((n - 4) div 4) + 4)"
      using less.prems c_string_advance [of m ls 4 "n - 4"] words_mapped_advance [of m ls 1 "n - 4"] n(1)
      by (intro less.IH) (simp_all add: unaligned_def)
    finally show ?thesis using n(2) by simp
  next
    case False
    then show ?thesis using b(5) null by (subst strlen_words.simps) simp
  qed
qed

lemma strlen_head_string:
  assumes "unaligned str" "c_string m str n" "start \<le> str"
  shows "strlen_head m start str =
    Some (if n < 4 - str mod 4 then Inl (str + n - start) else Inr (str + (4 - str mod 4)))"
  using assms
proof (induction n arbitrary: str)
  case 0
  then show ?case by (subst strlen_head.simps) (simp add: c_string_0 load8_def unaligned_def)
next
  case (Suc n)
  then obtain b where b: "m str = Some b" "b \<noteq> 0" using c_string_byte [OF Suc.prems(2), of 0] by auto
  have next_str: "c_string m (str + 1) n" using c_string_advance [of m str 1 n] Suc.prems(2) by simp
  show ?case
  proof (cases "unaligned (str + 1)")
    case True
    then have "(str + 1) mod 4 = str mod 4 + 1" "str mod 4 \<le> 2"
      using Suc.prems(1) mod_less_divisor [of 4 str] by (auto simp: unaligned_def mod_Suc split: if_splits)
    moreover have "Suc (str + 3 - str mod 4) = str + 4 - str mod 4" using calculation(2) by linarith
    moreover have "n < 3 - str mod 4 \<longleftrightarrow> Suc n < 4 - str mod 4" using calculation(2) by linarith
    ultimately show ?thesis using Suc.IH [OF True next_str] Suc.prems(1,3) b True
      by (subst strlen_head.simps) (auto simp: load8_def unaligned_def)
  next
    case False
    then have "str mod 4 = 3" by (auto simp: unaligned_def mod_Suc split: if_splits)
    then show ?thesis using False b by (subst strlen_head.simps) (simp add: load8_def)
  qed
qed

text \<open>
  C24. \<open>strlen\<close> returns the length: on a string of any length and any alignment it terminates with the
  number of bytes before the terminator, and it touches no byte outside the aligned words that hold
  the string.
\<close>

theorem strlen_correct:
  assumes "c_string m p n" "words_mapped m p n"
  shows "strlen m p = Some n"
proof -
  have tail: "do { str \<leftarrow> strlen_words m str;
         let ret = str - p;
         c0 \<leftarrow> load8 m (str - 4); c1 \<leftarrow> load8 m (str - 3); c2 \<leftarrow> load8 m (str - 2); c3 \<leftarrow> load8 m (str - 1);
         Some (if c0 = 0 then ret + 0 - 4 else if c1 = 0 then ret + 1 - 4
               else if c2 = 0 then ret + 2 - 4 else ret + 3 - 4) } = Some n"
    if a: "\<not> unaligned str" and str: "str = p + k" "k \<le> n" "k < 4" for str k
  proof -
    have s: "c_string m str (n - k)" using c_string_advance [of m p k "n - k"] assms(1) str by simp
    have w: "words_mapped m str (n - k)" using assms(2) str by (auto simp: words_mapped_def intro: le_trans [OF div_le_mono])
    define j where "j = 4 * ((n - k) div 4)"
    have j: "n - k = j + (n - k) mod 4" "(n - k) mod 4 < 4" by (simp_all add: j_def)
    have c: "c_string m (str + j) ((n - k) mod 4)" using c_string_advance [of m str j "(n - k) mod 4"] s j(1) by simp
    have "words_mapped m (str + j) ((n - k) mod 4)"
      using words_mapped_advance [of m str "(n - k) div 4" "(n - k) mod 4"] w by (simp add: j_def)
    moreover have "\<not> unaligned (str + j)" using a by (simp add: unaligned_def j_def)
    ultimately obtain b0 b1 b2 b3 where b: "m (str + j) = Some b0" "m (str + j + 1) = Some b1" "m (str + j + 2) = Some b2"
      "m (str + j + 3) = Some b3" using load32_word [of "str + j" m] by metis
    have z: "(m (str + j + i) = Some 0) = (i = (n - k) mod 4)" if "i \<le> (n - k) mod 4" for i
      using c_string_byte [OF c that] by auto
    have "(n - k) mod 4 \<in> {0, 1, 2, 3}" using j(2) by auto
    then have "(if b0 = 0 then 0 else if b1 = 0 then 1 else if b2 = 0 then 2 else 3) = (n - k) mod 4"
      using b z [of 0] z [of 1] z [of 2] z [of 3] by auto
    then have "(if b0 = 0 then k + j else if b1 = 0 then k + j + 1 else if b2 = 0 then k + j + 2 else k + j + 3) = n"
      using j(1) str(2) by (auto split: if_splits)
    moreover have "m (3 + p + k + j) = Some b3" using b(4) str(1) by (simp add: ac_simps)
    ultimately show ?thesis
      using strlen_words_string [OF a s w] b str(1) by (simp add: load8_def Let_def j_def [symmetric] add.assoc [symmetric]) (auto split: if_splits)
  qed
  show ?thesis
  proof (cases "unaligned p")
    case False
    then show ?thesis using tail [of p 0] by (simp add: strlen_def)
  next
    case True
    then have "\<not> unaligned (p + (4 - p mod 4))" "4 - p mod 4 < 4" by (auto simp: unaligned_def) presburger
    then show ?thesis
      using True strlen_head_string [OF True assms(1) order_refl] tail [of "p + (4 - p mod 4)" "4 - p mod 4"]
      by (auto simp: strlen_def Let_def)
  qed
qed

theorem strlen_correct_witness: "strlen [5 \<mapsto> 65, 4 \<mapsto> 1, 6 \<mapsto> 66, 7 \<mapsto> 67, 8 \<mapsto> 0, 9 \<mapsto> 2, 10 \<mapsto> 3, 11 \<mapsto> 4] 5 = Some 3"
proof (rule strlen_correct)
  show "c_string [5 \<mapsto> 65, 4 \<mapsto> 1, 6 \<mapsto> 66, 7 \<mapsto> 67, 8 \<mapsto> 0, 9 \<mapsto> 2, 10 \<mapsto> 3, 11 \<mapsto> 4] 5 3"
    by code_simp
  show "words_mapped [5 \<mapsto> 65, 4 \<mapsto> 1, 6 \<mapsto> 66, 7 \<mapsto> 67, 8 \<mapsto> 0, 9 \<mapsto> 2, 10 \<mapsto> 3, 11 \<mapsto> 4] 5 3"
  proof -
    have "q \<in> {4, 5, 6, 7, 8, 9, 10, 11}" if "1 \<le> q div 4" "q div 4 \<le> 2" for q :: nat
    proof -
      have "4 \<le> q" "q < 12" using that by linarith+
      then show ?thesis by auto
    qed
    then show ?thesis by (fastforce simp: words_mapped_def)
  qed
qed

section \<open>Copying\<close>

text \<open>Memory after the first \<open>n\<close> bytes at \<open>s\<close> have been copied to \<open>d\<close>.\<close>

definition copied :: "mem \<Rightarrow> nat \<Rightarrow> nat \<Rightarrow> nat \<Rightarrow> mem" where
  "copied m d s n = (\<lambda>x. if d \<le> x \<and> x < d + n then m (s + (x - d)) else m x)"

text \<open>Source and destination of \<open>n\<close> bytes are mapped and do not overlap.\<close>

definition copyable :: "mem \<Rightarrow> nat \<Rightarrow> nat \<Rightarrow> nat \<Rightarrow> bool" where
  "copyable m d s n \<longleftrightarrow> (\<forall>i < n. m (s + i) \<noteq> None \<and> m (d + i) \<noteq> None) \<and> (d + n \<le> s \<or> s + n \<le> d)"

definition word_at :: "mem \<Rightarrow> nat \<Rightarrow> bits32" where
  "word_at m p = word_of_bytes (the (m p)) (the (m (p + 1))) (the (m (p + 2))) (the (m (p + 3)))"

lemma copied_0 [simp]: "copied m d s 0 = m"
  by (auto simp: copied_def fun_eq_iff)

lemma copied_source:
  assumes "copyable m d s n" "i \<le> n" "j < n"
  shows "copied m d s i (s + j) = m (s + j)"
  using assms by (auto simp: copied_def copyable_def)

lemma copied_mapped: "copyable m d s n \<Longrightarrow> i \<le> n \<Longrightarrow> copied m d s i x \<noteq> None \<longleftrightarrow> m x \<noteq> None"
proof -
  assume c: "copyable m d s n" "i \<le> n"
  show ?thesis
  proof (cases "d \<le> x \<and> x < d + i")
    case True
    then have "m (s + (x - d)) \<noteq> None \<and> m (d + (x - d)) \<noteq> None" 
      using c by (auto simp: copyable_def dest!: spec [of _ "x - d"])
    then show ?thesis using True by (simp add: copied_def)
  qed (auto simp: copied_def)
qed

lemma copied_Suc: "(copied m d s i)(d + i := m (s + i)) = copied m d s (Suc i)"
  by (auto simp: copied_def fun_eq_iff)

lemma BODY8_copied:
  assumes "copyable m d s n" "i < n"
  shows "BODY8 (copied m d s i) (d + i) (s + i) = Some (copied m d s (Suc i), d + i + 1, s + i + 1)"
proof -
  obtain b where b: "m (s + i) = Some b" "copied m d s i (s + i) = Some b"
    using assms copied_source [OF assms(1), of i i] by (auto simp: copyable_def)
  have "copied m d s i (d + i) \<noteq> None" using copied_mapped [OF assms(1), of i "d + i"] assms by (auto simp: copyable_def)
  then show ?thesis using b copied_Suc [of m d s i] by (simp add: BODY8_def load8_def store8_def)
qed

lemma load32_word_at: "\<not> unaligned p \<Longrightarrow> \<forall>j < 4. m (p + j) \<noteq> None \<Longrightarrow> load32 m p = Some (word_at m p)"
  using load32_bytes [of p m] by (auto simp: word_at_def numeral_eq_Suc All_less_Suc)

lemma word_at_source: "copyable m d s n \<Longrightarrow> i \<le> n \<Longrightarrow> j + 4 \<le> n \<Longrightarrow> word_at (copied m d s i) (s + j) = word_at m (s + j)"
  using copied_source [of m d s n i j] copied_source [of m d s n i "j + 1"] copied_source [of m d s n i "j + 2"]
    copied_source [of m d s n i "j + 3"] by (simp add: word_at_def add.assoc)

lemma store32_copied:
  assumes "copyable m d s n" "i + 4 \<le> n" "\<not> unaligned (d + i)"
  shows "store32 (copied m d s i) (d + i) (word_at m (s + i)) = Some (copied m d s (i + 4))"
proof -
  have mapped: "copied m d s i (d + (i + j)) \<noteq> None" "m (s + (i + j)) \<noteq> None" if "j < 4" for j
    using copied_mapped [OF assms(1), of i "d + (i + j)"] assms that by (auto simp: copyable_def)
  have "store32 (copied m d s i) (d + i) (word_at m (s + i)) = Some ((copied m d s i)(d + i \<mapsto> the (m (s + i)),
      d + i + 1 \<mapsto> the (m (s + i + 1)), d + i + 2 \<mapsto> the (m (s + i + 2)), d + i + 3 \<mapsto> the (m (s + i + 3))))"
    unfolding word_at_def using assms(3) mapped(1) [of 0] mapped(1) [of 1] mapped(1) [of 2] mapped(1) [of 3]
    by (intro store32_bytes) (auto simp: add.assoc)
  also have "\<dots> = Some ((copied m d s i)(d + i := m (s + i), d + Suc i := m (s + Suc i),
      d + Suc (Suc i) := m (s + Suc (Suc i)), d + Suc (Suc (Suc i)) := m (s + Suc (Suc (Suc i)))))"
    using mapped(2) [of 0] mapped(2) [of 1] mapped(2) [of 2] mapped(2) [of 3] by (auto simp: numeral_eq_Suc)
  also have "\<dots> = Some (copied m d s (i + 4))" by (simp only: copied_Suc) (simp add: numeral_eq_Suc)
  finally show ?thesis .
qed

lemma BODY32_copied:
  assumes "copyable m d s n" "i + 4 \<le> n" "\<not> unaligned (d + i)" "\<not> unaligned (s + i)"
  shows "BODY32 (copied m d s i) (d + i) (s + i) = Some (copied m d s (i + 4), d + i + 4, s + i + 4)"
proof -
  have "\<forall>j < 4. copied m d s i (s + i + j) \<noteq> None"
    using copied_mapped [OF assms(1), of i] assms by (auto simp: copyable_def add.assoc)
  then have "load32 (copied m d s i) (s + i) = Some (word_at m (s + i))"
    using load32_word_at [OF assms(4)] word_at_source [OF assms(1), of i i] assms(2) by simp
  then show ?thesis using store32_copied [OF assms(1-3)] by (simp add: BODY32_def)
qed

lemma load_longs_source:
  assumes "copyable m d s n" "i \<le> n" "j + 4 * k \<le> n" "\<not> unaligned (s + j)"
  shows "load_longs (copied m d s i) (s + j) k = Some (map (\<lambda>t. word_at m (s + j + 4 * t)) [0..<k])"
  using assms(3,4)
proof (induction k arbitrary: j)
  case (Suc k)
  have "\<forall>t < 4. copied m d s i (s + j + t) \<noteq> None"
    using copied_mapped [OF assms(1,2)] assms(1) Suc.prems(1) by (auto simp: copyable_def add.assoc)
  then have "load32 (copied m d s i) (s + j) = Some (word_at m (s + j))"
    using load32_word_at [OF Suc.prems(2)] word_at_source [OF assms(1,2), of j] Suc.prems(1) by simp
  moreover have "load_longs (copied m d s i) (s + j + 4) k = Some (map (\<lambda>t. word_at m (s + j + 4 + 4 * t)) [0..<k])"
    using Suc.IH [of "j + 4"] Suc.prems by (simp add: unaligned_def add.assoc [symmetric])
  ultimately show ?case by (simp add: upt_conv_Cons map_Suc_upt [symmetric] del: upt_Suc) (simp add: comp_def add.assoc)
qed simp

lemma store_longs_copied:
  assumes "copyable m d s n" "i + 4 * k \<le> n" "\<not> unaligned (d + i)"
  shows "store_longs (copied m d s i) (d + i) (map (\<lambda>t. word_at m (s + i + 4 * t)) [0..<k]) = Some (copied m d s (i + 4 * k))"
  using assms(2,3)
proof (induction k arbitrary: i)
  case (Suc k)
  have "\<not> unaligned (d + (i + 4))" using Suc.prems(2) by (simp add: unaligned_def add.assoc [symmetric])
  moreover have "map (\<lambda>t. word_at m (s + i + 4 * t)) [0..<Suc k] = word_at m (s + i) # map (\<lambda>t. word_at m (s + (i + 4) + 4 * t)) [0..<k]"
    by (simp add: upt_conv_Cons map_Suc_upt [symmetric] del: upt_Suc) (simp add: comp_def add.assoc)
  ultimately show ?case using store32_copied [OF assms(1), of i] Suc.IH [of "i + 4"] Suc.prems by (simp add: add.assoc)
qed simp

section \<open>\<open>memcpy\<close>\<close>

lemma memcpy_small_copied:
  assumes "copyable m d s n" "i \<le> n"
  shows "memcpy_small (copied m d s i) (d + i) (s + i) (d + n) = Some (copied m d s n)"
  using assms(2)
proof (induction "n - i" arbitrary: i)
  case 0
  then show ?case by (subst memcpy_small.simps) simp
next
  case (Suc k)
  then have "memcpy_small (copied m d s (Suc i)) (d + Suc i) (s + Suc i) (d + n) = Some (copied m d s n)" by (intro Suc.hyps(1)) simp_all
  moreover have "i < n" using Suc.hyps(2) by simp
  ultimately show ?case using BODY8_copied [OF assms(1), of i] by (subst memcpy_small.simps) simp
qed

lemma memcpy_align_copied:
  assumes "copyable m d s n" "i + k \<le> n" "\<not> unaligned (d + i + k)" "k < 4"
  shows "memcpy_align (copied m d s i) (d + i) (s + i) = Some (copied m d s (i + k), d + (i + k), s + (i + k))"
  using assms(2-4)
proof (induction k arbitrary: i)
  case 0
  then show ?case by (subst memcpy_align.simps) simp
next
  case (Suc k)
  then have "unaligned (d + i)" by (auto simp: unaligned_def) presburger
  moreover have "memcpy_align (copied m d s (Suc i)) (d + Suc i) (s + Suc i) = Some (copied m d s (Suc i + k), d + (Suc i + k), s + (Suc i + k))"
    using Suc.prems by (intro Suc.IH) simp_all
  ultimately show ?case using BODY8_copied [OF assms(1), of i] Suc.prems(1) by (subst memcpy_align.simps) simp
qed

lemma memcpy_unrolled_copied:
  assumes "copyable m d s n" "i \<le> L" "L \<le> n" "\<not> unaligned (d + i)" "\<not> unaligned (d + L)" "d mod 4 = s mod 4"
    "32 \<le> d + L" "d + L < 2 ^ 32"
  obtains j where "memcpy_unrolled (copied m d s i) (d + i) (s + i) (d + L) = Some (copied m d s j, d + j, s + j)"
    "\<not> unaligned (d + j)" "j \<le> L"
proof -
  have lend: "address_minus (d + L) 32 = d + L - 32"
  proof -
    have "d + L + 2 ^ 32 - 32 = (d + L - 32) + 2 ^ 32" using assms(7) by simp
    then show ?thesis using assms(8) by (simp only: address_minus_def mod_add_self2) simp
  qed
  have "\<exists>j. memcpy_unrolled (copied m d s i) (d + i) (s + i) (d + L) = Some (copied m d s j, d + j, s + j) \<and> \<not> unaligned (d + j) \<and> j \<le> L"
    using assms(2,4)
  proof (induction "L - i" arbitrary: i rule: less_induct)
    case less
    show ?case
    proof (cases "d + i < d + L - 32")
      case True
      then have fit: "i + 36 \<le> L" using less.prems(2) assms(5) unfolding unaligned_def by presburger
      have "\<not> unaligned (d + (i + 36))" using less.prems(2) unfolding unaligned_def by presburger
      moreover have "L - (i + 36) < L - i" using fit by simp
      ultimately obtain j where j: "memcpy_unrolled (copied m d s (i + 36)) (d + (i + 36)) (s + (i + 36)) (d + L) = Some (copied m d s j, d + j, s + j)"
        "\<not> unaligned (d + j)" "j \<le> L" using less.hyps [OF _ fit] by blast
      have "\<not> unaligned (s + i)" using less.prems(2) assms(6) unfolding unaligned_def by presburger
      then have "memcpy_unrolled (copied m d s i) (d + i) (s + i) (d + L) = memcpy_unrolled (copied m d s (i + 36)) (d + i + 36) (s + i + 36) (d + L)"
        using True load_longs_source [OF assms(1), of i i 9] store_longs_copied [OF assms(1), of i 9] fit assms(3) less.prems(2)
        by (subst memcpy_unrolled.simps) (simp add: lend)
      then show ?thesis using j by (auto simp: add.assoc)
    next
      case False
      then show ?thesis using less.prems by (subst memcpy_unrolled.simps) (auto simp: lend)
    qed
  qed
  then show ?thesis using that by blast
qed

lemma memcpy_words_copied:
  assumes "copyable m d s n" "i \<le> L" "L \<le> n" "\<not> unaligned (d + i)" "\<not> unaligned (d + L)" "d mod 4 = s mod 4"
  shows "memcpy_words (copied m d s i) (d + i) (s + i) (d + L) = Some (copied m d s L, d + L, s + L)"
  using assms(2,4)
proof (induction "L - i" arbitrary: i rule: less_induct)
  case less
  show ?case
  proof (cases "i < L")
    case True
    then have fit: "i + 4 \<le> L" using less.prems(2) assms(5) unfolding unaligned_def by presburger
    have "\<not> unaligned (d + (i + 4))" using less.prems(2) by (simp add: unaligned_def add.assoc [symmetric])
    then have "memcpy_words (copied m d s (i + 4)) (d + (i + 4)) (s + (i + 4)) (d + L) = Some (copied m d s L, d + L, s + L)"
      using fit True by (intro less.hyps) simp_all
    moreover have "\<not> unaligned (s + i)" using less.prems(2) assms(6) unfolding unaligned_def by presburger
    ultimately show ?thesis using BODY32_copied [OF assms(1), of i] fit assms(3) True less.prems(2)
      by (subst memcpy_words.simps) (simp add: add.assoc)
  next
    case False
    then show ?thesis using less.prems by (subst memcpy_words.simps) simp
  qed
qed

text \<open>
  C23. \<open>memcpy\<close> copies: for mapped, disjoint areas of any length and any alignments it terminates, returns the
  destination and leaves memory with the bytes of the source at the destination and unchanged elsewhere, and
  it touches only bytes of the two areas.  The destination must end before the end of the 32-bit address
  space; and when the word loops run, that is, when the areas are aligned alike and at least four bytes long,
  it must not end within the first 32 bytes of memory, where \<open>lend - 8\<close> wraps around (\<open>memcpy_low_memory\<close>).
\<close>

theorem memcpy_correct:
  assumes "copyable m d s n" "d + n < 2 ^ 32" "d mod 4 = s mod 4 \<Longrightarrow> 4 \<le> n \<Longrightarrow> 32 \<le> d + n"
  shows "memcpy m d s n = Some (d, copied m d s n)"
proof (cases "d mod 4 \<noteq> s mod 4 \<or> n < 4")
  case True
  then show ?thesis using memcpy_small_copied [OF assms(1), of 0] by (simp add: memcpy_def)
next
  case False
  have "\<exists>k < 4. (d + k) mod 4 = 0" by presburger
  then obtain k where k: "k < 4" "\<not> unaligned (d + k)" by (auto simp: unaligned_def)
  define L where "L = d + n - (d + n) mod 4 - d"
  have L: "d + L = d + n - (d + n) mod 4" "\<not> unaligned (d + L)" "k \<le> L" "L \<le> n"
  proof -
    have n: "4 \<le> n" using False by simp
    then have le: "d \<le> d + n - (d + n) mod 4" using mod_less_divisor [of 4 "d + n"] by linarith
    then show dl: "d + L = d + n - (d + n) mod 4" by (simp add: L_def)
    show "\<not> unaligned (d + L)" unfolding dl unaligned_def by (simp add: minus_mod_eq_mult_div)
    show "L \<le> n" using dl by linarith
    have floor4: "x \<le> y - y mod 4" if "x mod 4 = 0" "x \<le> y" for x y :: nat using that by presburger
    have "d + k \<le> d + L" unfolding dl using k n by (intro floor4) (simp_all add: unaligned_def)
    then show "k \<le> L" by simp
  qed
  have "x \<le> y - y mod 4" if "x mod 4 = 0" "x \<le> y" for x y :: nat using that by presburger
  then have low: "32 \<le> d + L" using assms(3) False unfolding L(1) by simp
  have high: "d + L < 2 ^ 32" using L(4) assms(2) by simp
  have align: "memcpy_align m d s = Some (copied m d s k, d + k, s + k)"
    using memcpy_align_copied [OF assms(1), of 0 k] k L by simp
  obtain j where j: "memcpy_unrolled (copied m d s k) (d + k) (s + k) (d + L) = Some (copied m d s j, d + j, s + j)"
    "\<not> unaligned (d + j)" "j \<le> L" by (rule memcpy_unrolled_copied [OF assms(1) L(3,4) k(2) L(2) _ low]) (use False high in simp_all)
  have words: "memcpy_words (copied m d s j) (d + j) (s + j) (d + L) = Some (copied m d s L, d + L, s + L)"
    by (rule memcpy_words_copied [OF assms(1) j(3) L(4) j(2) L(2)]) (use False in simp)
  have "memcpy_small (copied m d s L) (d + L) (s + L) (d + n) = Some (copied m d s n)" by (rule memcpy_small_copied [OF assms(1) L(4)])
  moreover have "copied m d s L = copied m d s n" if "\<not> d + L < d + n" using that L(4) by simp
  ultimately show ?thesis using False align j(1) words unfolding memcpy_def Let_def L(1) [symmetric] by auto
qed

theorem memcpy_correct_witness:
  "memcpy [40 \<mapsto> 7, 41 \<mapsto> 8, 42 \<mapsto> 9, 43 \<mapsto> 1, 80 \<mapsto> 0, 81 \<mapsto> 0, 82 \<mapsto> 0, 83 \<mapsto> 0] 80 40 4 =
     Some (80, copied [40 \<mapsto> 7, 41 \<mapsto> 8, 42 \<mapsto> 9, 43 \<mapsto> 1, 80 \<mapsto> 0, 81 \<mapsto> 0, 82 \<mapsto> 0, 83 \<mapsto> 0] 80 40 4)"
  by (rule memcpy_correct) (code_simp, simp_all)

text \<open>
  Four bytes copied into the first 32 bytes of memory: \<open>lend - 8\<close> wraps to the end of the address space, so
  the loop that copies nine longs runs and reads behind the source.
\<close>

theorem memcpy_low_memory:
  "memcpy [8 \<mapsto> 0, 9 \<mapsto> 0, 10 \<mapsto> 0, 11 \<mapsto> 0, 40 \<mapsto> 1, 41 \<mapsto> 2, 42 \<mapsto> 3, 43 \<mapsto> 4] 8 40 4 = None"
proof -
  define m :: mem where "m = [8 \<mapsto> 0, 9 \<mapsto> 0, 10 \<mapsto> 0, 11 \<mapsto> 0, 40 \<mapsto> 1, 41 \<mapsto> 2, 42 \<mapsto> 3, 43 \<mapsto> 4]"
  have "load32 m 44 = None" by (simp add: load32_def m_def)
  moreover have "(9::nat) = Suc (Suc 7)" by simp
  ultimately have "load_longs m 40 9 = None" by (simp only: load_longs.simps) (simp add: bind_eq_None_conv)
  then have "memcpy_unrolled m 8 40 12 = None" by (subst memcpy_unrolled.simps) (simp add: address_minus_def)
  moreover have "memcpy_align m 8 40 = Some (m, 8, 40)" by (subst memcpy_align.simps) (simp add: unaligned_def)
  ultimately show ?thesis unfolding m_def [symmetric] by (simp add: memcpy_def)
qed

section \<open>\<open>strcpy\<close>\<close>

lemma copied_string:
  assumes "copyable m d s (Suc n)" "c_string m s n" "i \<le> n"
  shows "c_string (copied m d s i) (s + i) (n - i)"
proof -
  have "copied m d s i (s + i + j) = m (s + i + j)" if "j \<le> n - i" for j
    using copied_source [OF assms(1), of i "i + j"] that assms(3) by (simp add: add.assoc)
  then show ?thesis using c_string_advance [of m s i "n - i"] assms(2,3) unfolding c_string_def by (metis le_add_diff_inverse nat_less_le order_refl)
qed

lemma store8_copied:
  assumes "copyable m d s n" "i < n" "m (s + i) = Some b"
  shows "store8 (copied m d s i) (d + i) b = Some (copied m d s (Suc i))"
  using copied_mapped [OF assms(1), of i "d + i"] assms copied_Suc [of m d s i] by (auto simp: store8_def copyable_def)

lemma strcpy_bytes_copied:
  assumes "copyable m d s (Suc n)" "c_string m s n" "i \<le> n"
  shows "strcpy_bytes (copied m d s i) (d + i) (s + i) = Some (copied m d s (Suc n))"
  using assms(3)
proof (induction "n - i" arbitrary: i)
  case 0
  then show ?case using assms(2) copied_source [OF assms(1), of n n] store8_copied [OF assms(1), of n 0]
    by (subst strcpy_bytes.simps) (simp add: c_string_def load8_def)
next
  case (Suc k)
  then have i: "i < n" by simp
  then obtain b where b: "m (s + i) = Some b" "b \<noteq> 0" using c_string_byte [OF assms(2), of i] by auto
  have "strcpy_bytes (copied m d s (Suc i)) (d + Suc i) (s + Suc i) = Some (copied m d s (Suc n))"
    using Suc.hyps(2) i by (intro Suc.hyps(1)) simp_all
  then show ?case using i b copied_source [OF assms(1), of i i] store8_copied [OF assms(1), of i b]
    by (subst strcpy_bytes.simps) (simp add: load8_def)
qed

lemma strcpy_words_copied:
  assumes "copyable m d s (Suc n)" "c_string m s n" "words_mapped m s n" "\<not> unaligned s" "4 * k \<le> n" "\<not> unaligned d"
  shows "strcpy_words (copied m d s (4 * k)) (d + 4 * k) (s + 4 * k) =
    Some (copied m d s (4 * (n div 4)), d + 4 * (n div 4), s + 4 * (n div 4))"
  using assms(5)
proof (induction "n div 4 - k" arbitrary: k rule: less_induct)
  case less
  let ?m = "copied m d s (4 * k)"
  have "words_mapped ?m s n" using assms(3) copied_mapped [OF assms(1), of "4 * k"] less.prems by (simp add: words_mapped_def)
  then have "words_mapped ?m (s + 4 * k) (n - 4 * k)" using words_mapped_advance [of ?m s k "n - 4 * k"] less.prems by simp
  moreover have "\<not> unaligned (s + 4 * k)" using assms(4) by (simp add: unaligned_def)
  ultimately obtain b0 b1 b2 b3 where b: "?m (s + 4 * k) = Some b0" "?m (s + 4 * k + 1) = Some b1" "?m (s + 4 * k + 2) = Some b2"
    "?m (s + 4 * k + 3) = Some b3" "load32 ?m (s + 4 * k) = Some (word_of_bytes b0 b1 b2 b3)"
    using load32_word by metis
  note null = string_word_null [OF copied_string [OF assms(1,2) less.prems] b(1-4)]
  show ?case
  proof (cases "4 \<le> n - 4 * k")
    case True
    have w: "word_of_bytes b0 b1 b2 b3 = word_at m (s + 4 * k)"
      using word_at_source [OF assms(1), of "4 * k" "4 * k"] True b(1-4) by (simp add: word_at_def)
    have st: "store32 ?m (d + 4 * k) (word_at m (s + 4 * k)) = Some (copied m d s (4 * Suc k))"
      using store32_copied [OF assms(1), of "4 * k"] True assms(6) by (simp add: unaligned_def add.commute)
    have "strcpy_words (copied m d s (4 * Suc k)) (d + 4 * Suc k) (s + 4 * Suc k) =
      Some (copied m d s (4 * (n div 4)), d + 4 * (n div 4), s + 4 * (n div 4))"
      using True by (intro less.hyps) auto
    then show ?thesis using b(5) null True st by (subst strcpy_words.simps) (simp add: w add.commute add.left_commute)
  next
    case False
    then have "k = n div 4" using less.prems by linarith
    then show ?thesis using b(5) null False by (subst strcpy_words.simps) simp
  qed
qed

text \<open>
  C25. \<open>strcpy\<close> copies the string with its terminator: for a string of any length and any alignments, with
  a mapped destination that does not overlap it, it terminates, returns the destination and changes
  exactly the bytes of the copy.
\<close>

theorem strcpy_correct:
  assumes "copyable m d s (Suc n)" "c_string m s n" "words_mapped m s n"
  shows "strcpy m d s = Some (d, copied m d s (Suc n))"
proof (cases "\<not> unaligned d \<and> \<not> unaligned s")
  case False
  then show ?thesis using strcpy_bytes_copied [OF assms(1,2), of 0] by (auto simp: strcpy_def)
next
  case True
  define i where "i = 4 * (n div 4)"
  have i: "i \<le> n" "n < i + 4" by (simp_all add: i_def)
  let ?m = "copied m d s i"
  have words: "strcpy_words m d s = Some (?m, d + i, s + i)"
    using strcpy_words_copied [OF assms(1-3), of 0] True by (simp add: i_def)
  have "words_mapped ?m (s + i) (n - i)"
    using assms(3) copied_mapped [OF assms(1), of i] i words_mapped_advance [of ?m s "n div 4" "n - i"]
    by (simp add: words_mapped_def i_def)
  moreover have "\<not> unaligned (s + i)" using True by (simp add: unaligned_def i_def)
  ultimately obtain b0 b1 b2 b3 where b: "?m (s + i) = Some b0" "?m (s + i + 1) = Some b1" "?m (s + i + 2) = Some b2" "?m (s + i + 3) = Some b3"
    using load32_word by metis
  have src: "m (s + (i + j)) = ?m (s + i + j)" if "i + j \<le> n" for j
    using copied_source [OF assms(1), of i "i + j"] that i(1) by (simp add: add.assoc)
  have z: "(?m (s + i + j) = Some 0) = (i + j = n)" if "i + j \<le> n" for j
  proof -
    have "j \<le> n - i" using that by simp
    then show ?thesis using c_string_byte [OF copied_string [OF assms(1,2) i(1)], of j] that by auto
  qed
  have st: "store8 (copied m d s (i + j)) (d + (i + j)) c = Some (copied m d s (Suc (i + j)))" if "i + j \<le> n" "?m (s + i + j) = Some c" for j c
    using store8_copied [OF assms(1), of "i + j" c] that src by simp
  have m3: "\<exists>c. copied m d s (i + 2) (s + i + 3) = Some c" if "i + 2 \<le> n"
    using copied_mapped [OF assms(1), of "i + 2" "s + i + 3"] copied_mapped [OF assms(1), of i "s + i + 3"] b(4) that by auto
  consider "n = i" | "n = i + 1" | "n = i + 2" | "n = i + 3" using i by linarith
  then show ?thesis
  proof cases
    case 1
    then show ?thesis using True words b z [of 0] st [of 0 b0] by (simp add: strcpy_def load8_def)
  next
    case 2
    then show ?thesis using True words b z [of 0] z [of 1] st [of 0 b0] st [of 1 b1] by (simp add: strcpy_def load8_def)
  next
    case 3
    then obtain c where "copied m d s (i + 2) (s + i + 3) = Some c" using m3 by auto
    then show ?thesis using 3 True words b z [of 0] z [of 1] z [of 2] st [of 0 b0] st [of 1 b1] st [of 2 b2]
      by (simp add: strcpy_def load8_def)
  next
    case 4
    then obtain c where "copied m d s (i + 2) (s + i + 3) = Some c" using m3 by auto
    moreover have "b3 = 0" using z [of 3] b(4) 4 by simp
    ultimately show ?thesis using 4 True words b z [of 0] z [of 1] z [of 2] st [of 0 b0] st [of 1 b1] st [of 2 b2] st [of 3 b3]
      by (simp add: strcpy_def load8_def) (simp add: numeral_3_eq_3)
  qed
qed

theorem strcpy_correct_witness:
  "strcpy [0 \<mapsto> 7, 1 \<mapsto> 0, 2 \<mapsto> 5, 3 \<mapsto> 5, 8 \<mapsto> 9, 9 \<mapsto> 9] 8 0 =
     Some (8, copied [0 \<mapsto> 7, 1 \<mapsto> 0, 2 \<mapsto> 5, 3 \<mapsto> 5, 8 \<mapsto> 9, 9 \<mapsto> 9] 8 0 2)"
proof -
  have "copyable [0 \<mapsto> 7, 1 \<mapsto> 0, 2 \<mapsto> 5, 3 \<mapsto> 5, 8 \<mapsto> 9, 9 \<mapsto> 9] 8 0 (Suc 1)" by code_simp
  moreover have "c_string [0 \<mapsto> 7, 1 \<mapsto> 0, 2 \<mapsto> 5, 3 \<mapsto> 5, 8 \<mapsto> 9, 9 \<mapsto> 9] 0 1" by code_simp
  moreover have "words_mapped [0 \<mapsto> 7, 1 \<mapsto> 0, 2 \<mapsto> 5, 3 \<mapsto> 5, 8 \<mapsto> 9, 9 \<mapsto> 9] 0 1"
  proof -
    have "q = 0 \<or> q = 1 \<or> q = 2 \<or> q = 3" if "q div 4 = 0" for q :: nat using that by linarith
    then show ?thesis by (auto simp: words_mapped_def)
  qed
  ultimately show ?thesis using strcpy_correct [of _ 8 0 1] by (simp add: numeral_2_eq_2)
qed

section \<open>\<open>strcmp\<close>\<close>

text \<open>
  \<open>k\<close> is the first position at which the strings at \<open>p\<close> and \<open>q\<close> differ or the first one ends, with the
  bytes \<open>x\<close> and \<open>y\<close> there.
\<close>

definition first_difference :: "mem \<Rightarrow> nat \<Rightarrow> nat \<Rightarrow> nat \<Rightarrow> byte \<Rightarrow> byte \<Rightarrow> bool" where
  "first_difference m p q k x y \<longleftrightarrow>
     (\<forall>i < k. m (p + i) = m (q + i) \<and> m (p + i) \<noteq> None \<and> m (p + i) \<noteq> Some 0) \<and>
     m (p + k) = Some x \<and> m (q + k) = Some y \<and> (x = 0 \<or> x \<noteq> y)"

lemma first_difference_advance: "first_difference m p q (j + k) x y \<Longrightarrow> first_difference m (p + j) (q + j) k x y"
proof -
  assume d: "first_difference m p q (j + k) x y"
  then have "m (p + (j + i)) = m (q + (j + i)) \<and> m (p + (j + i)) \<noteq> None \<and> m (p + (j + i)) \<noteq> Some 0" if "i < k" for i
    using that unfolding first_difference_def by (metis nat_add_left_cancel_less)
  then show ?thesis using d by (simp add: first_difference_def add.assoc)
qed

lemma first_difference_byte:
  assumes "first_difference m p q (Suc k) x y"
  obtains b where "m p = Some b" "m q = Some b" "b \<noteq> 0"
  using assms by (auto simp: first_difference_def dest!: spec [of _ 0])

lemma strcmp_bytes_difference:
  "first_difference m p q k x y \<Longrightarrow> strcmp_bytes m p q = Some (uint x - uint y)"
proof (induction k arbitrary: p q)
  case 0
  then show ?case by (subst strcmp_bytes.simps) (auto simp: first_difference_def load8_def)
next
  case (Suc k)
  obtain b where b: "m p = Some b" "m q = Some b" "b \<noteq> 0" by (rule first_difference_byte [OF Suc.prems])
  have "first_difference m (p + 1) (q + 1) k x y" using first_difference_advance [of m p q 1 k] Suc.prems by simp
  then show ?case using b Suc.IH by (subst strcmp_bytes.simps) (simp add: load8_def)
qed

lemma strcmp_pairs_difference:
  assumes "first_difference m p q k x y" "c_string m p n" "m p = Some c"
  shows "strcmp_pairs m c p q = Some (uint x - uint y)"
  using assms
proof (induction k arbitrary: p q n c rule: less_induct)
  case (less k)
  have follows: "\<exists>b. m (r + 1) = Some b" if s: "c_string m r l" and "m r = Some b'" "b' \<noteq> 0" for r l b'
  proof -
    have "1 \<le> l" using that by (cases l) (auto simp: c_string_def)
    then show ?thesis using c_string_byte [OF s, of 1] by auto
  qed
  consider "k = 0" | "k = 1" | l where "k = Suc (Suc l)" by (metis One_nat_def not0_implies_Suc)
  then show ?case
  proof cases
    case 1
    then have xy: "m p = Some x" "m q = Some y" "x = 0 \<or> x \<noteq> y" using less.prems(1) by (auto simp: first_difference_def)
    then have c: "c = x" using less.prems(3) by simp
    show ?thesis
    proof (cases "x = 0")
      case True
      then show ?thesis using xy c by (subst strcmp_pairs.simps) (simp add: load8_def)
    next
      case False
      then obtain b where "m (p + 1) = Some b" using follows [OF less.prems(2) xy(1)] by blast
      then show ?thesis using xy c False by (subst strcmp_pairs.simps) (simp add: load8_def)
    qed
  next
    case 2
    obtain b where b: "m p = Some b" "m q = Some b" "b \<noteq> 0" by (rule first_difference_byte) (use less.prems(1) 2 in simp)
    have d: "first_difference m (p + 1) (q + 1) 0 x y" using first_difference_advance [of m p q 1 0] less.prems(1) 2 by simp
    then have xy: "m (p + 1) = Some x" "m (q + 1) = Some y" "x = 0 \<or> x \<noteq> y" by (auto simp: first_difference_def)
    have c: "c = b" using less.prems(3) b by simp
    have n: "n \<noteq> 0" using less.prems(2) b by (cases n) (auto simp: c_string_def)
    then have s1: "c_string m (p + 1) (n - 1)" using c_string_advance [of m p 1 "n - 1"] less.prems(2) by simp
    show ?thesis
    proof (cases "x = 0")
      case True
      then show ?thesis using xy b c by (subst strcmp_pairs.simps) (simp add: load8_def)
    next
      case False
      then obtain b' where "m (p + 1 + 1) = Some b'" using follows [OF s1 xy(1)] by blast
      then show ?thesis using xy b c False by (subst strcmp_pairs.simps) (simp add: load8_def)
    qed
  next
    case 3
    obtain b where b: "m p = Some b" "m q = Some b" "b \<noteq> 0" by (rule first_difference_byte) (use less.prems(1) 3 in simp)
    have d: "first_difference m (p + 1) (q + 1) (Suc l) x y" using first_difference_advance [of m p q 1 "Suc l"] less.prems(1) 3 by simp
    obtain b' where b': "m (p + 1) = Some b'" "m (q + 1) = Some b'" "b' \<noteq> 0" by (rule first_difference_byte [OF d])
    have d2: "first_difference m (p + 2) (q + 2) l x y" using first_difference_advance [of m p q 2 l] less.prems(1) 3 by simp
    have c: "c = b" using less.prems(3) b by simp
    have n: "2 \<le> n"
    proof (rule ccontr)
      assume "\<not> 2 \<le> n"
      then have "n = 0 \<or> n = 1" by linarith
      then show False using less.prems(2) b b' by (auto simp: c_string_def)
    qed
    then have s2: "c_string m (p + 2) (n - 2)" using c_string_advance [of m p 2 "n - 2"] less.prems(2) le_add_diff_inverse [OF n] by metis
    obtain c' where c': "m (p + 2) = Some c'" using c_string_byte [OF s2, of 0] by auto
    have "strcmp_pairs m c' (p + 2) (q + 2) = Some (uint x - uint y)" using less.IH [OF _ d2 s2 c'] 3 by simp
    then show ?thesis using b b' c c' by (subst strcmp_pairs.simps) (simp add: load8_def)
  qed
qed

text \<open>
  C26. \<open>strcmp\<close> compares strings: whatever the alignments, it terminates and returns the difference of the
  first bytes, as unsigned characters, at which the strings differ, or 0 when they are equal; it
  reads no byte past the terminators.
\<close>

theorem strcmp_correct:
  assumes "first_difference m p q k x y" "c_string m p n"
  shows "strcmp m p q = Some (uint x - uint y)"
proof -
  obtain c where "m p = Some c" using c_string_byte [OF assms(2), of 0] by auto
  then show ?thesis using strcmp_pairs_difference [OF assms] strcmp_bytes_difference [OF assms(1)]
    by (simp add: strcmp_def load8_def)
qed

theorem strcmp_correct_witness:
  "strcmp [0 \<mapsto> 65, 1 \<mapsto> 200, 2 \<mapsto> 0, 4 \<mapsto> 65, 5 \<mapsto> 66, 6 \<mapsto> 0] 0 4 = Some 134"
proof -
  have "first_difference [0 \<mapsto> 65, 1 \<mapsto> 200, 2 \<mapsto> 0, 4 \<mapsto> 65, 5 \<mapsto> 66, 6 \<mapsto> 0] 0 4 1 200 66" by code_simp
  moreover have "c_string [0 \<mapsto> 65, 1 \<mapsto> 200, 2 \<mapsto> 0, 4 \<mapsto> 65, 5 \<mapsto> 66, 6 \<mapsto> 0] 0 2" by code_simp
  ultimately show ?thesis using strcmp_correct [of _ 0 4 1 200 66 2] by simp
qed

section \<open>\<open>memset\<close>\<close>

definition filled :: "mem \<Rightarrow> nat \<Rightarrow> byte \<Rightarrow> nat \<Rightarrow> mem" where
  "filled m s c n = (\<lambda>x. if s \<le> x \<and> x < s + n then Some c else m x)"

definition writable :: "mem \<Rightarrow> nat \<Rightarrow> nat \<Rightarrow> bool" where
  "writable m s n \<longleftrightarrow> (\<forall>i < n. m (s + i) \<noteq> None)"

lemma filled_0 [simp]: "filled m s c 0 = m"
  by (auto simp: filled_def fun_eq_iff)

lemma filled_mapped: "writable m s n \<Longrightarrow> i < n \<Longrightarrow> filled m s c j (s + i) \<noteq> None"
  by (auto simp: filled_def writable_def)

lemma filled_Suc: "(filled m s c i)(s + i \<mapsto> c) = filled m s c (Suc i)"
  by (auto simp: filled_def fun_eq_iff)

lemma store8_filled: "writable m s n \<Longrightarrow> i < n \<Longrightarrow> store8 (filled m s c i) (s + i) c = Some (filled m s c (Suc i))"
  using filled_mapped [of m s n i c i] by (simp add: store8_def filled_Suc)

lemma memset_buffer_bytes: "memset_buffer c = word_of_bytes c c c c"
proof -
  have zero: "ucast c = (0 :: bits32) \<longleftrightarrow> c = 0" by (metis bytes_of_word(1) ucast_0 or.right_neutral push_bit_of_0 word_of_bytes_def)
  have "(let b = ucast c OR push_bit 8 (ucast c) in b OR push_bit 16 b) = word_of_bytes c c c c"
    by (rule bit_word_eqI) (auto simp: word_of_bytes_def Let_def push_bit_or bit_or_iff)
  then show ?thesis by (auto simp: memset_buffer_def Let_def zero word_of_bytes_def)
qed

lemma store32_filled:
  assumes "writable m s n" "i + 4 \<le> n" "\<not> unaligned (s + i)"
  shows "store32 (filled m s c i) (s + i) (memset_buffer c) = Some (filled m s c (i + 4))"
proof -
  have mapped: "filled m s c i (s + (i + j)) \<noteq> None" if "j < 4" for j
    using filled_mapped [OF assms(1), of "i + j" c i] assms(2) that by simp
  have "store32 (filled m s c i) (s + i) (memset_buffer c) =
      Some ((filled m s c i)(s + i \<mapsto> c, s + i + 1 \<mapsto> c, s + i + 2 \<mapsto> c, s + i + 3 \<mapsto> c))"
    unfolding memset_buffer_bytes using assms(3) mapped [of 0] mapped [of 1] mapped [of 2] mapped [of 3]
    by (intro store32_bytes) (auto simp: add.assoc)
  also have "\<dots> = Some ((filled m s c i)(s + i \<mapsto> c, s + Suc i \<mapsto> c, s + Suc (Suc i) \<mapsto> c, s + Suc (Suc (Suc i)) \<mapsto> c))"
    by (simp add: numeral_eq_Suc)
  also have "\<dots> = Some (filled m s c (i + 4))" by (simp only: filled_Suc) (simp add: numeral_eq_Suc)
  finally show ?thesis .
qed

lemma memset_bytes_filled:
  "writable m s n \<Longrightarrow> i + k = n \<Longrightarrow> memset_bytes (filled m s c i) (s + i) c k = Some (filled m s c n)"
proof (induction k arbitrary: i)
  case (Suc k)
  have "memset_bytes (filled m s c (Suc i)) (s + Suc i) c k = Some (filled m s c n)"
    using Suc.IH [of "Suc i"] Suc.prems by simp
  then show ?case using store8_filled [OF Suc.prems(1), of i c] Suc.prems(2) by simp
qed simp

lemma memset_words_filled:
  "writable m s n \<Longrightarrow> i + 8 * k \<le> n \<Longrightarrow> \<not> unaligned (s + i) \<Longrightarrow>
    memset_words (filled m s c i) (s + i) (memset_buffer c) k = Some (filled m s c (i + 8 * k), s + (i + 8 * k))"
proof (induction k arbitrary: i)
  case (Suc k)
  have a: "\<not> unaligned (s + (i + 4))" "\<not> unaligned (s + (i + 8))" using Suc.prems(3) unfolding unaligned_def by presburger+
  have "store32 (filled m s c i) (s + i) (memset_buffer c) = Some (filled m s c (i + 4))"
    "store32 (filled m s c (i + 4)) (s + i + 4) (memset_buffer c) = Some (filled m s c (i + 8))"
    using store32_filled [OF Suc.prems(1), of i c] store32_filled [OF Suc.prems(1), of "i + 4" c] Suc.prems(2,3) a(1)
    by (simp_all add: add.assoc)
  moreover have "memset_words (filled m s c (i + 8)) (s + (i + 8)) (memset_buffer c) k = Some (filled m s c (i + 8 + 8 * k), s + (i + 8 + 8 * k))"
    using Suc.prems(1,2) a(2) by (intro Suc.IH) simp_all
  ultimately show ?case by (simp add: add.assoc)
qed simp

lemma memset_align_filled:
  "writable m s n \<Longrightarrow> i + (4 - u) \<le> n \<Longrightarrow> u \<le> 4 \<Longrightarrow>
    memset_align (filled m s c i) (s + i) c k u = Some (filled m s c (i + (4 - u)), s + (i + (4 - u)), k - (4 - u))"
proof (induction "4 - u" arbitrary: i u k)
  case 0
  then show ?case by (subst memset_align.simps) (simp add: LBLOCKSIZE_def)
next
  case (Suc j)
  then have u: "u < 4" "i < n" by linarith+
  have "memset_align (filled m s c (Suc i)) (s + Suc i) c (k - 1) (u + 1) =
      Some (filled m s c (Suc i + (4 - (u + 1))), s + (Suc i + (4 - (u + 1))), k - 1 - (4 - (u + 1)))"
    using Suc.hyps(2) Suc.prems by (intro Suc.hyps(1)) simp_all
  then show ?case using store8_filled [OF Suc.prems(1) u(2), of c] u(1)
    by (subst memset_align.simps) (simp add: LBLOCKSIZE_def, intro conjI arg_cong [of _ _ "filled m s c"]; linarith)
qed

text \<open>
  C27. \<open>memset\<close> fills: for a mapped area of any length and alignment it terminates, returns the area's
  address and sets exactly its bytes to the low byte of the fill value.
\<close>

theorem memset_correct:
  assumes "writable m s n"
  shows "memset m s c n = Some (s, filled m s (ucast c) n)"
proof (cases "n < 16")
  case True
  then show ?thesis using memset_bytes_filled [OF assms, of 0 n "ucast c"] by (simp add: memset_def LBLOCKSIZE_def)
next
  case False
  let ?c = "ucast c :: byte"
  define u where "u = (if s mod 4 = 0 then 0 else 4 - s mod 4)"
  have u: "u < 4" by (simp add: u_def)
  have align: "(if s mod 4 \<noteq> 0 then memset_align m s ?c n (s mod 4) else Some (m, s, n)) = Some (filled m s ?c u, s + u, n - u)"
    using memset_align_filled [OF assms, of 0 "s mod 4" ?c n] False by (simp add: u_def)
  have a: "\<not> unaligned (s + u)" by (simp add: u_def unaligned_def) presburger
  define k where "k = (n - u) div 8"
  define r where "r = (n - u) mod 8"
  have n: "u + 8 * k + r = n" "r < 8" using False u by (simp_all add: k_def r_def)
  have words: "memset_words (filled m s ?c u) (s + u) (memset_buffer ?c) k = Some (filled m s ?c (u + 8 * k), s + (u + 8 * k))"
    using memset_words_filled [OF assms, of u k ?c] n a by simp
  show ?thesis
  proof (cases "4 \<le> r")
    case True
    have "\<not> unaligned (s + (u + 8 * k))" using a by (simp add: unaligned_def add.assoc [symmetric]) presburger
    then have "store32 (filled m s ?c (u + 8 * k)) (s + (u + 8 * k)) (memset_buffer ?c) = Some (filled m s ?c (u + 8 * k + 4))"
      using store32_filled [OF assms, of "u + 8 * k" ?c] n True by simp
    moreover have "memset_bytes (filled m s ?c (u + 8 * k + 4)) (s + (u + 8 * k + 4)) ?c (r - 4) = Some (filled m s ?c n)"
      using memset_bytes_filled [OF assms, of "u + 8 * k + 4" "r - 4" ?c] n True by simp
    ultimately show ?thesis using align words False True
      by (simp add: memset_def LBLOCKSIZE_def Let_def k_def [symmetric] r_def [symmetric] add.assoc)
  next
    case small: False
    have "memset_bytes (filled m s ?c (u + 8 * k)) (s + (u + 8 * k)) ?c r = Some (filled m s ?c n)"
      using memset_bytes_filled [OF assms, of "u + 8 * k" r ?c] n by simp
    then show ?thesis using align words False small
      by (simp add: memset_def LBLOCKSIZE_def Let_def k_def [symmetric] r_def [symmetric] add.assoc)
  qed
qed

theorem memset_correct_witness:
  "memset [0 \<mapsto> 7, 1 \<mapsto> 8] 0 0x141 2 = Some (0, filled [0 \<mapsto> 7, 1 \<mapsto> 8] 0 (ucast (0x141 :: bits32)) 2)"
  by (rule memset_correct) code_simp

end
