(* ===== verification/Riscv_Strncpy_Correct.thy ===== *)
theory Riscv_Strncpy_Correct
  imports Riscv_String_Correct
begin

text \<open>
  Correctness of \<open>strncpy\<close> of \<open>Riscv_String\<close>: the loops before, in and after the unrolled part and the zero fill
  by bytes, words, half word and byte all move memory along one sequence of states, \<open>padded\<close>.
\<close>

section \<open>\<open>strncpy\<close>\<close>

text \<open>
  Memory after the first \<open>i\<close> of the bytes that \<open>strncpy\<close> writes: the \<open>len\<close> bytes of the string, then zeros.
\<close>

definition padded :: "mem \<Rightarrow> nat \<Rightarrow> nat \<Rightarrow> nat \<Rightarrow> nat \<Rightarrow> mem" where
  "padded m d s len i = (\<lambda>x. if d \<le> x \<and> x < d + i then (if x - d < len then m (s + (x - d)) else Some 0) else m x)"

text \<open>
  The source has \<open>len\<close> bytes before its terminator or \<open>len = n\<close> bytes without one, the words it is read by and the
  \<open>n\<close> bytes of the destination are mapped, and the two do not overlap.
\<close>

definition ncopyable :: "mem \<Rightarrow> nat \<Rightarrow> nat \<Rightarrow> nat \<Rightarrow> nat \<Rightarrow> bool" where
  "ncopyable m d s len n \<longleftrightarrow>
     len \<le> n \<and> (\<forall>i < len. m (s + i) \<noteq> None \<and> m (s + i) \<noteq> Some 0) \<and>
     (len < n \<longrightarrow> m (s + len) = Some 0 \<and> words_mapped m s len) \<and>
     writable m d n \<and> (d + n \<le> s \<or> s + min (Suc len) n \<le> d)"

definition pad_byte :: "mem \<Rightarrow> nat \<Rightarrow> nat \<Rightarrow> nat \<Rightarrow> byte" where
  "pad_byte m s len i = (if i < len then the (m (s + i)) else 0)"

lemma padded_0 [simp]: "padded m d s len 0 = m"
  by (auto simp: padded_def fun_eq_iff)

lemma padded_mapped:
  assumes "ncopyable m d s len n" "i \<le> n"
  shows "padded m d s len i x = None \<longleftrightarrow> m x = None"
proof -
  have "m x \<noteq> None" if "d \<le> x" "x < d + i"
    using that assms by (auto simp: ncopyable_def writable_def dest!: spec [of _ "x - d"])
  moreover have "m (s + (x - d)) \<noteq> None" if "x - d < len" using that assms(1) by (auto simp: ncopyable_def)
  ultimately show ?thesis by (auto simp: padded_def)
qed

lemma padded_source:
  assumes "ncopyable m d s len n" "i \<le> n" "j \<le> len" "j < n"
  shows "padded m d s len i (s + j) = Some (pad_byte m s len j)" "pad_byte m s len j = 0 \<longleftrightarrow> j = len"
proof -
  have "\<not> (d \<le> s + j \<and> s + j < d + i)" using assms by (auto simp: ncopyable_def min_def split: if_splits)
  then show "padded m d s len i (s + j) = Some (pad_byte m s len j)"
    using assms by (cases "j = len") (auto simp: padded_def pad_byte_def ncopyable_def)
  show "pad_byte m s len j = 0 \<longleftrightarrow> j = len" using assms by (auto simp: pad_byte_def ncopyable_def)
qed

lemma store8_padded:
  assumes "ncopyable m d s len n" "i < n"
  shows "store8 (padded m d s len i) (d + i) (pad_byte m s len i) = Some (padded m d s len (Suc i))"
proof -
  have "padded m d s len i (d + i) \<noteq> None" using padded_mapped [OF assms(1), of i "d + i"] assms by (auto simp: ncopyable_def writable_def)
  moreover have "(padded m d s len i)(d + i \<mapsto> pad_byte m s len i) = padded m d s len (Suc i)"
    using assms by (auto simp: padded_def pad_byte_def fun_eq_iff ncopyable_def)
  ultimately show ?thesis by (simp add: store8_def)
qed

lemma store8_zero:
  assumes "ncopyable m d s len n" "len \<le> i" "i < n"
  shows "store8 (padded m d s len i) (d + i) 0 = Some (padded m d s len (Suc i))"
  using store8_padded [OF assms(1,3)] assms(2) by (simp add: pad_byte_def)

lemma store16_zero:
  assumes "ncopyable m d s len n" "len \<le> i" "i + 2 \<le> n" "even (d + i)"
  shows "store16 (padded m d s len i) (d + i) 0 = Some (padded m d s len (i + 2))"
  using store8_zero [OF assms(1,2)] store8_zero [OF assms(1), of "Suc i"] assms(2-4) by (simp add: store16_def)

lemma store32_zero:
  assumes "ncopyable m d s len n" "len \<le> i" "i + 4 \<le> n" "\<not> unaligned (d + i)"
  shows "store32 (padded m d s len i) (d + i) 0 = Some (padded m d s len (i + 4))"
  using store8_zero [OF assms(1,2)] store8_zero [OF assms(1), of "Suc i"] store8_zero [OF assms(1), of "Suc (Suc i)"]
    store8_zero [OF assms(1), of "Suc (Suc (Suc i))"] assms(2-4)
  by (simp add: store32_def numeral_eq_Suc)

lemma zero_until_padded:
  assumes "ncopyable m d s len n" "len \<le> i" "i \<le> n"
  shows "zero_until (padded m d s len i) (d + i) (d + n) = Some (padded m d s len n)"
  using assms(2,3)
proof (induction "n - i" arbitrary: i)
  case 0
  then show ?case by (subst zero_until.simps) simp
next
  case (Suc k)
  then have "zero_until (padded m d s len (Suc i)) (d + Suc i) (d + n) = Some (padded m d s len n)" by (intro Suc.hyps(1)) simp_all
  then show ?case using store8_zero [OF assms(1) Suc.prems(1)] Suc.hyps(2) by (subst zero_until.simps) simp
qed

lemma strncpy_tail_padded:
  assumes "ncopyable m d s len n" "i \<le> len"
  shows "strncpy_tail (padded m d s len i) (d + i) (s + i) (d + n) = Some (padded m d s len n)"
  using assms(2)
proof (induction "len - i" arbitrary: i)
  case 0
  show ?case
  proof (cases "i = n")
    case True
    then show ?thesis by (subst strncpy_tail.simps) simp
  next
    case False
    then have i: "i = len" "i < n" using 0 assms(1) by (auto simp: ncopyable_def)
    then have "zero_until (padded m d s len (Suc i)) (d + Suc i) (d + n) = Some (padded m d s len n)"
      by (intro zero_until_padded [OF assms(1)]) simp_all
    then show ?thesis using i padded_source [OF assms(1), of i i] store8_padded [OF assms(1) i(2)]
      by (subst strncpy_tail.simps) (simp add: load8_def)
  qed
next
  case (Suc k)
  then have i: "i < n" "i < len" using assms(1) by (auto simp: ncopyable_def)
  have "strncpy_tail (padded m d s len (Suc i)) (d + Suc i) (s + Suc i) (d + n) = Some (padded m d s len n)"
    using Suc.hyps(2) by (intro Suc.hyps(1)) simp_all
  then show ?case using i padded_source [OF assms(1), of i i] store8_padded [OF assms(1) i(1)]
    by (subst strncpy_tail.simps) (simp add: load8_def)
qed

lemma strncpy_odd_padded:
  assumes "ncopyable m d s len n" "i \<le> len"
  shows "strncpy_odd (padded m d s len i) (d + i) (s + i) (n - i) = Some (Inl (padded m d s len n)) \<or>
    (\<exists>j \<le> len. strncpy_odd (padded m d s len i) (d + i) (s + i) (n - i) =
      Some (Inr (padded m d s len j, d + j, s + j, n - j)) \<and> ((s + j) mod 4 = 0 \<or> j = n))"
  using assms(2)
proof (induction "len - i" arbitrary: i)
  case 0
  show ?case
  proof (cases "(s + i) mod 4 = 0 \<or> i = n")
    case True
    then show ?thesis using 0 by (subst (1 2) strncpy_odd.simps) (auto simp: UNROLL_FACTOR_def)
  next
    case False
    then have i: "i = len" "i < n" using 0 assms(1) by (auto simp: ncopyable_def)
    then have "zero_until (padded m d s len (Suc i)) (d + Suc i) (d + n) = Some (padded m d s len n)"
      by (intro zero_until_padded [OF assms(1)]) simp_all
    then show ?thesis using False i padded_source [OF assms(1), of i i] store8_padded [OF assms(1) i(2)]
      by (subst strncpy_odd.simps) (simp add: load8_def UNROLL_FACTOR_def)
  qed
next
  case (Suc k)
  then have i: "i < n" "i < len" using assms(1) by (auto simp: ncopyable_def)
  show ?case
  proof (cases "(s + i) mod 4 = 0")
    case True
    then show ?thesis using Suc.prems by (subst (1 2) strncpy_odd.simps) (auto simp: UNROLL_FACTOR_def)
  next
    case False
    have "strncpy_odd (padded m d s len i) (d + i) (s + i) (n - i) = strncpy_odd (padded m d s len (Suc i)) (d + Suc i) (s + Suc i) (n - Suc i)"
      using False i padded_source [OF assms(1), of i i] store8_padded [OF assms(1) i(1)]
      by (subst strncpy_odd.simps) (simp add: load8_def UNROLL_FACTOR_def)
    then show ?thesis using Suc.hyps(1) [of "Suc i"] Suc.hyps(2) i by simp
  qed
qed

lemma padded_source_word:
  assumes "ncopyable m d s len n" "i \<le> n" "j \<le> len" "j + 4 \<le> n" "(s + j) mod 4 = 0" "t < 4"
  shows "\<exists>b. padded m d s len i (s + j + t) = Some b"
proof -
  have "m (s + (j + t)) \<noteq> None"
  proof (cases "j + t < len")
    case True
    then show ?thesis using assms(1) by (simp add: ncopyable_def)
  next
    case False
    then have "len < n" using assms(4,6) by linarith
    moreover have "(s + (j + t)) div 4 = (s + j) div 4"
      using assms(5,6) div_add1_eq [of "s + j" t 4] by (simp add: add.assoc)
    then have "(s + (j + t)) div 4 \<le> (s + len) div 4" "s div 4 \<le> (s + (j + t)) div 4"
      using assms(3) by (simp_all add: div_le_mono)
    ultimately show ?thesis using assms(1) by (simp add: ncopyable_def words_mapped_def)
  qed
  then show ?thesis using padded_mapped [OF assms(1,2), of "s + j + t"] by (auto simp: add.assoc)
qed

lemma strncpy_unrolled_step:
  assumes "ncopyable m d s len n" "i \<le> len" "i + 4 \<le> n" "(s + i) mod 4 = 0"
  shows "strncpy_unrolled (padded m d s len i) (d + i) (s + i) count =
    (if len < i + 4 then Some (Inl (padded m d s len (Suc len), d + i, count - 4, len - i))
     else if count - 4 \<noteq> 0
     then strncpy_unrolled (padded m d s len (i + 4)) (d + (i + 4)) (s + (i + 4)) (count - 4)
     else Some (Inr (padded m d s len (i + 4), d + (i + 4), s + (i + 4))))"
proof -
  let ?P = "padded m d s len"
  have mapped: "\<exists>b. ?P i (s + i + t) = Some b" if "t < 4" for t
    using padded_source_word [OF assms(1) _ assms(2-4) that, of i] assms(3) by simp
  obtain b0 b1 b2 b3 where b: "?P i (s + i) = Some b0" "?P i (s + i + 1) = Some b1" "?P i (s + i + 2) = Some b2" "?P i (s + i + 3) = Some b3"
    using mapped [of 0] mapped [of 1] mapped [of 2] mapped [of 3] by auto
  have load: "?P i (s + i + t) = Some (pad_byte m s len (i + t))" "pad_byte m s len (i + t) = 0 \<longleftrightarrow> i + t = len" if "t < 4" "i + t \<le> len" for t
    using padded_source [OF assms(1) _ that(2), of i] assms(3) that by (simp_all add: add.assoc)
  have store: "store8 (?P (i + t)) (d + i + t) (pad_byte m s len (i + t)) = Some (?P (Suc (i + t)))" if "t < 4" for t
    using store8_padded [OF assms(1), of "i + t"] assms(3) that by (simp add: add.assoc)
  note facts = b load [of 0] load [of 1] load [of 2] load [of 3] store [of 0] store [of 1] store [of 2] store [of 3]
  consider "len = i" | "len = i + 1" | "len = i + 2" | "len = i + 3" | "i + 4 \<le> len" using assms(2) by linarith
  then show ?thesis
  proof cases
    case 5
    then have n: "i + 1 \<noteq> len" "i + 2 \<noteq> len" "i + 3 \<noteq> len" "i \<noteq> len" "\<not> len < i + 4" by simp_all
    have p: "b0 = pad_byte m s len i" "b1 = pad_byte m s len (i + 1)" "b2 = pad_byte m s len (i + 2)" "b3 = pad_byte m s len (i + 3)"
      using 5 facts by simp_all
    have "b0 \<noteq> 0" "b1 \<noteq> 0" "b2 \<noteq> 0" "b3 \<noteq> 0" using load(2) [of 0] load(2) [of 1] load(2) [of 2] load(2) [of 3] 5 unfolding p by simp_all
    moreover have "store8 (?P i) (d + i) b0 = Some (?P (Suc i))" "store8 (?P (Suc i)) (d + i + 1) b1 = Some (?P (Suc (Suc i)))"
      "store8 (?P (Suc (Suc i))) (d + i + 2) b2 = Some (?P (Suc (Suc (Suc i))))" "store8 (?P (Suc (Suc (Suc i)))) (d + i + 3) b3 = Some (?P (i + 4))"
      using store [of 0] store [of 1] store [of 2] store [of 3] unfolding p by (simp_all add: numeral_eq_Suc)
    ultimately show ?thesis using b n by (subst strncpy_unrolled.simps) (simp add: load8_def UNROLL_FACTOR_def add.assoc)
  qed (use facts in \<open>(subst strncpy_unrolled.simps, simp add: load8_def UNROLL_FACTOR_def numeral_eq_Suc)+\<close>)
qed

lemma strncpy_unrolled_padded:
  assumes "ncopyable m d s len n" "i \<le> len" "i + 4 * Suc c + r = n" "(s + i) mod 4 = 0"
  shows "(\<exists>j k c'. strncpy_unrolled (padded m d s len i) (d + i) (s + i) (4 * Suc c) =
        Some (Inl (padded m d s len (Suc len), d + j, 4 * c', k)) \<and> j + k = len \<and> k < 4 \<and> j + 4 + 4 * c' + r = n) \<or>
    (strncpy_unrolled (padded m d s len i) (d + i) (s + i) (4 * Suc c) =
        Some (Inr (padded m d s len (n - r), d + (n - r), s + (n - r))) \<and> n - r \<le> len)"
  using assms(2-4)
proof (induction c arbitrary: i)
  case 0
  then show ?case using strncpy_unrolled_step [OF assms(1) 0(1) _ 0(3), of 4]
    by (cases "len < i + 4") (auto intro!: exI [of _ i] exI [of _ "len - i"] exI [of _ 0])
next
  case (Suc c)
  show ?case
  proof (cases "len < i + 4")
    case True
    then show ?thesis using strncpy_unrolled_step [OF assms(1) Suc.prems(1) _ Suc.prems(3), of "4 * Suc (Suc c)"] Suc.prems(1,2)
      by (auto intro!: exI [of _ i] exI [of _ "len - i"] exI [of _ "Suc c"])
  next
    case False
    have "(s + (i + 4)) mod 4 = 0" using Suc.prems(3) by presburger
    moreover have "i + 4 \<le> len" "i + 4 + 4 * Suc c + r = n" using False Suc.prems(2) by simp_all
    moreover have "strncpy_unrolled (padded m d s len i) (d + i) (s + i) (4 * Suc (Suc c)) =
        strncpy_unrolled (padded m d s len (i + 4)) (d + (i + 4)) (s + (i + 4)) (4 * Suc c)"
      using strncpy_unrolled_step [OF assms(1) Suc.prems(1) _ Suc.prems(3), of "4 * Suc (Suc c)"] False Suc.prems(2) by simp
    ultimately show ?thesis using Suc.IH [of "i + 4"] by presburger
  qed
qed

lemma strncpy_fill_align_padded:
  assumes "ncopyable m d s len n" "len \<le> i" "i \<le> n"
  obtains j where "strncpy_fill_align (padded m d s len i) (d + i) (n - i) = Some (padded m d s len j, d + j, n - j)"
    "i \<le> j" "j \<le> n" "\<not> unaligned (d + j) \<or> j = n"
proof -
  have "\<exists>j. strncpy_fill_align (padded m d s len i) (d + i) (n - i) = Some (padded m d s len j, d + j, n - j) \<and>
    i \<le> j \<and> j \<le> n \<and> (\<not> unaligned (d + j) \<or> j = n)"
    using assms(2,3)
  proof (induction "n - i" arbitrary: i)
    case 0
    then show ?case by (subst strncpy_fill_align.simps) auto
  next
    case (Suc k)
    show ?case
    proof (cases "unaligned (d + i)")
      case True
      obtain j where "strncpy_fill_align (padded m d s len (Suc i)) (d + Suc i) (n - Suc i) = Some (padded m d s len j, d + j, n - j)"
        "Suc i \<le> j" "j \<le> n" "\<not> unaligned (d + j) \<or> j = n"
      proof -
        have "k = n - Suc i" "len \<le> Suc i" "Suc i \<le> n" using Suc.hyps(2) Suc.prems by linarith+
        from Suc.hyps(1) [OF this] that show ?thesis by blast
      qed
      moreover have "i < n" using Suc.hyps(2) by simp
      ultimately show ?thesis using True store8_zero [OF assms(1), of i] Suc.prems
        by (subst strncpy_fill_align.simps) auto
    next
      case False
      then show ?thesis using Suc.prems by (subst strncpy_fill_align.simps) auto
    qed
  qed
  then show ?thesis using that by blast
qed

lemma strncpy_fill_words_padded:
  assumes "ncopyable m d s len n" "len \<le> i" "i \<le> n" "\<not> unaligned (d + i)"
  obtains j where "strncpy_fill_words (padded m d s len i) (d + i) (n - i) = Some (padded m d s len j, d + j, n - j)"
    "i \<le> j" "j \<le> n" "n < j + 16" "\<not> unaligned (d + j)"
proof -
  have "\<exists>j. strncpy_fill_words (padded m d s len i) (d + i) (n - i) = Some (padded m d s len j, d + j, n - j) \<and>
    i \<le> j \<and> j \<le> n \<and> n < j + 16 \<and> \<not> unaligned (d + j)"
    using assms(2-4)
  proof (induction "n - i" arbitrary: i rule: less_induct)
    case less
    show ?case
    proof (cases "16 \<le> n - i")
      case True
      have a: "\<not> unaligned (d + (i + 4))" "\<not> unaligned (d + (i + 8))" "\<not> unaligned (d + (i + 12))" "\<not> unaligned (d + (i + 16))"
        using less.prems(3) unfolding unaligned_def by presburger+
      obtain j where "strncpy_fill_words (padded m d s len (i + 16)) (d + (i + 16)) (n - (i + 16)) = Some (padded m d s len j, d + j, n - j)"
        "i + 16 \<le> j" "j \<le> n" "n < j + 16" "\<not> unaligned (d + j)"
      proof -
        have "n - (i + 16) < n - i" "len \<le> i + 16" "i + 16 \<le> n" using less.prems True by linarith+
        from less.hyps [OF this a(4)] that show ?thesis by blast
      qed
      then show ?thesis
        using True store32_zero [OF assms(1), of i] store32_zero [OF assms(1) _ _ a(1)] store32_zero [OF assms(1) _ _ a(2)]
          store32_zero [OF assms(1) _ _ a(3)] less.prems
        by (subst strncpy_fill_words.simps) (auto simp: UNROLL_FACTOR_def add.assoc)
    next
      case False
      then show ?thesis using less.prems by (subst strncpy_fill_words.simps) (auto simp: UNROLL_FACTOR_def)
    qed
  qed
  then show ?thesis using that by blast
qed

text \<open>What is left after the words: at most 15 bytes, in one double word, word, half word and byte at most.\<close>

lemma strncpy_fill_rest:
  assumes "ncopyable m d s len n" "len \<le> i" "i \<le> n" "n < i + 16" "\<not> unaligned (d + i)"
  shows "do {
     (m, dst, count) \<leftarrow>
       (if 2 * 4 \<le> n - i
        then do { m \<leftarrow> store32 (padded m d s len i) (d + i) 0; m \<leftarrow> store32 m (d + i + 4) 0; Some (m, d + i + 8, n - i - 8) }
        else Some (padded m d s len i, d + i, n - i));
     (m, dst, count) \<leftarrow>
       (if 4 \<le> count then do { m \<leftarrow> store32 m dst 0; Some (m, dst + 4, count - 4) } else Some (m, dst, count));
     (m, dst, count) \<leftarrow>
       (if 2 \<le> count then do { m \<leftarrow> store16 m dst 0; Some (m, dst + 2, count - 2) } else Some (m, dst, count));
     if count \<noteq> 0 then store8 m dst 0 else Some m } = Some (padded m d s len n)"
proof -
  let ?P = "padded m d s len"
  have a4: "\<not> unaligned (d + (j + 4))" if "\<not> unaligned (d + j)" for j using that unfolding unaligned_def by presburger
  have e: "even (d + j)" if "\<not> unaligned (d + j)" for j using that unfolding unaligned_def by presburger
  have bytes: "(if n - j \<noteq> 0 then store8 (?P j) (d + j) 0 else Some (?P j)) = Some (?P n)" if "len \<le> j" "j \<le> n" "n \<le> j + 1" for j
    using store8_zero [OF assms(1) that(1)] that by (cases "n = j") (auto simp: le_Suc_eq)
  have halves: "do { (m, dst, count) \<leftarrow> (if 2 \<le> n - j then do { m \<leftarrow> store16 (?P j) (d + j) 0; Some (m, d + j + 2, n - j - 2) } else Some (?P j, d + j, n - j));
      if count \<noteq> 0 then store8 m dst 0 else Some m } = Some (?P n)" if "len \<le> j" "j \<le> n" "n < j + 4" "even (d + j)" for j
  proof (cases "j + 2 \<le> n")
    case True
    then have "(if n - (j + 2) \<noteq> 0 then store8 (?P (j + 2)) (d + (j + 2)) 0 else Some (?P (j + 2))) = Some (?P n)"
      using that by (intro bytes) simp_all
    then show ?thesis using True store16_zero [OF assms(1) that(1) True that(4)] by (cases "n = j + 2") (simp_all add: add.assoc le_diff_conv2)
  next
    case False
    then have "(if n - j \<noteq> 0 then store8 (?P j) (d + j) 0 else Some (?P j)) = Some (?P n)" using that by (intro bytes) simp_all
    then show ?thesis using False that(2) by (cases "n = j") (simp_all add: le_diff_conv2)
  qed
  have words: "do { (m, dst, count) \<leftarrow> (if 4 \<le> n - j then do { m \<leftarrow> store32 (?P j) (d + j) 0; Some (m, d + j + 4, n - j - 4) } else Some (?P j, d + j, n - j));
      (m, dst, count) \<leftarrow> (if 2 \<le> count then do { m \<leftarrow> store16 m dst 0; Some (m, dst + 2, count - 2) } else Some (m, dst, count));
      if count \<noteq> 0 then store8 m dst 0 else Some m } = Some (?P n)" if "len \<le> j" "j \<le> n" "n < j + 8" "\<not> unaligned (d + j)" for j
    using halves [of j] halves [of "j + 4"] store32_zero [OF assms(1) that(1) _ that(4)] e [OF that(4)] e [OF a4 [OF that(4)]] that
    by (cases "4 \<le> n - j") (simp_all add: add.assoc)
  show ?thesis
  proof (cases "8 \<le> n - i")
    case True
    then have "store32 (?P i) (d + i) 0 = Some (?P (i + 4))" "store32 (?P (i + 4)) (d + i + 4) 0 = Some (?P (i + 8))"
      using store32_zero [OF assms(1,2) _ assms(5)] store32_zero [OF assms(1) _ _ a4 [OF assms(5)]] assms(2) by (simp_all add: add.assoc)
    moreover have "\<not> unaligned (d + (i + 8))" using a4 [OF a4 [OF assms(5)]] by (simp add: add.assoc)
    ultimately show ?thesis using words [of "i + 8"] True assms(2-4) by (simp add: add.assoc)
  next
    case False
    then show ?thesis using words [of i] assms(2-5) by simp
  qed
qed

lemma strncpy_fill_padded:
  assumes "ncopyable m d s len n" "len \<le> i" "i \<le> n"
  shows "strncpy_fill (padded m d s len i) (d + i) (n - i) = Some (padded m d s len n)"
proof -
  obtain j where j: "strncpy_fill_align (padded m d s len i) (d + i) (n - i) = Some (padded m d s len j, d + j, n - j)"
    "i \<le> j" "j \<le> n" "\<not> unaligned (d + j) \<or> j = n" by (rule strncpy_fill_align_padded [OF assms])
  show ?thesis
  proof (cases "unaligned (d + j)")
    case True
    then have "j = n" using j(4) by simp
    moreover have "strncpy_fill_words (padded m d s len n) (d + n) 0 = Some (padded m d s len n, d + n, 0)"
      by (subst strncpy_fill_words.simps) (simp add: UNROLL_FACTOR_def)
    ultimately show ?thesis using j(1) by (simp add: strncpy_fill_def)
  next
    case False
    have "len \<le> j" using j(2) assms(2) by simp
    then obtain k where k: "strncpy_fill_words (padded m d s len j) (d + j) (n - j) = Some (padded m d s len k, d + k, n - k)"
      "j \<le> k" "k \<le> n" "n < k + 16" "\<not> unaligned (d + k)" by (rule strncpy_fill_words_padded [OF assms(1) _ j(3) False])
    then show ?thesis using j(1) strncpy_fill_rest [OF assms(1) _ k(3-5)] \<open>len \<le> j\<close> by (simp add: strncpy_fill_def)
  qed
qed

text \<open>
  C28. \<open>strncpy\<close> copies and pads: for a string of any length, any bound \<open>n\<close> and any alignments, with a mapped
  destination of \<open>n\<close> bytes that does not overlap the string, it terminates, returns the destination and
  writes exactly its \<open>n\<close> bytes: the string cut at \<open>n\<close> bytes, then zeros.
\<close>

theorem strncpy_correct:
  assumes "ncopyable m d s len n"
  shows "strncpy m d s n = Some (d, padded m d s len n)"
proof -
  consider "strncpy_odd m d s n = Some (Inl (padded m d s len n))"
    | j where "j \<le> len" "strncpy_odd m d s n = Some (Inr (padded m d s len j, d + j, s + j, n - j))" "(s + j) mod 4 = 0 \<or> j = n"
    using strncpy_odd_padded [OF assms, of 0] by auto
  then show ?thesis
  proof cases
    case 1
    then show ?thesis by (simp add: strncpy_def)
  next
    case (2 j)
    have len: "len \<le> n" using assms by (simp add: ncopyable_def)
    show ?thesis
    proof (cases "4 \<le> n - j")
      case False
      then show ?thesis using 2 strncpy_tail_padded [OF assms 2(1)] len by (simp add: strncpy_def)
    next
      case True
      define r where "r = (n - j) mod 4"
      define c where "c = (n - j) div 4 - 1"
      have c: "4 * Suc c = n - j - r" "j + 4 * Suc c + r = n" using True by (simp_all add: c_def r_def minus_mod_eq_mult_div)
      have a: "(s + j) mod 4 = 0" using 2(3) True by auto
      consider (null) i k c' where "strncpy_unrolled (padded m d s len j) (d + j) (s + j) (4 * Suc c) =
          Some (Inl (padded m d s len (Suc len), d + i, 4 * c', k))" "i + k = len" "k < 4" "i + 4 + 4 * c' + r = n"
        | (no_null) "strncpy_unrolled (padded m d s len j) (d + j) (s + j) (4 * Suc c) = Some (Inr (padded m d s len (n - r), d + (n - r), s + (n - r)))" "n - r \<le> len"
        using strncpy_unrolled_padded [OF assms 2(1) c(2) a] by blast
      then show ?thesis
      proof cases
        case null
        have "d + i + 4 - (3 - k) = d + Suc len" "4 * c' + (3 - k) + r = n - Suc len" "Suc len \<le> n" using null(2-4) by linarith+
        then show ?thesis using 2(2) True null(1) strncpy_fill_padded [OF assms, of "Suc len"] c(1)
          by (simp add: strncpy_def UNROLL_FACTOR_def r_def [symmetric])
      next
        case no_null
        have "n - r + r = n" using c(2) by simp
        then have "strncpy_tail (padded m d s len (n - r)) (d + (n - r)) (s + (n - r)) (d + (n - r) + r) = Some (padded m d s len n)"
          using strncpy_tail_padded [OF assms no_null(2)] by (simp add: add.assoc)
        then show ?thesis using 2(2) True no_null(1) c(1) by (simp add: strncpy_def UNROLL_FACTOR_def r_def [symmetric])
      qed
    qed
  qed
qed

theorem strncpy_correct_witness:
  "strncpy [0 \<mapsto> 7, 1 \<mapsto> 8, 9 \<mapsto> 9, 10 \<mapsto> 9, 2 \<mapsto> 0, 3 \<mapsto> 1, 11 \<mapsto> 9, 12 \<mapsto> 9, 13 \<mapsto> 9] 9 0 5 =
     Some (9, [0 \<mapsto> 7, 1 \<mapsto> 8, 9 \<mapsto> 7, 10 \<mapsto> 8, 2 \<mapsto> 0, 3 \<mapsto> 1, 11 \<mapsto> 0, 12 \<mapsto> 0, 13 \<mapsto> 0])"
proof -
  let ?m = "[0 \<mapsto> 7, 1 \<mapsto> 8, 9 \<mapsto> 9, 10 \<mapsto> 9, 2 \<mapsto> 0, 3 \<mapsto> 1, 11 \<mapsto> 9, 12 \<mapsto> 9, 13 \<mapsto> 9] :: mem"
  have "q = 0 \<or> q = 1 \<or> q = 2 \<or> q = 3" if "q div 4 = 0" for q :: nat using that by linarith
  then have "words_mapped ?m 0 2" by (fastforce simp: words_mapped_def)
  moreover have "writable ?m 9 5" "\<forall>i < 2. ?m (0 + i) \<noteq> None \<and> ?m (0 + i) \<noteq> Some 0" by code_simp+
  ultimately have "ncopyable ?m 9 0 2 5" by (simp add: ncopyable_def)
  moreover have "padded ?m 9 0 2 5 = [0 \<mapsto> 7, 1 \<mapsto> 8, 9 \<mapsto> 7, 10 \<mapsto> 8, 2 \<mapsto> 0, 3 \<mapsto> 1, 11 \<mapsto> 0, 12 \<mapsto> 0, 13 \<mapsto> 0]"
    by (auto simp: padded_def fun_eq_iff)
  ultimately show ?thesis using strncpy_correct [of ?m 9 0 2 5] by simp
qed

end
