(* ===== verification/Riscv_Ieeefp.thy ===== *)
theory Riscv_Ieeefp
  imports C_Prelude
begin

text \<open>
  The floating-point environment of RISC-V targets, \<open>newlib/libc/machine/riscv/ieeefp.c\<close>, for a target with
  floating-point registers (\<open>__riscv_flen\<close>).  The state is the control and status register \<open>fcsr\<close>; \<open>fssr\<close> and
  \<open>frsr\<close> are one instruction each.  What a write to \<open>fcsr\<close> leaves in the register is the parameter
  \<open>csr\<close>: the hardware keeps the eight defined bits and may do anything to the reserved ones.
\<close>

section \<open>Constants of \<open>ieeefp.h\<close>\<close>

type_synonym fp_rnd = bits32
type_synonym fp_except = bits32

definition FP_RN :: fp_rnd where "FP_RN = 0"
definition FP_RM :: fp_rnd where "FP_RM = 1"
definition FP_RP :: fp_rnd where "FP_RP = 2"
definition FP_RZ :: fp_rnd where "FP_RZ = 3"

definition FP_X_INV :: fp_except where "FP_X_INV = 0x10"
definition FP_X_DX :: fp_except where "FP_X_DX = 0x80"
definition FP_X_OFL :: fp_except where "FP_X_OFL = 0x04"
definition FP_X_UFL :: fp_except where "FP_X_UFL = 0x02"
definition FP_X_IMP :: fp_except where "FP_X_IMP = 0x01"

section \<open>Operations\<close>

definition frm_fp_rnd :: "bits32 \<Rightarrow> fp_rnd" where
  "frm_fp_rnd frm =
     (if frm = 0 then FP_RN else if frm = 1 then FP_RZ else if frm = 2 then FP_RM
      else if frm = 3 then FP_RP else FP_RP)"

definition frm_fp_except :: "bits32 \<Rightarrow> fp_except" where
  "frm_fp_except except =
     (let fp = 0;
          fp = if except AND push_bit 0 1 \<noteq> 0 then fp OR FP_X_IMP else fp;
          fp = if except AND push_bit 1 1 \<noteq> 0 then fp OR FP_X_UFL else fp;
          fp = if except AND push_bit 2 1 \<noteq> 0 then fp OR FP_X_OFL else fp;
          fp = if except AND push_bit 3 1 \<noteq> 0 then fp OR FP_X_DX else fp;
          fp = if except AND push_bit 4 1 \<noteq> 0 then fp OR FP_X_INV else fp
      in fp)"

definition frm_except :: "fp_except \<Rightarrow> bits32" where
  "frm_except fp =
     (let except = 0;
          except = if fp AND FP_X_IMP \<noteq> 0 then except OR push_bit 0 1 else except;
          except = if fp AND FP_X_UFL \<noteq> 0 then except OR push_bit 1 1 else except;
          except = if fp AND FP_X_OFL \<noteq> 0 then except OR push_bit 2 1 else except;
          except = if fp AND FP_X_DX \<noteq> 0 then except OR push_bit 3 1 else except;
          except = if fp AND FP_X_INV \<noteq> 0 then except OR push_bit 4 1 else except
      in except)"

definition fpgetmask :: "fp_except" where "fpgetmask = 0"

definition fpsetmask :: "fp_except \<Rightarrow> fp_except" where "fpsetmask m = - 1"

definition fpgetround :: "bits32 \<Rightarrow> fp_rnd" where
  "fpgetround fcsr = (let rm = drop_bit 5 fcsr AND 0x7 in frm_fp_rnd rm)"

definition fpgetsticky :: "bits32 \<Rightarrow> fp_except" where
  "fpgetsticky fcsr = frm_fp_except fcsr"

text \<open>The setters return what the function returns and the new value of the register.\<close>

definition fpsetround :: "(bits32 \<Rightarrow> bits32) \<Rightarrow> fp_rnd \<Rightarrow> bits32 \<Rightarrow> fp_rnd \<times> bits32" where
  "fpsetround csr rnd_dir fcsr =
     (let fsr = fcsr;
          rm = drop_bit 5 fsr AND 0x7;
          new_rm = if rnd_dir = FP_RN then Some 0 else if rnd_dir = FP_RZ then Some 1
                   else if rnd_dir = FP_RM then Some 2 else if rnd_dir = FP_RP then Some 3 else None
      in case new_rm of
           None \<Rightarrow> (- 1, fcsr)
         | Some new_rm \<Rightarrow> (frm_fp_rnd rm, csr (push_bit 5 new_rm OR (fsr AND 0x1f))))"

definition fpsetsticky :: "(bits32 \<Rightarrow> bits32) \<Rightarrow> fp_except \<Rightarrow> bits32 \<Rightarrow> fp_except \<times> bits32" where
  "fpsetsticky csr sticky fcsr =
     (let fsr = fcsr in (frm_fp_except fsr, csr (frm_except sticky OR (fsr AND NOT 0x1f))))"

section \<open>Reading back what was set\<close>

definition round_modes :: "fp_rnd set" where
  "round_modes = {FP_RN, FP_RZ, FP_RM, FP_RP}"

definition except_flags :: fp_except where
  "except_flags = FP_X_INV OR FP_X_DX OR FP_X_OFL OR FP_X_UFL OR FP_X_IMP"

lemmas fp_constants = FP_RN_def FP_RM_def FP_RP_def FP_RZ_def FP_X_INV_def FP_X_DX_def FP_X_OFL_def FP_X_UFL_def FP_X_IMP_def

text \<open>The register counts only through its eight defined bits.\<close>

lemma bit_field_masks: "bit (0x7 :: bits32) n \<longleftrightarrow> n < 3" "bit (0x1f :: bits32) n \<longleftrightarrow> n < 5" "bit (0xff :: bits32) n \<longleftrightarrow> n < 8"
  using bit_mask_iff [of 3 n, where 'a = bits32] bit_mask_iff [of 5 n, where 'a = bits32] bit_mask_iff [of 8 n, where 'a = bits32]
  by (auto simp: mask_eq_exp_minus_1)

lemmas field_bits = bit_and_iff bit_or_iff bit_not_iff_eq bit_drop_bit_eq bit_push_bit_iff bit_field_masks

lemma bit_csr:
  assumes "\<And>v. csr v AND 0xff = v AND (0xff :: bits32)" "n < 8"
  shows "bit (csr v) n = bit v n"
  using assms(1) [of v] assms(2) by (metis bit_and_iff bit_field_masks(3))

lemma rm_field_eq:
  assumes "\<And>n. n < 8 \<Longrightarrow> 5 \<le> n \<Longrightarrow> bit v n = bit w n"
  shows "drop_bit 5 v AND 0x7 = drop_bit 5 w AND (0x7 :: bits32)"
  by (rule bit_word_eqI) (use assms [of "5 + _"] in \<open>auto simp: field_bits simp del: bit_numeral_word_iff\<close>)

lemma test_flag: "w AND 1 \<noteq> 0 \<longleftrightarrow> bit w 0" "w AND 2 \<noteq> 0 \<longleftrightarrow> bit w 1" "w AND 4 \<noteq> 0 \<longleftrightarrow> bit w 2"
  "w AND 8 \<noteq> 0 \<longleftrightarrow> bit w 3" "w AND 0x10 \<noteq> 0 \<longleftrightarrow> bit w 4" "w AND 0x80 \<noteq> 0 \<longleftrightarrow> bit w 7" for w :: bits32
  using and_exp_eq_0_iff_not_bit [of w 0] and_exp_eq_0_iff_not_bit [of w 1] and_exp_eq_0_iff_not_bit [of w 2]
    and_exp_eq_0_iff_not_bit [of w 3] and_exp_eq_0_iff_not_bit [of w 4] and_exp_eq_0_iff_not_bit [of w 7] by simp_all

text \<open>The five flags as a word: bit 3 of the register, division by zero, is bit 7 of the mask.\<close>

definition flag_word :: "bool \<Rightarrow> bool \<Rightarrow> bool \<Rightarrow> bool \<Rightarrow> bool \<Rightarrow> bits32" where
  "flag_word i u f d v = of_bool i OR 2 * of_bool u OR 4 * of_bool f OR 0x80 * of_bool d OR 0x10 * of_bool v"

lemma frm_fp_except_bits: "frm_fp_except w = flag_word (bit w 0) (bit w 1) (bit w 2) (bit w 3) (bit w 4)"
  by (cases "bit w 0"; cases "bit w 1"; cases "bit w 2"; cases "bit w 3"; cases "bit w 4")
    (simp_all add: frm_fp_except_def flag_word_def fp_constants test_flag)

lemma frm_except_bits:
  "frm_except s = of_bool (bit s 0) OR 2 * of_bool (bit s 1) OR 4 * of_bool (bit s 2) OR 8 * of_bool (bit s 7) OR 0x10 * of_bool (bit s 4)"
  by (cases "bit s 0"; cases "bit s 1"; cases "bit s 2"; cases "bit s 7"; cases "bit s 4")
    (simp_all add: frm_except_def fp_constants test_flag)

lemma frm_except_bit:
  "bit (frm_except s) 0 = bit s 0" "bit (frm_except s) 1 = bit s 1" "bit (frm_except s) 2 = bit s 2"
  "bit (frm_except s) 3 = bit s 7" "bit (frm_except s) 4 = bit s 4" "5 \<le> n \<Longrightarrow> \<not> bit (frm_except s) n"
proof -
  have n: "\<not> bit (2 ^ k :: bits32) n" if "k < 5" "5 \<le> n" for k using that by (auto simp: bit_simps)
  have "frm_except s = of_bool (bit s 0) OR 2 ^ 1 * of_bool (bit s 1) OR 2 ^ 2 * of_bool (bit s 2) OR 2 ^ 3 * of_bool (bit s 7) OR 2 ^ 4 * of_bool (bit s 4)"
    by (simp add: frm_except_bits)
  then show "5 \<le> n \<Longrightarrow> \<not> bit (frm_except s) n"
    using n [of 0] n [of 1] n [of 2] n [of 3] n [of 4] by (auto simp: bit_or_iff simp del: power_numeral)
qed (cases "bit s 0"; cases "bit s 1"; cases "bit s 2"; cases "bit s 7"; cases "bit s 4"; simp add: frm_except_bits)+

lemma flag_word_mask: "flag_word (bit s 0) (bit s 1) (bit s 2) (bit s 7) (bit s 4) = s AND except_flags"
proof (rule bit_word_eqI)
  fix n assume "n < LENGTH(32)"
  have f: "except_flags = 2 ^ 0 OR 2 ^ 1 OR 2 ^ 2 OR 2 ^ 7 OR 2 ^ 4" by (simp add: except_flags_def fp_constants)
  have w: "flag_word (bit s 0) (bit s 1) (bit s 2) (bit s 7) (bit s 4) =
    2 ^ 0 * of_bool (bit s 0) OR 2 ^ 1 * of_bool (bit s 1) OR 2 ^ 2 * of_bool (bit s 2) OR 2 ^ 7 * of_bool (bit s 7) OR 2 ^ 4 * of_bool (bit s 4)"
    by (simp add: flag_word_def)
  have b: "bit (2 ^ k * of_bool c :: bits32) n \<longleftrightarrow> n = k \<and> c" if "k < 32" for k c using that by (auto simp: bit_exp_iff)
  have b': "bit (2 ^ k :: bits32) n \<longleftrightarrow> n = k" if "k < 32" for k using that by (auto simp: bit_exp_iff)
  show "bit (flag_word (bit s 0) (bit s 1) (bit s 2) (bit s 7) (bit s 4)) n = bit (s AND except_flags) n"
    unfolding f w bit_or_iff bit_and_iff by (subst b b', simp)+ auto
qed

lemma fp_environment_settings:
  assumes "\<And>v. csr v AND 0xff = v AND 0xff"
  shows "r \<in> round_modes \<Longrightarrow> fpgetround (snd (fpsetround csr r fcsr)) = r"
    and "fpgetsticky (snd (fpsetround csr r fcsr)) = fpgetsticky fcsr"
    and "fpgetsticky (snd (fpsetsticky csr s fcsr)) = s AND except_flags"
    and "fpgetround (snd (fpsetsticky csr s fcsr)) = fpgetround fcsr"
    and "fst (fpsetround csr r fcsr) = (if r \<in> round_modes then fpgetround fcsr else - 1)"
    and "fst (fpsetsticky csr s fcsr) = fpgetsticky fcsr"
    and "r \<notin> round_modes \<Longrightarrow> fpsetround csr r fcsr = (- 1, fcsr)"
proof -
  note csr = bit_csr [OF assms]
  have rm: "drop_bit 5 (csr (push_bit 5 k OR (fcsr AND 0x1f))) AND 0x7 = k AND 0x7" for k
  proof -
    have "drop_bit 5 (csr (push_bit 5 k OR (fcsr AND 0x1f))) AND 0x7 = drop_bit 5 (push_bit 5 k) AND 0x7"
      by (rule rm_field_eq) (auto simp: csr field_bits simp del: bit_numeral_word_iff)
    also have "\<dots> = k AND 0x7"
      by (rule bit_word_eqI) (auto simp: field_bits simp del: bit_numeral_word_iff)
    finally show ?thesis .
  qed
  show "r \<in> round_modes \<Longrightarrow> fpgetround (snd (fpsetround csr r fcsr)) = r"
    using rm [of 0] rm [of 1] rm [of 2] rm [of 3]
    by (auto simp: fpgetround_def fpsetround_def Let_def round_modes_def fp_constants frm_fp_rnd_def)
  show "fpgetsticky (snd (fpsetround csr r fcsr)) = fpgetsticky fcsr"
    by (simp add: fpgetsticky_def fpsetround_def Let_def frm_fp_except_bits csr field_bits)
  show "fpgetsticky (snd (fpsetsticky csr s fcsr)) = s AND except_flags"
    by (simp add: fpgetsticky_def fpsetsticky_def Let_def frm_fp_except_bits csr field_bits frm_except_bit [unfolded One_nat_def] flag_word_mask [unfolded One_nat_def])
  have "drop_bit 5 (csr (frm_except s OR (fcsr AND NOT 0x1f))) AND 0x7 = drop_bit 5 fcsr AND 0x7"
  proof (rule rm_field_eq)
    fix n :: nat assume n: "n < 8" "5 \<le> n"
    then have "bit (NOT 0x1f :: bits32) n" unfolding bit_not_iff_eq bit_field_masks by simp
    then show "bit (csr (frm_except s OR (fcsr AND NOT 0x1f))) n = bit fcsr n"
      using n by (simp add: csr bit_or_iff bit_and_iff frm_except_bit(6) del: bit_numeral_word_iff)
  qed
  then show "fpgetround (snd (fpsetsticky csr s fcsr)) = fpgetround fcsr"
    by (simp add: fpgetround_def fpsetsticky_def)
qed (simp_all add: fpsetround_def fpsetsticky_def fpgetround_def fpgetsticky_def Let_def round_modes_def)

text \<open>
  C39. What is set is read back: after \<open>fpsetround\<close> with one of the four modes \<open>fpgetround\<close> returns it, after
  \<open>fpsetsticky\<close> the function \<open>fpgetsticky\<close> returns the flags that were set; each returns the former setting
  and leaves the other one alone, and an invalid mode is refused and changes nothing.
\<close>

theorem fp_environment_roundtrip:
  assumes "\<And>v. csr v AND 0xff = v AND 0xff" "r \<in> round_modes" "r' \<notin> round_modes"
  shows "fpgetround (snd (fpsetround csr r fcsr)) = r \<and> fst (fpsetround csr r fcsr) = fpgetround fcsr \<and>
    fpgetsticky (snd (fpsetround csr r fcsr)) = fpgetsticky fcsr \<and>
    fpgetsticky (snd (fpsetsticky csr s fcsr)) = s AND except_flags \<and> fst (fpsetsticky csr s fcsr) = fpgetsticky fcsr \<and>
    fpgetround (snd (fpsetsticky csr s fcsr)) = fpgetround fcsr \<and>
    fpsetround csr r' fcsr = (- 1, fcsr)"
  using fp_environment_settings [OF assms(1)] assms(2,3) by simp

theorem fp_environment_roundtrip_witness:
  "fpgetround (snd (fpsetround (\<lambda>v. v AND 0xff) FP_RM 0x1f)) = FP_RM \<and>
   fpgetsticky (snd (fpsetsticky (\<lambda>v. v AND 0xff) FP_X_DX 0x1f)) = FP_X_DX \<and>
   fpsetround (\<lambda>v. v AND 0xff) 7 0x1f = (- 1, 0x1f)"
proof -
  have "(v AND 0xff) AND 0xff = v AND 0xff" for v :: bits32 by (simp add: and.assoc)
  moreover have "FP_RM \<in> round_modes" "7 \<notin> round_modes" "FP_X_DX AND except_flags = FP_X_DX"
    by (simp_all add: round_modes_def except_flags_def fp_constants)
  ultimately show ?thesis using fp_environment_roundtrip [of "\<lambda>v. v AND 0xff" FP_RM 7 "0x1f" FP_X_DX] by simp
qed

end
