(* ===== verification/Lwpr.thy ===== *)
theory Lwpr
  imports Riscv_String "HOL-Library.Signed_Division"
begin

text \<open>
  The light-weight printing library \<open>bclib/lwpr/lwpr.c\<close>.  The characters given to \<open>putchar\<close> are the
  result, in their order; \<open>None\<close> is a read of unmapped memory, a digit outside the buffer \<open>s[50]\<close> or the
  output of a character of the buffer that was never written.  \<open>int\<close> has 32 bits, \<open>-n\<close> wraps around and
  the signed division rounds towards zero.
\<close>

section \<open>Model\<close>

definition BUFFER_SIZE :: nat where "BUFFER_SIZE = 50"

type_synonym buffer = "nat \<rightharpoonup> byte"

partial_function (option) lwpr_print_str :: "mem \<Rightarrow> nat \<Rightarrow> byte list option" where
  "lwpr_print_str m str = do {
     c \<leftarrow> load8 m str;
     if c \<noteq> 0 then do { out \<leftarrow> lwpr_print_str m (str + 1); Some (c # out) } else Some [] }"

definition put_digit :: "buffer \<Rightarrow> nat \<Rightarrow> byte \<Rightarrow> buffer option" where
  "put_digit s i c = (if i < BUFFER_SIZE then Some (s(i \<mapsto> c)) else None)"

text \<open>The loops that generate the digits in reverse order return the buffer and \<open>i\<close>.\<close>

partial_function (option) int_digits :: "bits32 \<Rightarrow> buffer \<Rightarrow> nat \<Rightarrow> (buffer \<times> nat) option" where
  "int_digits n s i = do {
     s \<leftarrow> put_digit s i (word_of_int (sint n smod 10 + 48));
     let n = word_of_int (sint n sdiv 10);
     if 0 < sint n then int_digits n s (i + 1) else Some (s, i + 1) }"

definition hexdigits :: "nat \<rightharpoonup> byte" where
  "hexdigits i = (if i < 10 then Some (0x30 + of_nat i) else if i < 16 then Some (0x61 + of_nat (i - 10)) else None)"

partial_function (option) hex_digits :: "bits32 \<Rightarrow> buffer \<Rightarrow> nat \<Rightarrow> (buffer \<times> nat) option" where
  "hex_digits n s i = do {
     c \<leftarrow> hexdigits (unat (n mod 16));
     s \<leftarrow> put_digit s i c;
     let n = n div 16;
     if 0 < n then hex_digits n s (i + 1) else Some (s, i + 1) }"

text \<open>\<open>for (; i >= 0; --i) putchar(s[i])\<close>, started one below the argument.\<close>

fun print_back :: "buffer \<Rightarrow> nat \<Rightarrow> byte list option" where
  "print_back s 0 = Some []"
| "print_back s (Suc i) = do { c \<leftarrow> s i; out \<leftarrow> print_back s i; Some (c # out) }"

definition lwpr_print_int :: "bits32 \<Rightarrow> byte list option" where
  "lwpr_print_int n = do {
     let sign = n;
     let n = (if sint sign < 0 then - n else n);
     (s, i) \<leftarrow> int_digits n Map.empty 0;
     out \<leftarrow> print_back s i;
     Some ((if sint sign < 0 then [0x2d] else []) @ out) }"

definition lwpr_print_hex :: "bits32 \<Rightarrow> byte list option" where
  "lwpr_print_hex n = do {
     (s, i) \<leftarrow> hex_digits n Map.empty 0;
     print_back s i }"

declare int_digits.simps [code] hex_digits.simps [code] lwpr_print_str.simps [code]

section \<open>Numerals\<close>

text \<open>Digits of a number, least significant first; there is at least one.\<close>

function digits :: "nat \<Rightarrow> nat \<Rightarrow> nat list" where
  "digits b k = k mod b # (if 2 \<le> b \<and> 0 < k div b then digits b (k div b) else [])"
  by auto
termination
  by (relation "measure snd") (auto intro!: div_less_dividend gr0I)

declare digits.simps [simp del]

text \<open>Reading a numeral back.\<close>

definition digit_value :: "byte \<Rightarrow> nat option" where
  "digit_value c =
     (if 0x30 \<le> c \<and> c \<le> 0x39 then Some (unat c - 0x30)
      else if 0x61 \<le> c \<and> c \<le> 0x66 then Some (unat c - 0x61 + 10) else None)"

fun parse_digits :: "nat \<Rightarrow> nat \<Rightarrow> byte list \<Rightarrow> nat option" where
  "parse_digits b k [] = Some k"
| "parse_digits b k (c # cs) = do { d \<leftarrow> digit_value c; if d < b then parse_digits b (b * k + d) cs else None }"

definition parse_int :: "byte list \<Rightarrow> int option" where
  "parse_int cs = (case cs of c # cs' \<Rightarrow> if c = 0x2d then map_option (\<lambda>k. - int k) (parse_digits 10 0 cs')
                                       else map_option int (parse_digits 10 0 cs) | [] \<Rightarrow> None)"

definition digit_char :: "nat \<Rightarrow> byte" where
  "digit_char d = the (hexdigits d)"

lemma digit_char_cases: "d < 16 \<Longrightarrow> hexdigits d = Some (digit_char d) \<and> digit_value (digit_char d) = Some d \<and> digit_char d \<noteq> 0x2d"
proof -
  have "\<forall>d \<in> set [0..<16]. hexdigits d = Some (digit_char d) \<and> digit_value (digit_char d) = Some d \<and> digit_char d \<noteq> 0x2d"
    by code_simp
  then show "d < 16 \<Longrightarrow> ?thesis" by simp
qed

lemma digits_not_Nil [simp]: "digits b k \<noteq> []"
  by (subst digits.simps) simp

lemma digits_less: "2 \<le> b \<Longrightarrow> d \<in> set (digits b k) \<Longrightarrow> d < b"
  by (induction b k rule: digits.induct) (subst (asm) (2) digits.simps, auto split: if_splits)

lemma length_digits: "2 \<le> b \<Longrightarrow> k < b ^ Suc n \<Longrightarrow> length (digits b k) \<le> Suc n"
proof (induction n arbitrary: k)
  case 0
  then show ?case by (subst digits.simps) simp
next
  case (Suc n)
  have "k div b < b ^ Suc n" using Suc.prems by (simp add: less_mult_imp_div_less mult.commute)
  then show ?case using Suc.IH [of "k div b"] Suc.prems(1) by (subst digits.simps) simp
qed

lemma parse_digits_append: "parse_digits b k (xs @ ys) = do { k \<leftarrow> parse_digits b k xs; parse_digits b k ys }"
  by (induction xs arbitrary: k) (auto split: Option.bind_splits)

lemma parse_digits_digits:
  assumes "2 \<le> b" "b \<le> 16"
  shows "parse_digits b 0 (rev (map digit_char (digits b k))) = Some k"
proof (induction k rule: less_induct)
  case (less k)
  have m: "k mod b < 16" "k mod b < b" using assms by (simp_all add: less_le_trans [of _ b])
  show ?case
  proof (cases "0 < k div b")
    case True
    then have "k div b < k" using assms(1) by (intro div_less_dividend) (auto intro!: gr0I)
    then show ?thesis using True less.IH [of "k div b"] assms m digit_char_cases [OF m(1)]
      by (subst digits.simps) (simp add: parse_digits_append)
  next
    case False
    then have "k < b" using assms(1) by (simp add: div_eq_0_iff)
    then show ?thesis using assms m digit_char_cases [OF m(1)] by (subst digits.simps) simp
  qed
qed

text \<open>No leading zero, except for the number zero itself.\<close>

lemma last_digits: "2 \<le> b \<Longrightarrow> 0 < k \<Longrightarrow> last (digits b k) \<noteq> 0"
proof (induction k rule: less_induct)
  case (less k)
  show ?case
  proof (cases "0 < k div b")
    case True
    then have "k div b < k" using less.prems by (intro div_less_dividend) auto
    then show ?thesis using less.IH [of "k div b"] less.prems True by (subst digits.simps) simp
  next
    case False
    then show ?thesis using less.prems by (subst digits.simps) (auto simp: div_eq_0_iff)
  qed
qed

section \<open>The buffer\<close>

fun placed :: "buffer \<Rightarrow> nat \<Rightarrow> byte list \<Rightarrow> buffer" where
  "placed s i [] = s"
| "placed s i (c # cs) = placed (s(i \<mapsto> c)) (Suc i) cs"

lemma placed_nth: "placed s i cs j = (if i \<le> j \<and> j < i + length cs then Some (cs ! (j - i)) else s j)"
  by (induction cs arbitrary: s i) (auto simp: nth_Cons' fun_upd_apply Suc_le_eq)

lemma print_back_placed: "k \<le> length cs \<Longrightarrow> print_back (placed s 0 cs) k = Some (rev (take k cs))"
  by (induction k) (simp_all add: placed_nth take_Suc_conv_app_nth)

lemma int_digits_placed:
  assumes "sint n = int k" "i + length (digits 10 k) \<le> BUFFER_SIZE"
  shows "int_digits n s i = Some (placed s i (map digit_char (digits 10 k)), i + length (digits 10 k))"
  using assms
proof (induction k arbitrary: n s i rule: less_induct)
  case (less k)
  have d: "word_of_int (sint n smod 10 + 48) = digit_char (k mod 10)"
  proof -
    have "sint n smod 10 = int (k mod 10)" using less.prems(1)
      by (cases "k = 0") (simp_all add: signed_modulo_int_def signed_divide_int_def zmod_int minus_div_mult_eq_mod)
    moreover have "\<forall>d \<in> set [0..<10]. word_of_int (int d + 48) = digit_char d" by code_simp
    ultimately show ?thesis by simp
  qed
  have q: "sint n sdiv 10 = int (k div 10)" using less.prems(1)
    by (cases "k = 0") (simp_all add: signed_divide_int_def zdiv_int)
  have r: "sint (word_of_int (int (k div 10)) :: bits32) = int (k div 10)"
  proof -
    have "int k < 2 ^ 31" using sint_lt [of n] less.prems(1) by simp
    then show ?thesis by (intro sint_word_of_int_32) simp_all
  qed
  have i: "i < BUFFER_SIZE" using less.prems(2) by (subst (asm) digits.simps) (simp split: if_splits)
  show ?case
  proof (cases "0 < k div 10")
    case True
    have "int_digits (word_of_int (int (k div 10))) (s(i \<mapsto> digit_char (k mod 10))) (i + 1) =
        Some (placed (s(i \<mapsto> digit_char (k mod 10))) (i + 1) (map digit_char (digits 10 (k div 10))), i + 1 + length (digits 10 (k div 10)))"
      using True less.prems(2) by (intro less.IH r) (simp_all add: digits.simps [of 10 k])
    then show ?thesis using True i by (subst int_digits.simps, simp only: d q r Let_def, subst (1 2) digits.simps) (simp add: put_digit_def)
  next
    case False
    then show ?thesis using i by (subst int_digits.simps, simp only: d q r Let_def, subst (1 2) digits.simps) (simp add: put_digit_def)
  qed
qed

lemma hex_digits_placed:
  assumes "unat n = k" "i + length (digits 16 k) \<le> BUFFER_SIZE"
  shows "hex_digits n s i = Some (placed s i (map digit_char (digits 16 k)), i + length (digits 16 k))"
  using assms
proof (induction k arbitrary: n s i rule: less_induct)
  case (less k)
  have d: "hexdigits (unat (n mod 16)) = Some (digit_char (k mod 16))"
    using less.prems(1) digit_char_cases [of "k mod 16"] by (simp add: unat_mod)
  have q: "unat (n div 16) = k div 16" "0 < n div 16 \<longleftrightarrow> 0 < k div 16"
    using less.prems(1) by (simp_all add: unat_div word_greater_zero_iff unat_eq_0 [symmetric])
  have i: "i < BUFFER_SIZE" using less.prems(2) by (subst (asm) digits.simps) (simp split: if_splits)
  show ?case
  proof (cases "0 < k div 16")
    case True
    have "hex_digits (n div 16) (s(i \<mapsto> digit_char (k mod 16))) (i + 1) =
        Some (placed (s(i \<mapsto> digit_char (k mod 16))) (i + 1) (map digit_char (digits 16 (k div 16))), i + 1 + length (digits 16 (k div 16)))"
      using True less.prems(2) by (intro less.IH q) (simp_all add: digits.simps [of 16 k])
    then show ?thesis using True i by (subst hex_digits.simps, subst (1 2) digits.simps) (simp add: put_digit_def d q)
  next
    case False
    then show ?thesis using i by (subst hex_digits.simps, subst (1 2) digits.simps) (simp add: put_digit_def d q)
  qed
qed

section \<open>Correctness\<close>

text \<open>A numeral without leading zeros: it begins with the digit zero only if it is \<open>0\<close>.\<close>

definition no_leading_zeros :: "byte list \<Rightarrow> bool" where
  "no_leading_zeros ds \<longleftrightarrow> ds \<noteq> [] \<and> (hd ds = 0x30 \<longrightarrow> ds = [0x30])"

lemma numeral_digits:
  assumes "2 \<le> b" "b \<le> 16"
  shows "hd (rev (map digit_char (digits b k))) \<noteq> 0x2d" "no_leading_zeros (rev (map digit_char (digits b k)))"
proof -
  have d: "last (digits b k) < 16" using digits_less [OF assms(1) last_in_set] assms(2) by (meson digits_not_Nil less_le_trans)
  have h: "hd (rev (map digit_char (digits b k))) = digit_char (last (digits b k))" by (simp add: hd_rev last_map)
  show "hd (rev (map digit_char (digits b k))) \<noteq> 0x2d" using digit_char_cases [OF d] unfolding h by blast
  have "digit_value 0x30 = Some 0" by (simp add: digit_value_def)
  then have "0 < k \<Longrightarrow> hd (rev (map digit_char (digits b k))) \<noteq> 0x30"
    using digit_char_cases [OF d] last_digits [OF assms(1), of k] unfolding h by auto
  moreover have "digit_char 0 = 0x30" by code_simp
  then have "rev (map digit_char (digits b 0)) = [0x30]" by (subst digits.simps) simp
  ultimately show "no_leading_zeros (rev (map digit_char (digits b k)))" by (cases "k = 0") (auto simp: no_leading_zeros_def)
qed

text \<open>
  C40. Printing is inverted by reading.  For every number but the smallest one \<open>lwpr_print_int\<close> prints, within
  the 50 characters of its buffer, a minus sign if the number is negative and then a decimal numeral, and the
  whole reads back as the number; for every word \<open>lwpr_print_hex\<close> prints a hexadecimal numeral that reads back
  as the word.  No numeral has leading zeros, that of a negative number included, and zero is the single digit
  \<open>0\<close>.  The smallest number is printed wrongly: \<open>-n\<close> overflows, its remainder is negative, and with
  wrap-around arithmetic the two characters that come out are a minus sign and an opening parenthesis.
\<close>

theorem lwpr_print_roundtrip:
  assumes "sint n \<noteq> - (2 ^ 31)"
  shows "(\<exists>ds. lwpr_print_int n = Some ((if sint n < 0 then [0x2d] else []) @ ds) \<and>
      parse_int ((if sint n < 0 then [0x2d] else []) @ ds) = Some (sint n) \<and> no_leading_zeros ds) \<and>
    (\<exists>ds. lwpr_print_hex h = Some ds \<and> parse_digits 16 0 ds = Some (unat h) \<and> no_leading_zeros ds) \<and>
    lwpr_print_int 0x80000000 = Some [0x2d, 0x28]"
proof (intro conjI)
  define k where "k = nat \<bar>sint n\<bar>"
  let ?n = "if sint n < 0 then - n else n"
  have k: "sint ?n = int k"
  proof -
    have "- (2 ^ 31) \<le> sint n" "sint n < 2 ^ 31" using sint_ge [of n] sint_lt [of n] by simp_all
    then have "sint n < 0 \<Longrightarrow> sint (word_of_int (- sint n) :: bits32) = - sint n" using assms by (intro sint_word_of_int_32) simp_all
    then show ?thesis by (simp add: k_def)
  qed
  then have "k < 10 ^ Suc 9" using sint_lt [of ?n] by simp
  then have "length (digits 10 k) \<le> BUFFER_SIZE" using length_digits [of 10 k 9] by (simp add: BUFFER_SIZE_def)
  then have out: "lwpr_print_int n = Some ((if sint n < 0 then [0x2d] else []) @ rev (map digit_char (digits 10 k)))"
    using int_digits_placed [OF k, of 0] print_back_placed [of "length (digits 10 k)" "map digit_char (digits 10 k)" Map.empty]
    by (simp add: lwpr_print_int_def Let_def)
  moreover have "parse_int ((if sint n < 0 then [0x2d] else []) @ rev (map digit_char (digits 10 k))) = Some (sint n)"
  proof (cases "sint n < 0")
    case True
    then show ?thesis using parse_digits_digits [of 10 k] by (simp add: parse_int_def k_def)
  next
    case False
    obtain c cs where c: "rev (map digit_char (digits 10 k)) = c # cs" by (cases "rev (map digit_char (digits 10 k))") simp_all
    then show ?thesis using False parse_digits_digits [of 10 k] numeral_digits(1) [of 10 k] by (auto simp: parse_int_def k_def)
  qed
  ultimately show "\<exists>ds. lwpr_print_int n = Some ((if sint n < 0 then [0x2d] else []) @ ds) \<and>
      parse_int ((if sint n < 0 then [0x2d] else []) @ ds) = Some (sint n) \<and> no_leading_zeros ds"
    using numeral_digits(2) [of 10 k] by auto
  have "unat h < 16 ^ Suc 7" using unat_lt2p [of h] by simp
  then have "length (digits 16 (unat h)) \<le> BUFFER_SIZE" using length_digits [of 16 "unat h" 7] by (simp add: BUFFER_SIZE_def)
  then have "lwpr_print_hex h = Some (rev (map digit_char (digits 16 (unat h))))"
    using hex_digits_placed [of h "unat h" 0] print_back_placed [of "length (digits 16 (unat h))" "map digit_char (digits 16 (unat h))" Map.empty]
    by (simp add: lwpr_print_hex_def)
  then show "\<exists>ds. lwpr_print_hex h = Some ds \<and> parse_digits 16 0 ds = Some (unat h) \<and> no_leading_zeros ds"
    using parse_digits_digits [of 16 "unat h"] numeral_digits(2) [of 16 "unat h"] by simp
  show "lwpr_print_int 0x80000000 = Some [0x2d, 0x28]" by code_simp
qed

theorem lwpr_print_roundtrip_witness:
  "\<exists>ds. lwpr_print_int (- 2150) = Some (0x2d # ds) \<and> parse_int (0x2d # ds) = Some (- 2150) \<and> no_leading_zeros ds"
  using lwpr_print_roundtrip [of "- 2150" 0] by simp

lemma lwpr_print_str_string:
  "\<forall>i < length cs. m (p + i) = Some (cs ! i) \<and> cs ! i \<noteq> 0 \<Longrightarrow> m (p + length cs) = Some 0 \<Longrightarrow> lwpr_print_str m p = Some cs"
proof (induction cs arbitrary: p)
  case Nil
  then show ?case by (subst lwpr_print_str.simps) (simp add: load8_def)
next
  case (Cons c cs)
  have "lwpr_print_str m (Suc p) = Some cs" using Cons.prems by (intro Cons.IH) auto
  then show ?case using Cons.prems(1) by (subst lwpr_print_str.simps) (simp add: load8_def All_less_Suc2)
qed

end
