(* ===== verification/Spec2Isabelle.thy ===== *)
theory Spec2Isabelle
  imports Int_Emulation Multi_Word Float_Convert Float_Integral Operation_Set Float32_Sqrt Float64_Sqrt Float32_Rem Float64_Rem Pthread_Scheduler Trunc_Quad Riscv_Strncpy_Correct Riscv_Ieeefp Lwpr
begin

text \<open>
  Verification of the C runtime of OpenASIP.

  \<^bold>\<open>The program.\<close>  OpenASIP is a toolset for the design of customised processors.  Its tools (processor
  model, compiler back end, simulator, hardware generators) are written in C++; what runs on the
  generated processor is C: the emulation library that the compiler links when a processor lacks an
  operation, the threads of the C library, the conversions and string routines of the RISC-V target and
  a printing library.  This C code is the subject of the development.  Below, \<open>tce/\<close> stands for
  \<open>src/openasip/newlib-1.17.0/newlib/libc/sys/tce/\<close> and \<open>riscv/\<close> for
  \<open>src/openasip/newlib-1.17.0/newlib/libc/machine/riscv/\<close>.

  \<^bold>\<open>Conventions\<close> (theory \<open>C_Prelude\<close>).  \<open>bits16\<close>, \<open>bits32\<close> and \<open>bits64\<close> are words of that width, so arithmetic
  wraps around as in C on unsigned types; exponents and shift counts, which the code keeps in 16-bit
  signed variables without overflow, are \<open>int\<close>.  \<open>c_shl\<close> and \<open>c_shr\<close> are the C shifts, \<open>flag\<close> is \<open>bool\<close> and
  \<open>bit_of\<close> turns a condition into 0 or 1.  Static variables and the thread structures are records that
  operations take and return.  A loop whose termination is not evident is a \<open>partial_function (option)\<close>:
  \<open>None\<close> means that it does not return, or that it would access unmapped memory or follow a null pointer.
  The properties therefore state that the result is \<open>Some\<close>; no fuel is used anywhere.  The collection
  \<open>c_arith\<close> turns word operations into integer arithmetic.

  \<^bold>\<open>Integer emulation\<close> (\<open>Int_Emulation\<close>; \<open>tce/standard_emulation.c\<close>).  \<open>divmod_align\<close> and \<open>divmod_subtract\<close> are
  the two loops of \<open>divmodsi4\<close> and \<open>divmoddi4\<close>; \<open>divsi3\<close>, \<open>modsi3\<close> and the other entry points call them
  through \<open>divnorm\<close> and \<open>exitdiv\<close> as the macros do; \<open>mul_loop\<close> and \<open>shift_loop\<close> are the loops of multiplication
  and shifts.  The locale \<open>unsigned_divider\<close> is what the signed routines need of the unsigned ones; it is
  interpreted for both widths.  Division is exact for every nonzero divisor except that division by one
  is so only up to \<open>2 ^ 30\<close>: above, the arithmetic shift of the quotient bit never ends the loop, which
  is proved as divergence.

  \<^bold>\<open>Floating-point emulation\<close> (\<open>tce/float_emulation.c\<close>, a copy of SoftFloat 2 with additions).
    \<^item> \<open>Multi_Word\<close>: the 64-, 96- and 128-bit primitives on 32-bit words.  \<open>val64\<close>, \<open>val96\<close> and \<open>val128\<close> read the
      words as one number; every primitive is shown to compute on these numbers, and the quotient
      estimate \<open>estimateDiv64To32\<close> to return and to be at most two too large.
    \<^item> \<open>SoftFloat_Base\<close>: rounding mode and exception flags (\<open>fp_env\<close>), the formats \<open>float32\<close> and \<open>float64\<close>,
      fields, packing, NaNs.
    \<^item> \<open>Float32\<close> and \<open>Float64\<close>: one definition for each routine of the two precisions (conversions, rounding,
      addition, subtraction, multiplication, division, remainder, square root, comparisons), with the
      64-bit conversions of the 64-bit targets.
    \<^item> \<open>Emulate_Wrappers\<close>: the operations \<open>__emulate_*\<close> that the compiler calls and the conversions of
      \<open>src/openasip/bclib/cpp/softfloat_wrappers.c\<close>.
    \<^item> \<open>Float_Rounding\<close>: the specification.  \<open>fval p\<close> gives the value of a magnitude pattern with \<open>p\<close> fraction
      bits, in units of the smallest subnormal number; \<open>round_mag p N D\<close> is the pattern of \<open>N / D\<close> rounded
      to nearest, ties to even, and is proved to be nearest.  \<open>sticks\<close> says that a significand with a
      sticky bit keeps of an exact rational what rounding needs; shifts with jamming, sums, products and
      estimated quotients preserve it.
    \<^item> \<open>Float32_Round\<close>, \<open>Float32_Arith\<close>, \<open>Float32_Correct\<close> and \<open>Float64_Round\<close>, \<open>Float64_Arith\<close>, \<open>Float64_Muldiv\<close>,
      \<open>Float64_Correct\<close>: addition, subtraction, multiplication and division of finite operands, subnormal
      ones included, return exactly the rounded pattern (infinity on overflow), in the rounding mode to
      nearest even, which the library never leaves; both divisions return.
    \<^item> \<open>Float_Format\<close>: the interfaces \<open>binary_format\<close> and, extending it, \<open>correctly_rounded\<close>; what follows from
      correct rounding (no number is nearer, addition and multiplication commute) is proved there and
      holds of both precisions by interpretation.
    \<^item> \<open>Square_Root\<close>, \<open>Float32_Sqrt\<close>, \<open>Float64_Sqrt\<close>: the table-driven estimate \<open>estimateSqrt32\<close> lies strictly within
      two of the exact root (a parabola is compared with its chord and a tangent on each interval of the
      tables); \<open>root_sticks\<close> is for roots what \<open>sticks\<close> is for quotients; both square roots end and return the
      nearest number of the format.
    \<^item> \<open>Float_Remainder\<close>, \<open>Float32_Rem\<close>, \<open>Float64_Rem\<close>: the remainders are exact.  Each loop keeps a fixed
      fraction of the rest, because the low bits are zero and the bits shifted out vanish modulo the word size;
      the quotient's parity follows the last digit.
    \<^item> \<open>Float_Convert\<close>: the conversions between the two precisions and with 32-bit integers round, are exact or
      truncate, and the round trips, which lose nothing but the signalling state of a NaN.
    \<^item> \<open>Float_Integral\<close>: rounding to an integral value in all four rounding modes, with the inexact flag.  The masks
      of the code round the bit pattern, and \<open>binary_format\<close> carries that over to the value.
    \<^item> \<open>Float_Order\<close>: the comparisons.  The locale \<open>float_comparisons\<close> is the contract of six comparison
      routines, interpreted for both precisions; on it rest the order by value, the total order and the
      treatment of NaNs.
    \<^item> \<open>Operation_Set\<close> (\<open>src/openasip/opset/base/base.cc\<close>, \<open>double.cc\<close>): the comparisons as the operation set
      defines them for the simulator and the hardware, with which the emulated ones are compared.  Six
      emulated operations differ on NaNs: the ordered \<open>NE\<close>, \<open>GE\<close> and \<open>GT\<close> of both precisions.

  \<^bold>\<open>Threads\<close> (\<open>Pthread_TCE\<close>, \<open>Pthread_Scheduler\<close>; \<open>tce/pthread_tce.c\<close>, \<open>tce/include/internals.h\<close>).  The heap of
  thread structures is a map from addresses to records with the links of the list, so that aliasing and
  use after \<open>free\<close> (a fault) are visible; \<open>malloc\<close> and \<open>main\<close>'s stack are arguments.  \<open>thread_state\<close> is the
  inductive set of states reached by creation, exit and switches.  The list operations implement an
  abstract round-robin scheduler (locale \<open>scheduler\<close>): every reachable state is well formed, a switch
  never faults and selects a live thread, every thread runs again.  \<open>pthread_join\<close> is a machine that makes one
  read of the list per step (\<open>join_step\<close>), since its traversal takes no lock; the inductive relation \<open>joining\<close>
  interleaves its steps with those of the other threads.  Four failures are proved as well: creation after
  a failed allocation, two interleaved creations, \<open>pthread_exit\<close> followed by return, and a thread that exits
  while \<open>pthread_join\<close> for another one is visiting it.

  \<^bold>\<open>Conversion from binary128\<close> (\<open>Trunc_Quad\<close>; \<open>src/openasip/data/riscv/runtime/trunctfdf2.c\<close>).  The bit
  manipulation equals \<open>round_mag\<close> on every finite argument and treats infinities and NaNs as documented.

  \<^bold>\<open>RISC-V routines\<close>.  \<open>Riscv_String\<close>, \<open>Riscv_String_Correct\<close>, \<open>Riscv_Strncpy_Correct\<close> (\<open>riscv/strlen.c\<close>,
  \<open>strcpy.c\<close>, \<open>strcmp.c\<close>, \<open>memcpy.c\<close>, \<open>memset.c\<close>, \<open>strncpy.c\<close>, \<open>sys/string.h\<close>): memory is a partial map from
  addresses to bytes, an access that is unmapped or not aligned is \<open>None\<close>; the word-wise loops compute
  what byte-wise ones would, for every length and alignment, and change nothing else.  Pointers do not
  wrap around, except \<open>lend - 8\<close> in \<open>memcpy\<close>, which does for an area in the first 32 bytes of memory and
  lets the copy overrun it.  \<open>Riscv_Ieeefp\<close>
  (\<open>riscv/ieeefp.c\<close>): the floating-point environment; what the processor keeps of a value written to its
  control register is a parameter.

  \<^bold>\<open>Printing\<close> (\<open>Lwpr\<close>; \<open>src/openasip/bclib/lwpr/lwpr.c\<close>).  The characters given to \<open>putchar\<close> are the result;
  the numerals have no leading zeros and read back as the number printed, except for the smallest integer.

  \<^bold>\<open>How the parts interact.\<close>  The wrappers call the routines of the two precisions, these call the
  multi-word primitives and share the floating-point state; the theories import one another in that
  order.  Threads, string routines and printing are independent of arithmetic; printing reads the
  memory of \<open>Riscv_String\<close>.

  \<^bold>\<open>Modelled without a theorem.\<close>  The rounding modes other than to nearest even, which the library never
  selects, except in rounding to an integral value, and the exception flags of the arithmetic are defined as
  in the code but no theorem is stated about them.

  \<^bold>\<open>Not modelled.\<close>  The mutexes of \<open>pthread_tce.c\<close> (under \<open>#if 0\<close>) and the register save and restore around a
  switch (assembly); the size-optimised variants of the string routines; start-up code, system call
  stubs and everything that is only input and output; newlib itself, which is third-party code; the
  C++ of the toolset, except for the comparisons of the operation set, and the hardware libraries.
\<close>

end
